(* ===== verification/Prelude.thy ===== *)
theory Prelude
  imports Main "HOL-Library.Word" "HOL-Library.Multiset"
begin

text \<open>
  What every theory of the development shares: the names of C's integer types, generic facts
  on words read bit by bit, on lists and on folds, and the locale of transition systems that
  carries an invariant from single steps to every reachable state.
\<close>

unbundle bit_operations_syntax

section \<open>C's integer types\<close>

type_synonym u8 = "8 word"
type_synonym u16 = "16 word"
type_synonym u32 = "32 word"
type_synonym u64 = "64 word"

definition LLONG_MAX :: int where "LLONG_MAX = 2 ^ 63 - 1"

definition LLONG_MIN :: int where "LLONG_MIN = - (2 ^ 63)"

definition UINT_MAX :: u32 where "UINT_MAX = - 1"

definition INT_MAX :: int where "INT_MAX = 2 ^ 31 - 1"

text \<open>What a component asks of the poll loop.\<close>

datatype wakeup = No_wakeup | Immediate_wake | Timer_wait_until int

section \<open>Words, bit by bit\<close>

named_theorems word_bits \<open>how \<open>bit\<close> distributes over the word operations\<close>

lemmas [word_bits] = bit_and_iff bit_or_iff bit_xor_iff bit_not_iff bit_push_bit_iff
  bit_drop_bit_eq bit_take_bit_iff bit_mask_iff

lemma word_eq_iff_bits:
  fixes x y :: "'a::len word"
  shows "x = y \<longleftrightarrow> (\<forall>i < LENGTH('a). bit x i = bit y i)"
  by (auto intro: bit_word_eqI)

lemma word_nonzero_iff_bit:
  fixes x :: "'a::len word"
  shows "x \<noteq> 0 \<longleftrightarrow> (\<exists>i < LENGTH('a). bit x i)"
  by (simp add: word_eq_iff_bits)

lemma word_bit_bound:
  fixes x :: "'a::len word"
  shows "bit x i \<Longrightarrow> i < LENGTH('a)"
  by (rule bit_imp_le_length)

lemma unat_and_mask_le:
  fixes h m :: "'a::len word"
  shows "unat (h AND m) \<le> unat m"
  by (simp add: word_and_le1 word_le_nat_alt [symmetric])

lemma and_xor_zero_iff:
  fixes a b m :: "'a::len word"
  shows "(a XOR b) AND m = 0 \<longleftrightarrow> a AND m = b AND m"
  by (auto simp: word_eq_iff_bits word_bits)

lemma unat_exp:
  assumes "n < LENGTH('a)"
  shows "unat (2 ^ n :: 'a::len word) = 2 ^ n"
proof -
  have "unat (word_of_nat (2 ^ n) :: 'a word) = 2 ^ n mod 2 ^ LENGTH('a)"
    by (rule unat_of_nat)
  with assms show ?thesis by simp
qed

lemma bit_exp_minus_1:
  "bit (push_bit n 1 - 1 :: 'a::len word) i \<longleftrightarrow> i < n \<and> i < LENGTH('a)"
proof -
  have "push_bit n 1 - 1 = (mask n :: 'a word)" by (simp add: mask_eq_exp_minus_1)
  then show ?thesis by (simp only: bit_mask_iff) auto
qed

lemma bit_exp_minus_1':
  "bit (2 ^ n - 1 :: 'a::len word) i \<longleftrightarrow> i < n \<and> i < LENGTH('a)"
  using bit_exp_minus_1 [of n i, where 'a = 'a] by simp

text \<open>The lowest set bit of a word, and what subtracting one does to it.\<close>

definition is_lsb :: "'a::len word \<Rightarrow> nat \<Rightarrow> bool" where
  "is_lsb x z \<longleftrightarrow> bit x z \<and> (\<forall>i < z. \<not> bit x i)"

lemma is_lsb_ex: "x \<noteq> 0 \<Longrightarrow> \<exists>z. is_lsb x z"
proof -
  assume "x \<noteq> 0"
  then obtain i where "bit x i" by (auto simp: word_nonzero_iff_bit)
  then show ?thesis
    unfolding is_lsb_def by (metis LeastI_ex not_less_Least)
qed

lemma is_lsb_bound: "is_lsb (x :: 'a::len word) z \<Longrightarrow> z < LENGTH('a)"
  by (auto simp: is_lsb_def dest: word_bit_bound)

lemma is_lsb_unique: "is_lsb x y \<Longrightarrow> is_lsb x z \<Longrightarrow> y = z"
  by (auto simp: is_lsb_def) (metis nat_neq_iff)

lemma is_lsb_push_bit:
  "is_lsb (x :: 'a::len word) z \<Longrightarrow> z + k < LENGTH('a) \<Longrightarrow> is_lsb (push_bit k x) (z + k)"
  by (auto simp: is_lsb_def word_bits)

lemma push_bit_nonzero_iff:
  assumes "is_lsb (x :: 'a::len word) z"
  shows "push_bit k x \<noteq> 0 \<longleftrightarrow> z + k < LENGTH('a)"
proof
  assume "push_bit k x \<noteq> 0"
  then obtain i where i: "i < LENGTH('a)" "k \<le> i" "bit x (i - k)"
    by (auto simp: word_nonzero_iff_bit word_bits)
  from i(3) assms have "z \<le> i - k" by (auto simp: is_lsb_def not_less [symmetric])
  with i show "z + k < LENGTH('a)" by simp
next
  assume "z + k < LENGTH('a)"
  with assms have "bit (push_bit k x) (z + k)" by (auto simp: is_lsb_def word_bits)
  then show "push_bit k x \<noteq> 0" by auto
qed

lemma bit_minus_one_lsb:
  fixes x :: "'a::len word"
  assumes "is_lsb x z"
  shows "bit (x - 1) i \<longleftrightarrow> i < LENGTH('a) \<and> (if i \<le> z then i < z else bit x i)"
proof -
  define k where "k = Suc z"
  let ?hi = "push_bit k (drop_bit k x)"
  have zb: "z < LENGTH('a)" using assms by (rule is_lsb_bound)
  have "bit x i \<longleftrightarrow> bit (?hi OR 2 ^ z) i" if "i < LENGTH('a)" for i
    using assms zb that unfolding is_lsb_def
    by (cases i z rule: linorder_cases)
      (auto simp: word_bits bit_exp_iff k_def simp del: push_bit_Suc)
  then have "x = ?hi OR 2 ^ z" by (auto intro: bit_word_eqI)
  moreover have "?hi OR 2 ^ z = ?hi + 2 ^ z"
    by (rule disjunctive_add [symmetric])
      (auto simp: word_bits bit_exp_iff k_def simp del: push_bit_Suc)
  ultimately have "x = ?hi + 2 ^ z" by (rule trans)
  then have "x - 1 = ?hi + 2 ^ z - 1" by (rule arg_cong)
  also have "\<dots> = ?hi + mask z" by (simp add: mask_eq_exp_minus_1)
  also have "?hi + mask z = ?hi OR mask z"
    by (rule disjunctive_add) (auto simp: word_bits k_def simp del: push_bit_Suc)
  finally have "bit (x - 1) i \<longleftrightarrow> bit (?hi OR mask z) i" by (rule arg_cong)
  also have "\<dots> \<longleftrightarrow> i < LENGTH('a) \<and> (if i \<le> z then i < z else bit x i)"
    using zb by (cases i z rule: linorder_cases)
      (auto simp: word_bits k_def simp del: push_bit_Suc)
  finally show ?thesis .
qed

lemma zero_rightmost_bits:
  fixes x :: "'a::len word"
  assumes "is_lsb x z"
  shows "bit (x AND (x - 1)) i \<longleftrightarrow> bit x i \<and> i \<noteq> z"
  using assms word_bit_bound [of x i] unfolding bit_and_iff bit_minus_one_lsb [OF assms]
  by (cases i z rule: linorder_cases) (auto simp: is_lsb_def)

section \<open>Lists\<close>

lemma nth_map_upt0: "i < n \<Longrightarrow> map f [0..<n] ! i = f i"
  by simp

lemma find_Some_iff_first:
  "List.find P xs = Some x \<Longrightarrow> x \<in> set xs \<and> P x"
  by (auto simp: find_Some_iff in_set_conv_nth)

lemma find_None_iff_all: "List.find P xs = None \<longleftrightarrow> (\<forall>x \<in> set xs. \<not> P x)"
  by (auto simp: find_None_iff)

lemma sorted_wrt_remove1: "sorted_wrt P xs \<Longrightarrow> sorted_wrt P (remove1 x xs)"
  by (induction xs) (auto dest: subsetD [OF set_remove1_subset])

text \<open>
  A list in descending order of a rank. When the rank of one element goes up (or down), the list
  stays in order if the element moves forward (or back) past those it has overtaken.
\<close>

abbreviation descending :: "('a \<Rightarrow> 'b::linorder) \<Rightarrow> 'a list \<Rightarrow> bool" where
  "descending f \<equiv> sorted_wrt (\<lambda>x y. f y \<le> f x)"

lemma sorted_dropWhile_ge:
  fixes f :: "'a \<Rightarrow> 'b::linorder"
  assumes "sorted_wrt (\<lambda>x y. f x \<le> f y) xs" and "x \<in> set (dropWhile (\<lambda>i. \<not> v \<le> f i) xs)"
  shows "v \<le> f x"
  using assms by (induction xs) (auto split: if_splits)

lemma sorted_dropWhile_le:
  fixes f :: "'a \<Rightarrow> 'b::linorder"
  assumes "descending f xs" and "x \<in> set (dropWhile (\<lambda>i. \<not> f i \<le> v) xs)"
  shows "f x \<le> v"
  using assms by (induction xs) (auto split: if_splits)

lemma descending_move_forward:
  fixes f :: "'a \<Rightarrow> 'b::linorder"
  assumes "descending f (pre @ t # post)" and "f t \<le> v"
  shows "descending f (rev (dropWhile (\<lambda>i. \<not> v \<le> f i) (rev pre)) @ rev (takeWhile (\<lambda>i. \<not> v \<le> f i) (rev pre)) @ post)"
    and "x \<in> set (rev (dropWhile (\<lambda>i. \<not> v \<le> f i) (rev pre))) \<Longrightarrow> v \<le> f x"
    and "x \<in> set (rev (takeWhile (\<lambda>i. \<not> v \<le> f i) (rev pre)) @ post) \<Longrightarrow> f x \<le> v"
proof -
  have pre: "rev (dropWhile P (rev pre)) @ rev (takeWhile P (rev pre)) = pre" for P
    by (metis rev_append rev_rev_ident takeWhile_dropWhile_id)
  show "descending f (rev (dropWhile (\<lambda>i. \<not> v \<le> f i) (rev pre)) @ rev (takeWhile (\<lambda>i. \<not> v \<le> f i) (rev pre)) @ post)"
    unfolding append_assoc [symmetric] pre using assms(1) by (simp add: sorted_wrt_append)
  show "v \<le> f x" if "x \<in> set (rev (dropWhile (\<lambda>i. \<not> v \<le> f i) (rev pre)))"
    using assms(1) that by (intro sorted_dropWhile_ge [of f "rev pre"]) (simp_all add: sorted_wrt_append sorted_wrt_rev)
  show "f x \<le> v" if "x \<in> set (rev (takeWhile (\<lambda>i. \<not> v \<le> f i) (rev pre)) @ post)"
  proof (cases "x \<in> set post")
    case True
    then have "f x \<le> f t" using assms(1) by (auto simp: sorted_wrt_append)
    with assms(2) show ?thesis by simp
  next
    case False
    with that have "\<not> v \<le> f x" by (auto dest: set_takeWhileD)
    then show ?thesis by simp
  qed
qed

lemma descending_move_back:
  fixes f :: "'a \<Rightarrow> 'b::linorder"
  assumes "descending f (pre @ t # post)" and "v \<le> f t"
  shows "descending f (pre @ takeWhile (\<lambda>i. \<not> f i \<le> v) post @ dropWhile (\<lambda>i. \<not> f i \<le> v) post)"
    and "x \<in> set (pre @ takeWhile (\<lambda>i. \<not> f i \<le> v) post) \<Longrightarrow> v \<le> f x"
    and "x \<in> set (dropWhile (\<lambda>i. \<not> f i \<le> v) post) \<Longrightarrow> f x \<le> v"
proof -
  show "descending f (pre @ takeWhile (\<lambda>i. \<not> f i \<le> v) post @ dropWhile (\<lambda>i. \<not> f i \<le> v) post)"
    using assms(1) by (simp add: sorted_wrt_append)
  show "v \<le> f x" if "x \<in> set (pre @ takeWhile (\<lambda>i. \<not> f i \<le> v) post)"
  proof (cases "x \<in> set pre")
    case True
    then have "f t \<le> f x" using assms(1) by (auto simp: sorted_wrt_append)
    with assms(2) show ?thesis by simp
  next
    case False
    with that have "\<not> f x \<le> v" by (auto dest: set_takeWhileD)
    then show ?thesis by simp
  qed
  show "f x \<le> v" if "x \<in> set (dropWhile (\<lambda>i. \<not> f i \<le> v) post)"
    using assms(1) that by (intro sorted_dropWhile_le [of f post]) (simp_all add: sorted_wrt_append)
qed

lemma descending_insert:
  fixes f :: "'a \<Rightarrow> 'b::linorder"
  assumes "descending f (xs @ ys)" and "t \<notin> set xs \<union> set ys"
    and "\<And>x. x \<in> set xs \<Longrightarrow> v \<le> f x" and "\<And>x. x \<in> set ys \<Longrightarrow> f x \<le> v"
    and "\<And>x. x \<noteq> t \<Longrightarrow> g x = f x" and "g t = v"
  shows "descending g (xs @ t # ys)"
proof -
  have g: "g x = f x" if "x \<in> set (xs @ ys)" for x
    using assms(2) assms(5) [of x] that by auto
  have "descending g (xs @ ys)"
    by (rule sorted_wrt_mono_rel [OF _ assms(1)]) (simp add: g)
  then show ?thesis using assms(3,4,6) g by (auto simp: sorted_wrt_append)
qed

section \<open>Intervals of naturals\<close>

lemma all_interval_shift:
  "(\<forall>k :: nat. a \<le> k \<and> k < a + n \<longrightarrow> P k) \<longleftrightarrow> (\<forall>j < n. P (a + j))"
proof safe
  fix k assume "\<forall>j < n. P (a + j)" and "a \<le> k" and "k < a + n"
  then show "P k" using le_Suc_ex [of a k] by auto
qed simp

lemma all_interval_split:
  assumes "c \<le> n"
  shows "(\<forall>k :: nat. a \<le> k \<and> k < a + c \<longrightarrow> P k) \<and> (\<forall>k. a + c \<le> k \<and> k < a + n \<longrightarrow> P k)
    \<longleftrightarrow> (\<forall>k. a \<le> k \<and> k < a + n \<longrightarrow> P k)"
proof safe
  fix k assume "\<forall>k. a \<le> k \<and> k < a + c \<longrightarrow> P k" and "\<forall>k. a + c \<le> k \<and> k < a + n \<longrightarrow> P k"
    and "a \<le> k" and "k < a + n"
  then show "P k" by (cases "k < a + c") auto
qed (use assms in auto)

section \<open>Transition systems\<close>

text \<open>
  A component whose handlers may run in any order is a set of initial states and a step
  relation. An invariant that holds initially and that every step keeps holds in every
  reachable state.
\<close>

locale transition_system =
  fixes init :: "'s \<Rightarrow> bool"
    and step :: "'s \<Rightarrow> 's \<Rightarrow> bool"
    and inv :: "'s \<Rightarrow> bool"
  assumes inv_init: "init s \<Longrightarrow> inv s"
    and inv_step: "inv s \<Longrightarrow> step s t \<Longrightarrow> inv t"
begin

lemma inv_steps: "step\<^sup>*\<^sup>* s t \<Longrightarrow> inv s \<Longrightarrow> inv t"
  by (induction rule: rtranclp_induct) (auto intro: inv_step)

lemma inv_reachable: "init s \<Longrightarrow> step\<^sup>*\<^sup>* s t \<Longrightarrow> inv t"
  by (auto intro: inv_steps inv_init)

end

end
