(* ===== verification/Csum.thy ===== *)
theory Csum
  imports Prelude
begin

text \<open>
  The Internet checksum of \<^verbatim>\<open>lib/csum.c\<close> on a little-endian host, and its incremental update after a field of
  the packet has changed (RFC 1624). Bytes are lists; a partial sum is a 32-bit word and wraps around.
\<close>

section \<open>Operations\<close>

definition get_unaligned_be16 :: "u8 \<Rightarrow> u8 \<Rightarrow> u16" where
  "get_unaligned_be16 b0 b1 = ucast b0 OR push_bit 8 (ucast b1)"

definition csum_add16 :: "u32 \<Rightarrow> u16 \<Rightarrow> u32" where
  "csum_add16 partial new = partial + ucast new"

definition csum_add32 :: "u32 \<Rightarrow> u32 \<Rightarrow> u32" where
  "csum_add32 partial new = partial + drop_bit 16 new + (new AND 0xffff)"

fun csum_continue :: "u32 \<Rightarrow> u8 list \<Rightarrow> u32" where
  "csum_continue partial (b0 # b1 # data) = csum_continue (csum_add16 partial (get_unaligned_be16 b0 b1)) data"
| "csum_continue partial [b0] = partial + ucast b0"
| "csum_continue partial [] = partial"

lemma and_low16: "(p :: u32) AND 0xffff = take_bit 16 p"
  by (simp add: take_bit_eq_mask mask_eq_exp_minus_1)

lemma unat_halves:
  fixes p :: u32
  shows "unat (p AND 0xffff) = unat p mod 2 ^ 16" and "unat (drop_bit 16 p) = unat p div 2 ^ 16"
proof -
  have "unat (p AND 0xffff) = take_bit 16 (unat p)" by (simp only: and_low16 unsigned_take_bit_eq)
  then show "unat (p AND 0xffff) = unat p mod 2 ^ 16" by (simp only: take_bit_eq_mod)
  have "unat (drop_bit 16 p) = drop_bit 16 (unat p)" by (rule unat_drop_bit_eq)
  then show "unat (drop_bit 16 p) = unat p div 2 ^ 16" by (simp only: drop_bit_eq_div)
qed

lemma fold_decreases:
  assumes "drop_bit 16 (p :: u32) \<noteq> 0"
  shows "unat ((p AND 0xffff) + drop_bit 16 p) = unat p mod 2 ^ 16 + unat p div 2 ^ 16"
    and "unat p mod 2 ^ 16 + unat p div 2 ^ 16 < unat p"
proof -
  note a = unat_halves(1) [of p] and d = unat_halves(2) [of p]
  have "unat p < 2 ^ 32" using unsigned_less [of p] by simp
  then have q: "unat p div 2 ^ 16 < 2 ^ 16" by (simp add: div_less_iff_less_mult)
  have m: "unat p mod 2 ^ 16 < 2 ^ 16" by simp
  show "unat ((p AND 0xffff) + drop_bit 16 p) = unat p mod 2 ^ 16 + unat p div 2 ^ 16"
    using q m by (simp add: unat_word_ariths a d)
  have "unat p div 2 ^ 16 \<noteq> 0" using assms d by (metis unat_eq_zero)
  then have "0 < unat p div 65536" by simp
  then have "unat p mod 65536 + unat p div 65536 < unat p" using div_mult_mod_eq [of "unat p" 65536] by linarith
  then show "unat p mod 2 ^ 16 + unat p div 2 ^ 16 < unat p" by simp
qed

function fold_partial :: "u32 \<Rightarrow> u32" where
  "fold_partial partial = (if drop_bit 16 partial \<noteq> 0 then fold_partial ((partial AND 0xffff) + drop_bit 16 partial) else partial)"
  by pat_completeness auto
termination
  by (relation "measure unat") (simp_all add: fold_decreases [simplified])

declare fold_partial.simps [simp del]

definition csum_finish :: "u32 \<Rightarrow> u16" where
  "csum_finish partial = NOT (ucast (fold_partial partial))"

definition csum :: "u8 list \<Rightarrow> u16" where
  "csum data = csum_finish (csum_continue 0 data)"

definition recalc_csum16 :: "u16 \<Rightarrow> u16 \<Rightarrow> u16 \<Rightarrow> u16" where
  "recalc_csum16 old_csum old_u16 new_u16 =
     (let hc_complement = NOT old_csum; m_complement = NOT old_u16; m_prime = new_u16;
          sum = ucast hc_complement + ucast m_complement + ucast m_prime
      in csum_finish sum)"

definition recalc_csum32 :: "u16 \<Rightarrow> u32 \<Rightarrow> u32 \<Rightarrow> u16" where
  "recalc_csum32 old_csum old_u32 new_u32 =
     recalc_csum16 (recalc_csum16 old_csum (ucast old_u32) (ucast new_u32))
       (ucast (drop_bit 16 old_u32)) (ucast (drop_bit 16 new_u32))"

definition recalc_csum128 :: "u16 \<Rightarrow> u32 list \<Rightarrow> u32 list \<Rightarrow> u16" where
  "recalc_csum128 old_csum old_u32 new_u32 =
     foldl (\<lambda>new_csum i. recalc_csum32 new_csum (old_u32 ! i) (new_u32 ! i)) old_csum [0..<4]"

section \<open>Arithmetic modulo 65535\<close>

fun sum16 :: "u8 list \<Rightarrow> nat" where
  "sum16 (b0 # b1 # data) = unat b0 + 256 * unat b1 + sum16 data"
| "sum16 [b0] = unat b0"
| "sum16 [] = 0"

text \<open>The representative of \<open>n\<close> modulo 65535 in ones' complement: 0 only for 0.\<close>

definition fold16 :: "nat \<Rightarrow> nat" where
  "fold16 n = (if n = 0 then 0 else (n - 1) mod 65535 + 1)"

lemma fold16_le: "fold16 n \<le> 65535"
proof -
  have "(n - 1) mod 65535 < 65535" by simp
  then have "Suc ((n - 1) mod 65535) \<le> 65535" by (rule Suc_leI)
  then show ?thesis by (simp add: fold16_def)
qed

lemma fold16_cong:
  assumes "m mod 65535 = n mod 65535" and "m \<noteq> 0" and "n \<noteq> 0"
  shows "fold16 m = fold16 n"
proof -
  have "(m + 65534) mod 65535 = (n + 65534) mod 65535" by (rule mod_add_cong [OF assms(1) refl])
  moreover have "k + 65534 = (k - 1) + 65535" if "k \<noteq> 0" for k :: nat using that by simp
  ultimately have "(m - 1) mod 65535 = (n - 1) mod 65535" using assms(2,3) by (metis mod_add_self2)
  then show ?thesis using assms(2,3) by (simp add: fold16_def)
qed

lemma fold_step: "fold16 (n mod 2 ^ 16 + n div 2 ^ 16) = fold16 n"
proof (cases "n = 0")
  case False
  define q r where "q = n div 2 ^ 16" and "r = n mod 2 ^ 16"
  have eq: "n = q * 65535 + (r + q)" using div_mult_mod_eq [of n "2 ^ 16"] by (simp add: q_def r_def)
  then have "r + q \<noteq> 0" using False by auto
  moreover have "n mod 65535 = (r + q) mod 65535" by (subst eq) (rule mod_mult_self3)
  ultimately show ?thesis using fold16_cong [of "r + q" n] False by (simp add: q_def r_def)
qed simp

lemma fold_partial_fold16: "unat (fold_partial p) = fold16 (unat p)"
proof (induction p rule: fold_partial.induct)
  case (1 p)
  show ?case
  proof (cases "drop_bit 16 p = 0")
    case True
    then have "unat p div 2 ^ 16 = 0" using unat_halves(2) [of p] by (metis unat_0)
    then have "unat p < 2 ^ 16" by (simp add: div_eq_0_iff)
    then have "fold16 (unat p) = unat p" by (cases "unat p = 0") (simp_all add: fold16_def)
    then show ?thesis using True by (simp add: fold_partial.simps [of p])
  next
    case False
    then show ?thesis using 1 fold_decreases(1) [OF False] fold_step [of "unat p"] by (simp add: fold_partial.simps [of p])
  qed
qed

lemma unat_not16: "unat (NOT x :: u16) = 65535 - unat x"
proof -
  have "NOT x = - 1 - x" by (simp add: not_eq_complement)
  then have "unat (NOT x) = unat (- 1 :: u16) - unat x" by (simp add: unat_sub)
  moreover have "unat (- 1 :: u16) = 65535" by (simp add: unsigned_minus_1_eq_mask mask_eq_exp_minus_1)
  ultimately show ?thesis by simp
qed

lemma csum_finish_fold16: "unat (csum_finish p) = 65535 - fold16 (unat p)"
proof -
  have "unat (ucast (fold_partial p) :: u16) = take_bit 16 (fold16 (unat p))"
    by (simp add: unsigned_ucast_eq flip: fold_partial_fold16)
  also have "\<dots> = fold16 (unat p)" by (rule take_bit_nat_eq_self) (use fold16_le [of "unat p"] in simp)
  finally have "unat (ucast (fold_partial p) :: u16) = fold16 (unat p)" .
  then show ?thesis by (simp add: csum_finish_def unat_not16)
qed

section \<open>Sums of byte lists\<close>

lemma byte_bound: "unat (b :: u8) < 256"
proof -
  have "unat b < 2 ^ LENGTH(8)" by (rule unsigned_less)
  then show ?thesis by simp
qed

lemma half_bound: "unat (x :: u16) < 65536"
proof -
  have "unat x < 2 ^ LENGTH(16)" by (rule unsigned_less)
  then show ?thesis by simp
qed

lemma unat_ucast_half: "unat (ucast (x :: u16) :: u32) = unat x"
proof -
  have "take_bit 32 (unat x) = unat x" by (rule take_bit_nat_eq_self) (use half_bound [of x] in simp)
  then show ?thesis by (simp add: unsigned_ucast_eq)
qed

lemma unat_ucast_byte: "unat (ucast (b :: u8) :: u32) = unat b"
proof -
  have "take_bit 32 (unat b) = unat b" by (rule take_bit_nat_eq_self) (use byte_bound [of b] in simp)
  then show ?thesis by (simp add: unsigned_ucast_eq)
qed

lemma unat_get_unaligned: "unat (get_unaligned_be16 b0 b1) = unat b0 + 256 * unat b1"
proof -
  have "get_unaligned_be16 b0 b1 = ucast b0 + push_bit 8 (ucast b1)"
    unfolding get_unaligned_be16_def by (rule disjunctive_add [symmetric]) (auto simp: bit_simps dest: bit_imp_le_length)
  moreover note byte_bound [of b0] byte_bound [of b1]
  ultimately show ?thesis by (simp add: push_bit_eq_mult unat_word_ariths unsigned_ucast_eq take_bit_nat_eq_self)
qed

lemma sum16_bound: "2 * sum16 data \<le> 65535 * (length data + 1)"
proof (induction data rule: sum16.induct)
  case (1 b0 b1 data)
  show ?case using 1 byte_bound [of b0] byte_bound [of b1] by simp
next
  case (2 b0)
  then show ?case using byte_bound [of b0] by simp
qed simp

lemma sum16_append: "even (length xs) \<Longrightarrow> sum16 (xs @ ys) = sum16 xs + sum16 ys"
  by (induction xs rule: sum16.induct) simp_all

lemma sum16_zero: "sum16 data = 0 \<longleftrightarrow> (\<forall>b \<in> set data. b = 0)"
  by (induction data rule: sum16.induct) (auto simp: unat_eq_zero)

lemma csum_continue_sum16: "unat p + sum16 data < 2 ^ 32 \<Longrightarrow> unat (csum_continue p data) = unat p + sum16 data"
proof (induction p data rule: csum_continue.induct)
  case (1 p b0 b1 data)
  have g: "unat (ucast (get_unaligned_be16 b0 b1) :: u32) = unat b0 + 256 * unat b1" by (simp only: unat_ucast_half unat_get_unaligned)
  then have "unat (csum_add16 p (get_unaligned_be16 b0 b1)) = unat p + unat b0 + 256 * unat b1"
    using 1(2) by (simp add: csum_add16_def unat_word_ariths)
  then show ?case using 1 by simp
next
  case (2 p b0)
  then show ?case by (simp add: unat_word_ariths unat_ucast_byte)
qed simp

lemma csum_sum16:
  assumes "length data \<le> 2 ^ 17"
  shows "unat (csum data) = 65535 - fold16 (sum16 data)"
proof -
  have "sum16 data < 2 ^ 32" using sum16_bound [of data] assms by simp
  then show ?thesis using csum_continue_sum16 [of 0 data] by (simp add: csum_def csum_finish_fold16)
qed

section \<open>Incremental update\<close>

text \<open>A checksum that fits a packet whose words sum up to \<open>n\<close>: both representations of zero will do.\<close>

definition fits :: "u16 \<Rightarrow> nat \<Rightarrow> bool" where
  "fits c n \<longleftrightarrow> (65535 - unat c) mod 65535 = n mod 65535 \<and> (unat c = 65535 \<longrightarrow> n = 0)"

lemma fold16_mod: "fold16 n mod 65535 = n mod 65535"
proof (cases n)
  case (Suc k)
  have "fold16 n mod 65535 = (k mod 65535 + 1) mod 65535" by (simp add: fold16_def Suc)
  also have "\<dots> = (k + 1) mod 65535" by (rule mod_add_left_eq)
  finally show ?thesis by (simp add: Suc)
qed (simp add: fold16_def)

lemma fold16_fold16: "m mod 65535 = n mod 65535 \<Longrightarrow> m \<noteq> 0 \<Longrightarrow> m \<le> 65535 \<Longrightarrow> n \<noteq> 0 \<Longrightarrow> fold16 n = m"
proof -
  assume a: "m mod 65535 = n mod 65535" "m \<noteq> 0" "m \<le> 65535" "n \<noteq> 0"
  have "fold16 n = fold16 m" using fold16_cong a by metis
  then show ?thesis using a(2,3) by (simp add: fold16_def)
qed

lemma fits_exact:
  assumes "fits c n" and "n \<noteq> 0"
  shows "unat c = 65535 - fold16 n"
proof -
  have "unat c \<noteq> 65535" using assms by (simp add: fits_def)
  then have "65535 - unat c \<noteq> 0" using half_bound [of c] by simp
  from fold16_fold16 [OF _ this] assms have "fold16 n = 65535 - unat c" by (simp add: fits_def)
  then show ?thesis using half_bound [of c] by simp
qed

lemma csum_fits: "length data \<le> 2 ^ 17 \<Longrightarrow> fits (csum data) (sum16 data)"
  using fold16_le [of "sum16 data"] fold16_mod [of "sum16 data"]
  by (auto simp: fits_def csum_sum16) (auto simp: fold16_def split: if_splits)

lemma fits_recalc16:
  assumes "fits c (n + unat m)"
  shows "fits (recalc_csum16 c m m') (n + unat m')"
proof -
  define k where "k = (65535 - unat c) + (65535 - unat m) + unat m'"
  have "unat (ucast (NOT c) + ucast (NOT m) + ucast m' :: u32) = k"
    using half_bound [of m'] by (simp add: unat_word_ariths unat_ucast_half unat_not16 k_def)
  then have r: "unat (recalc_csum16 c m m') = 65535 - fold16 k" by (simp add: recalc_csum16_def csum_finish_fold16)
  have m: "unat m \<le> 65535" using half_bound [of m] by simp
  have "k \<noteq> 0"
  proof
    assume "k = 0"
    then have "unat c = 65535" "unat m = 65535" using half_bound [of c] m by (simp_all add: k_def)
    then show False using assms by (simp add: fits_def)
  qed
  then have nz: "unat (recalc_csum16 c m m') \<noteq> 65535" using r by (simp add: fold16_def)
  have "k mod 65535 = ((n + unat m) + (65535 - unat m) + unat m') mod 65535"
    unfolding k_def using assms by (intro mod_add_cong refl) (simp add: fits_def)
  also have "\<dots> = (n + unat m' + 65535) mod 65535" using m by (simp add: algebra_simps)
  finally have "k mod 65535 = (n + unat m') mod 65535" by simp
  then show ?thesis using nz fold16_le [of k] fold16_mod [of k] by (simp add: fits_def r)
qed

definition halves :: "u32 \<Rightarrow> nat" where
  "halves w = unat (ucast w :: u16) + unat (ucast (drop_bit 16 w) :: u16)"

lemma fits_recalc32:
  assumes "fits c (n + halves m)"
  shows "fits (recalc_csum32 c m m') (n + halves m')"
proof -
  let ?l = "\<lambda>w :: u32. ucast w :: u16" and ?h = "\<lambda>w :: u32. ucast (drop_bit 16 w) :: u16"
  have "fits (recalc_csum16 c (?l m) (?l m')) ((n + unat (?h m)) + unat (?l m'))"
    by (rule fits_recalc16) (use assms in \<open>simp add: halves_def ac_simps\<close>)
  then have "fits (recalc_csum32 c m m') ((n + unat (?l m')) + unat (?h m'))"
    unfolding recalc_csum32_def by (intro fits_recalc16) (simp add: ac_simps)
  then show ?thesis by (simp add: halves_def ac_simps)
qed

lemma fits_recalc128:
  assumes "fits c (n + sum_list (map halves old))" and "length old = 4" and "length new = 4"
  shows "fits (recalc_csum128 c old new) (n + sum_list (map halves new))"
proof -
  obtain a0 a1 a2 a3 b0 b1 b2 b3 where ab: "old = [a0, a1, a2, a3]" "new = [b0, b1, b2, b3]"
    using assms(2,3) by (auto simp: numeral_eq_Suc length_Suc_conv)
  define c1 c2 c3 where "c1 = recalc_csum32 c a0 b0" and "c2 = recalc_csum32 c1 a1 b1" and "c3 = recalc_csum32 c2 a2 b2"
  have "fits c1 ((n + halves a1 + halves a2 + halves a3) + halves b0)"
    unfolding c1_def by (rule fits_recalc32) (use assms(1) in \<open>simp add: ab ac_simps\<close>)
  then have "fits c2 ((n + halves b0 + halves a2 + halves a3) + halves b1)"
    unfolding c2_def by (intro fits_recalc32) (simp add: ac_simps)
  then have "fits c3 ((n + halves b0 + halves b1 + halves a3) + halves b2)"
    unfolding c3_def by (intro fits_recalc32) (simp add: ac_simps)
  then have "fits (recalc_csum32 c3 a3 b3) ((n + halves b0 + halves b1 + halves b2) + halves b3)"
    by (intro fits_recalc32) (simp add: ac_simps)
  then show ?thesis by (simp add: recalc_csum128_def ab upt_rec c1_def c2_def c3_def ac_simps numeral_eq_Suc)
qed

text \<open>Fields as they lie in memory.\<close>

definition bytes16 :: "u16 \<Rightarrow> u8 list" where
  "bytes16 w = [ucast w, ucast (drop_bit 8 w)]"

definition bytes32 :: "u32 \<Rightarrow> u8 list" where
  "bytes32 w = bytes16 (ucast w) @ bytes16 (ucast (drop_bit 16 w))"

lemma sum16_bytes16: "sum16 (bytes16 w) = unat w"
proof -
  have "unat (ucast w :: u8) = unat w mod 256" by (simp add: unsigned_ucast_eq take_bit_eq_mod)
  moreover have "unat (drop_bit 8 w) = unat w div 256"
    using unat_drop_bit_eq [of 8 w] by (simp only: drop_bit_eq_div) simp
  moreover have "unat w div 256 < 256" using half_bound [of w] by (simp add: div_less_iff_less_mult)
  then have "unat (ucast (drop_bit 8 w) :: u8) = unat w div 256"
    using calculation(2) by (simp only: unsigned_ucast_eq) (simp add: take_bit_nat_eq_self)
  ultimately show ?thesis using div_mult_mod_eq [of "unat w" 256] by (simp add: bytes16_def)
qed

lemma sum16_bytes32: "sum16 (bytes32 w) = halves w"
proof -
  have "even (length (bytes16 x))" for x by (simp add: bytes16_def)
  then show ?thesis by (simp add: bytes32_def sum16_append sum16_bytes16 halves_def)
qed

lemma length_bytes [simp]: "length (bytes16 x) = 2" "length (bytes32 w) = 4"
  by (simp_all add: bytes16_def bytes32_def)

lemma sum16_fields: "sum16 (concat (map bytes32 ws)) = sum_list (map halves ws)"
  by (induction ws) (simp_all add: sum16_append sum16_bytes32)

text \<open>A field in the middle of a packet, at an even offset.\<close>

lemma sum16_field:
  assumes "even (length pre)" and "even (length field)"
  shows "sum16 (pre @ field @ post) = (sum16 pre + sum16 post) + sum16 field"
  using assms by (simp add: sum16_append)

lemma csum_exact:
  assumes "fits c (sum16 data)" and "sum16 data \<noteq> 0" and "length data \<le> 2 ^ 17"
  shows "c = csum data"
  using fits_exact [OF assms(1,2)] csum_sum16 [OF assms(3)] by (simp add: word_unat_eq_iff)

lemma recalc_field:
  assumes f: "\<And>n. fits c (n + sum16 old) \<Longrightarrow> fits c' (n + sum16 new)" and c: "c = csum (pre @ old @ post)"
    and "even (length pre)" and "even (length old)" and "length new = length old" and "length (pre @ old @ post) \<le> 2 ^ 17"
    and "\<exists>b \<in> set (pre @ post). b \<noteq> 0"
  shows "c' = csum (pre @ new @ post)"
proof -
  have "fits c ((sum16 pre + sum16 post) + sum16 old)"
    using csum_fits [OF assms(6)] sum16_field [OF assms(3,4)] by (simp add: c)
  then have "fits c' (sum16 (pre @ new @ post))" using f sum16_field [OF assms(3), of new post] assms(4,5) by simp
  moreover have "sum16 (pre @ new @ post) \<noteq> 0" using assms(7) unfolding sum16_zero by auto
  ultimately show ?thesis using csum_exact assms(5,6) by simp
qed

lemma get_unaligned_bytes16: "get_unaligned_be16 (ucast x) (ucast (drop_bit 8 x)) = x"
  by (rule bit_word_eqI) (auto simp: get_unaligned_be16_def bit_simps)

lemma csum_continue_bytes32: "csum_continue p (bytes32 w) = csum_add32 p w"
proof -
  have "ucast (ucast w :: u16) = w AND 0xffff"
    unfolding and_low16 by (rule bit_word_eqI) (auto simp: bit_simps)
  moreover have "ucast (ucast (drop_bit 16 w) :: u16) = drop_bit 16 w"
    by (rule bit_word_eqI) (auto simp: bit_simps dest: bit_imp_le_length)
  ultimately show ?thesis
    by (simp add: bytes32_def bytes16_def get_unaligned_bytes16 csum_add16_def csum_add32_def)
qed

lemma checksum_cancels:
  assumes "n \<noteq> 0"
  shows "fold16 (n + (65535 - fold16 n)) = 65535"
proof (rule fold16_fold16)
  have "(n + (65535 - fold16 n)) mod 65535 = (fold16 n + (65535 - fold16 n)) mod 65535"
    by (rule mod_add_cong) (simp_all add: fold16_mod)
  then show "65535 mod 65535 = (n + (65535 - fold16 n)) mod 65535" using fold16_le [of n] by simp
  show "n + (65535 - fold16 n) \<noteq> 0" using assms by (meson add_is_0)
qed simp_all

section \<open>Property\<close>

text \<open>
  C29. In a packet of up to 128 kB in which some byte outside of the field is not zero, the incremental update
  of the checksum after a change of a 16-bit, 32-bit or 128-bit field at an even offset gives exactly the checksum of the
  changed packet; and when the checksum is written into a 16-bit field that was zero, the packet has checksum zero.
  Adding a 32-bit field is adding its bytes. The condition is needed: when the field becomes zero and
  everything else is zero, the update gives the other representation of zero.
\<close>

theorem csum_recalc:
  assumes "even (length pre)" and "length pre + length post + 16 \<le> 2 ^ 17" and "\<exists>b \<in> set (pre @ post). b \<noteq> 0"
    and "length old = 4" and "length new = 4"
  shows "recalc_csum16 (csum (pre @ bytes16 m @ post)) m m' = csum (pre @ bytes16 m' @ post) \<and>
    recalc_csum32 (csum (pre @ bytes32 w @ post)) w w' = csum (pre @ bytes32 w' @ post) \<and>
    recalc_csum128 (csum (pre @ concat (map bytes32 old) @ post)) old new = csum (pre @ concat (map bytes32 new) @ post) \<and>
    csum_continue p (bytes32 w) = csum_add32 p w \<and>
    csum (pre @ bytes16 (csum (pre @ bytes16 0 @ post)) @ post) = 0 \<and>
    recalc_csum16 (csum (bytes16 5 @ [0, 0])) 5 0 = 0 \<and> csum (bytes16 0 @ [0, 0]) = 0xffff"
proof (intro conjI)
  show "recalc_csum16 (csum (bytes16 5 @ [0, 0])) 5 0 = 0" "csum (bytes16 0 @ [0, 0]) = 0xffff" by code_simp+
next
  have len: "length (concat (map bytes32 ws)) = 4 * length ws" for ws by (induction ws) simp_all
  show "recalc_csum16 (csum (pre @ bytes16 m @ post)) m m' = csum (pre @ bytes16 m' @ post)"
    by (rule recalc_field [where old = "bytes16 m", OF _ refl assms(1)]) (use assms(2,3) in \<open>simp_all add: sum16_bytes16 fits_recalc16\<close>)
  show "recalc_csum32 (csum (pre @ bytes32 w @ post)) w w' = csum (pre @ bytes32 w' @ post)"
    by (rule recalc_field [where old = "bytes32 w", OF _ refl assms(1)]) (use assms(2,3) in \<open>simp_all add: sum16_bytes32 fits_recalc32\<close>)
  show "recalc_csum128 (csum (pre @ concat (map bytes32 old) @ post)) old new = csum (pre @ concat (map bytes32 new) @ post)"
    by (rule recalc_field [where old = "concat (map bytes32 old)", OF _ refl assms(1)])
      (use assms(2-5) in \<open>simp_all add: sum16_fields fits_recalc128 len\<close>)
  show "csum_continue p (bytes32 w) = csum_add32 p w" by (rule csum_continue_bytes32)
  let ?n = "sum16 pre + sum16 post" and ?c = "csum (pre @ bytes16 0 @ post)"
  have s: "sum16 (pre @ bytes16 x @ post) = ?n + unat x" for x
    using sum16_field [OF assms(1), of "bytes16 x" post] by (simp add: sum16_bytes16)
  have c: "unat ?c = 65535 - fold16 ?n" using csum_sum16 [of "pre @ bytes16 0 @ post"] s [of 0] assms(2) by simp
  have "sum16 pre + sum16 post \<noteq> 0" using assms(3) by (auto simp: sum16_zero)
  from checksum_cancels [OF this] have "fold16 (?n + unat ?c) = 65535" by (simp only: c)
  then have "unat (csum (pre @ bytes16 ?c @ post)) = 0"
    using csum_sum16 [of "pre @ bytes16 ?c @ post"] s [of ?c] assms(2) by simp
  then show "csum (pre @ bytes16 ?c @ post) = 0" by (simp add: unat_eq_zero)
qed

theorem csum_recalc_witness:
  "recalc_csum16 (csum ([1, 2] @ bytes16 5 @ [9])) 5 7 = csum ([1, 2] @ bytes16 7 @ [9]) \<and>
   recalc_csum128 (csum ([1, 2] @ concat (map bytes32 [1, 2, 3, 4]) @ [9])) [1, 2, 3, 4] [0, 7, 8, 9] =
     csum ([1, 2] @ concat (map bytes32 [0, 7, 8, 9]) @ [9])"
  using csum_recalc [of "[1, 2]" "[9]" "[1, 2, 3, 4]" "[0, 7, 8, 9]" 5 7 0 0 0] by simp

end
