(* ===== verification/Util.thy ===== *)
theory Util
  imports Prelude
begin

text \<open>
  The bit utilities of \<^verbatim>\<open>lib/util.h\<close> and \<^verbatim>\<open>lib/util.c\<close>: tests and scans on 32- and 64-bit words, and
  the \<^verbatim>\<open>bitwise_*\<close> family, which treats an array of bytes as one big-endian integer and
  copies, clears, sets and tests runs of its bits. A byte array is a list of bytes; a pointer
  into it is an index.
\<close>

section \<open>Definitions\<close>

subsection \<open>Scanning words\<close>

definition is_pow2 :: "u64 \<Rightarrow> bool" where
  "is_pow2 x \<longleftrightarrow> x \<noteq> 0 \<and> \<not> (x AND (x - 1) \<noteq> 0)"

definition CTZ_STEP :: "nat \<Rightarrow> u32 \<times> nat \<Rightarrow> u32 \<times> nat" where
  "CTZ_STEP X = (\<lambda>(n, count).
     let k = push_bit X n in if k \<noteq> 0 then (k, count - X) else (n, count))"

definition raw_ctz :: "u32 \<Rightarrow> nat" where
  "raw_ctz n = snd (CTZ_STEP 1 (CTZ_STEP 2 (CTZ_STEP 4 (CTZ_STEP 8 (CTZ_STEP 16 (n, 31))))))"

definition ctz :: "u32 \<Rightarrow> nat" where
  "ctz n = (if n \<noteq> 0 then raw_ctz n else 32)"

definition BIN_SEARCH_STEP :: "nat \<Rightarrow> u32 \<times> nat \<Rightarrow> u32 \<times> nat" where
  "BIN_SEARCH_STEP BITS = (\<lambda>(n, log).
     if n \<ge> push_bit BITS 1 then (drop_bit BITS n, log + BITS) else (n, log))"

text \<open>The assertion \<^verbatim>\<open>ovs_assert(n)\<close> aborts the process: that is \<^term>\<open>None\<close>.\<close>

definition log_2_floor :: "u32 \<Rightarrow> nat option" where
  "log_2_floor n =
     (if n = 0 then None
      else Some (snd (BIN_SEARCH_STEP 1 (BIN_SEARCH_STEP 2 (BIN_SEARCH_STEP 4
             (BIN_SEARCH_STEP 8 (BIN_SEARCH_STEP 16 (n, 0))))))))"

definition log_2_ceil :: "u32 \<Rightarrow> nat option" where
  "log_2_ceil n =
     (case log_2_floor n of
        None \<Rightarrow> None
      | Some l \<Rightarrow> Some (l + (if is_pow2 (ucast n) then 0 else 1)))"

definition INIT1 :: "nat \<Rightarrow> nat" where
  "INIT1 X =
     (if X AND push_bit 0 1 \<noteq> 0 then 1 else 0) + (if X AND push_bit 1 1 \<noteq> 0 then 1 else 0) +
     (if X AND push_bit 2 1 \<noteq> 0 then 1 else 0) + (if X AND push_bit 3 1 \<noteq> 0 then 1 else 0) +
     (if X AND push_bit 4 1 \<noteq> 0 then 1 else 0) + (if X AND push_bit 5 1 \<noteq> 0 then 1 else 0) +
     (if X AND push_bit 6 1 \<noteq> 0 then 1 else 0) + (if X AND push_bit 7 1 \<noteq> 0 then 1 else 0)"

definition popcount8 :: "nat list" where
  "popcount8 = map INIT1 [0..<256]"

definition popcount :: "u32 \<Rightarrow> nat" where
  "popcount x =
     popcount8 ! unat (x AND 0xff) +
     popcount8 ! unat (drop_bit 8 x AND 0xff) +
     popcount8 ! unat (drop_bit 16 x AND 0xff) +
     popcount8 ! unat (drop_bit 24 x)"

definition rightmost_1bit :: "u64 \<Rightarrow> u64" where
  "rightmost_1bit x = x AND - x"

definition zero_rightmost_1bit :: "u64 \<Rightarrow> u64" where
  "zero_rightmost_1bit x = x AND (x - 1)"

definition rightmost_1bit_idx :: "u32 \<Rightarrow> nat" where
  "rightmost_1bit_idx x = (if x \<noteq> 0 then ctz x else 32)"

definition leftmost_1bit_idx :: "u32 \<Rightarrow> nat option" where
  "leftmost_1bit_idx x = (if x \<noteq> 0 then log_2_floor x else Some 32)"

subsection \<open>Byte arrays as bit strings\<close>

fun is_all_zeros :: "u8 list \<Rightarrow> nat \<Rightarrow> bool" where
  "is_all_zeros p 0 = True"
| "is_all_zeros p (Suc n) = (if p ! 0 \<noteq> 0 then False else is_all_zeros (tl p) n)"

fun is_all_ones :: "u8 list \<Rightarrow> nat \<Rightarrow> bool" where
  "is_all_ones p 0 = True"
| "is_all_ones p (Suc n) = (if p ! 0 \<noteq> 0xff then False else is_all_ones (tl p) n)"

text \<open>
  The general loop of \<^verbatim>\<open>bitwise_copy\<close>: \<open>s\<close> and \<open>d\<close> are the byte indices the pointers
  \<^verbatim>\<open>src\<close> and \<^verbatim>\<open>dst\<close> stand at. A pointer that steps below its array is never
  dereferenced again, so its index may stop at 0.
\<close>

function bitwise_copy_loop ::
  "u8 list \<Rightarrow> nat \<Rightarrow> nat \<Rightarrow> u8 list \<Rightarrow> nat \<Rightarrow> nat \<Rightarrow> nat \<Rightarrow> u8 list" where
  "bitwise_copy_loop src s src_ofs dst d dst_ofs n_bits =
     (if n_bits > 0 \<and> src_ofs < 8 \<and> dst_ofs < 8 then
        let max_copy = 8 - max src_ofs dst_ofs;
            chunk = min n_bits max_copy;
            msk = push_bit dst_ofs (push_bit chunk 1 - 1);
            dst1 = dst[d := dst ! d AND NOT msk];
            dst2 = dst1[d := dst1 ! d OR (push_bit dst_ofs (drop_bit src_ofs (src ! s)) AND msk)];
            src_ofs' = src_ofs + chunk;
            dst_ofs' = dst_ofs + chunk
        in bitwise_copy_loop src
             (if src_ofs' = 8 then s - 1 else s) (if src_ofs' = 8 then 0 else src_ofs')
             dst2
             (if dst_ofs' = 8 then d - 1 else d) (if dst_ofs' = 8 then 0 else dst_ofs')
             (n_bits - chunk)
      else dst)"
  by pat_completeness auto
termination
  by (relation "measure (\<lambda>(src, s, so, dst, d, dof, n). n)") (auto simp: Let_def min_def max_def)

declare bitwise_copy_loop.simps [simp del]

definition bitwise_copy ::
  "u8 list \<Rightarrow> nat \<Rightarrow> nat \<Rightarrow> u8 list \<Rightarrow> nat \<Rightarrow> nat \<Rightarrow> nat \<Rightarrow> u8 list" where
  "bitwise_copy src src_len src_ofs0 dst dst_len dst_ofs0 n_bits0 =
     (let s = src_len - (src_ofs0 div 8 + 1);
          src_ofs = src_ofs0 mod 8;
          d = dst_len - (dst_ofs0 div 8 + 1);
          dst_ofs = dst_ofs0 mod 8
      in if src_ofs = 0 \<and> dst_ofs = 0 then
           let n_bytes = n_bits0 div 8;
               (dst1, s1, d1, n_bits) =
                 (if n_bytes \<noteq> 0 then
                    let d' = d - (n_bytes - 1);
                        s' = s - (n_bytes - 1)
                    in (take d' dst @ take n_bytes (drop s' src) @ drop (d' + n_bytes) dst,
                        s' - 1, d' - 1, n_bits0 mod 8)
                  else (dst, s, d, n_bits0))
           in if n_bits \<noteq> 0 then
                let msk = push_bit n_bits 1 - 1
                in dst1[d1 := (dst1 ! d1 AND NOT msk) OR (src ! s1 AND msk)]
              else dst1
         else bitwise_copy_loop src s src_ofs dst d dst_ofs n_bits0)"

text \<open>
  \<^verbatim>\<open>bitwise_zero\<close> and \<^verbatim>\<open>bitwise_one\<close> walk whole bytes in a loop, after a partial first
  byte and before a partial last byte.
\<close>

fun bitwise_fill_tail :: "(u8 \<Rightarrow> u8 \<Rightarrow> u8) \<Rightarrow> u8 \<Rightarrow> u8 list \<Rightarrow> nat \<Rightarrow> nat \<Rightarrow> u8 list" where
  "bitwise_fill_tail put whole dst d n_bits =
     (if n_bits \<ge> 8 then bitwise_fill_tail put whole (dst[d := whole]) (d - 1) (n_bits - 8)
      else if n_bits \<noteq> 0 then dst[d := put (dst ! d) (push_bit n_bits 1 - 1)]
      else dst)"

declare bitwise_fill_tail.simps [simp del]

definition bitwise_zero :: "u8 list \<Rightarrow> nat \<Rightarrow> nat \<Rightarrow> nat \<Rightarrow> u8 list" where
  "bitwise_zero dst dst_len dst_ofs0 n_bits =
     (if n_bits = 0 then dst
      else
        let d = dst_len - (dst_ofs0 div 8 + 1);
            dst_ofs = dst_ofs0 mod 8
        in if dst_ofs \<noteq> 0 then
             let chunk = min n_bits (8 - dst_ofs);
                 dst1 = dst[d := dst ! d AND NOT (push_bit dst_ofs (push_bit chunk 1 - 1))]
             in if n_bits - chunk = 0 then dst1
                else bitwise_fill_tail (\<lambda>b m. b AND NOT m) 0 dst1 (d - 1) (n_bits - chunk)
           else bitwise_fill_tail (\<lambda>b m. b AND NOT m) 0 dst d n_bits)"

definition bitwise_one :: "u8 list \<Rightarrow> nat \<Rightarrow> nat \<Rightarrow> nat \<Rightarrow> u8 list" where
  "bitwise_one dst dst_len dst_ofs0 n_bits =
     (if n_bits = 0 then dst
      else
        let d = dst_len - (dst_ofs0 div 8 + 1);
            dst_ofs = dst_ofs0 mod 8
        in if dst_ofs \<noteq> 0 then
             let chunk = min n_bits (8 - dst_ofs);
                 dst1 = dst[d := dst ! d OR push_bit dst_ofs (push_bit chunk 1 - 1)]
             in if n_bits - chunk = 0 then dst1
                else bitwise_fill_tail (\<lambda>b m. b OR m) 0xff dst1 (d - 1) (n_bits - chunk)
           else bitwise_fill_tail (\<lambda>b m. b OR m) 0xff dst d n_bits)"

fun all_zeros_tail :: "u8 list \<Rightarrow> nat \<Rightarrow> nat \<Rightarrow> bool" where
  "all_zeros_tail p i n_bits =
     (if n_bits \<ge> 8 then
        if p ! i \<noteq> 0 then False else all_zeros_tail p (i - 1) (n_bits - 8)
      else if n_bits \<noteq> 0 \<and> p ! i AND (push_bit n_bits 1 - 1) \<noteq> 0 then False
      else True)"

declare all_zeros_tail.simps [simp del]

definition bitwise_is_all_zeros :: "u8 list \<Rightarrow> nat \<Rightarrow> nat \<Rightarrow> nat \<Rightarrow> bool" where
  "bitwise_is_all_zeros p len ofs0 n_bits =
     (if n_bits = 0 then True
      else
        let i = len - (ofs0 div 8 + 1);
            ofs = ofs0 mod 8
        in if ofs \<noteq> 0 then
             let chunk = min n_bits (8 - ofs)
             in if p ! i AND push_bit ofs (push_bit chunk 1 - 1) \<noteq> 0 then False
                else if n_bits - chunk = 0 then True
                else all_zeros_tail p (i - 1) (n_bits - chunk)
           else all_zeros_tail p i n_bits)"

text \<open>The bytes of a 64-bit value in network byte order, as \<^verbatim>\<open>htonll\<close> lays them out.\<close>

definition htonll :: "u64 \<Rightarrow> u8 list" where
  "htonll v = map (\<lambda>i. ucast (drop_bit (8 * (7 - i)) v)) [0..<8]"

definition ntohll :: "u8 list \<Rightarrow> u64" where
  "ntohll bs = foldl (\<lambda>acc b. push_bit 8 acc OR ucast b) 0 (take 8 bs)"

definition bitwise_put :: "u64 \<Rightarrow> u8 list \<Rightarrow> nat \<Rightarrow> nat \<Rightarrow> nat \<Rightarrow> u8 list" where
  "bitwise_put value dst dst_len dst_ofs n_bits =
     bitwise_copy (htonll value) 8 0 dst dst_len dst_ofs n_bits"

definition bitwise_get :: "u8 list \<Rightarrow> nat \<Rightarrow> nat \<Rightarrow> nat \<Rightarrow> u64" where
  "bitwise_get src src_len src_ofs n_bits =
     ntohll (bitwise_copy src src_len src_ofs (htonll 0) 8 0 n_bits)"

subsection \<open>What the routines are specified by\<close>

text \<open>Bit \<open>k\<close> of a byte array read as one big-endian integer.\<close>

definition get_bit :: "u8 list \<Rightarrow> nat \<Rightarrow> bool" where
  "get_bit p k = bit (p ! (length p - (k div 8 + 1))) (k mod 8)"

text \<open>The highest set bit, and the loop invariants of the two binary searches.\<close>

definition is_msb :: "u32 \<Rightarrow> nat \<Rightarrow> bool" where
  "is_msb n l \<longleftrightarrow> 2 ^ l \<le> unat n \<and> unat n < 2 ^ Suc l"

definition log_inv :: "nat \<Rightarrow> nat \<Rightarrow> u32 \<times> nat \<Rightarrow> bool" where
  "log_inv l0 hi st \<longleftrightarrow> (\<exists>l. is_msb (fst st) l \<and> snd st + l = l0 \<and> l < hi)"

definition ctz_inv :: "nat \<Rightarrow> nat \<Rightarrow> u32 \<times> nat \<Rightarrow> bool" where
  "ctz_inv z0 lo st \<longleftrightarrow> (\<exists>z. is_lsb (fst st) z \<and> snd st + z = 31 + z0 \<and> lo \<le> z \<and> z < 32)"


section \<open>Scanning words: lemmas\<close>

lemma CTZ_STEP_lsb:
  assumes "is_lsb n z"
  shows "CTZ_STEP X (n, c) = (if z + X < 32 then (push_bit X n, c - X) else (n, c))"
  using push_bit_nonzero_iff [OF assms, of X] by (simp add: CTZ_STEP_def Let_def)


lemma ctz_inv_step:
  assumes "ctz_inv z0 lo st" and "32 \<le> lo + 2 * X" and "lo' + X = 32"
  shows "ctz_inv z0 lo' (CTZ_STEP X st)"
proof -
  obtain n c where st: "st = (n, c)" by (cases st)
  from assms(1) obtain z where z: "is_lsb n z" "c + z = 31 + z0" "lo \<le> z" "z < 32"
    by (auto simp: ctz_inv_def st)
  show ?thesis
    using z assms(2,3) is_lsb_push_bit [OF z(1), of X]
    by (auto simp: st CTZ_STEP_lsb [OF z(1)] ctz_inv_def
        intro!: exI [of _ "if z + X < 32 then z + X else z"])
qed

lemma raw_ctz_is_lsb:
  assumes "n \<noteq> 0"
  shows "is_lsb n (raw_ctz n)"
proof -
  obtain z where z: "is_lsb n z" using is_lsb_ex [OF assms] ..
  define s16 s8 s4 s2 where "s16 = CTZ_STEP 16 (n, 31)" and "s8 = CTZ_STEP 8 s16"
    and "s4 = CTZ_STEP 4 s8" and "s2 = CTZ_STEP 2 s4"
  have "ctz_inv z 0 (n, 31)"
    using z is_lsb_bound [OF z] by (auto simp: ctz_inv_def)
  then have "ctz_inv z 16 s16" unfolding s16_def by (rule ctz_inv_step) simp_all
  then have "ctz_inv z 24 s8" unfolding s8_def by (rule ctz_inv_step) simp_all
  then have "ctz_inv z 28 s4" unfolding s4_def by (rule ctz_inv_step) simp_all
  then have "ctz_inv z 30 s2" unfolding s2_def by (rule ctz_inv_step) simp_all
  then have "ctz_inv z 31 (CTZ_STEP 1 s2)" by (rule ctz_inv_step) simp_all
  then have "raw_ctz n = z"
    by (auto simp: raw_ctz_def ctz_inv_def s16_def s8_def s4_def s2_def)
  with z show ?thesis by simp
qed

lemma is_msb_drop_bit:
  assumes "is_msb n l" and "b \<le> l"
  shows "is_msb (drop_bit b n) (l - b)"
proof -
  obtain k where l: "l = b + k" using assms(2) le_Suc_ex by blast
  have u: "unat (drop_bit b n) = unat n div 2 ^ b"
    by (simp only: unat_drop_bit_eq) (simp add: drop_bit_eq_div)
  have "2 ^ k \<le> unat n div 2 ^ b"
    using assms(1) by (simp add: is_msb_def l power_add less_eq_div_iff_mult_less_eq mult.commute)
  moreover have "unat n div 2 ^ b < 2 ^ Suc k"
    using assms(1) by (intro less_mult_imp_div_less) (simp add: is_msb_def l power_add ac_simps)
  ultimately show ?thesis by (simp add: is_msb_def u l)
qed

lemma log_inv_step:
  assumes "log_inv l0 hi st" and "hi \<le> 2 * B" and "B < 32" and "0 < B"
  shows "log_inv l0 B (BIN_SEARCH_STEP B st)"
proof -
  obtain n c where st: "st = (n, c)" by (cases st)
  from assms(1) obtain l where l: "is_msb n l" "c + l = l0" "l < hi"
    by (auto simp: log_inv_def st)
  have "unat (push_bit B 1 :: u32) = 2 ^ B"
    using assms(3) by (simp add: unat_exp)
  then have "push_bit B 1 \<le> n \<longleftrightarrow> 2 ^ B \<le> unat n"
    by (simp only: word_le_nat_alt)
  moreover have "2 ^ B \<le> unat n \<longleftrightarrow> B \<le> l"
  proof
    assume "2 ^ B \<le> unat n"
    then have "(2::nat) ^ B < 2 ^ Suc l" using l(1) by (simp add: is_msb_def)
    then have "B < Suc l" by (rule power_less_imp_less_exp [rotated]) simp
    then show "B \<le> l" by simp
  next
    assume "B \<le> l"
    then have "(2::nat) ^ B \<le> 2 ^ l" by simp
    with l(1) show "2 ^ B \<le> unat n" unfolding is_msb_def by linarith
  qed
  ultimately show ?thesis
    using l assms(2) is_msb_drop_bit [OF l(1), of B]
    by (auto simp: st BIN_SEARCH_STEP_def log_inv_def
        intro!: exI [of _ "if B \<le> l then l - B else l"])
qed

lemma is_msb_ex:
  assumes "n \<noteq> 0"
  shows "\<exists>l < 32. is_msb n l"
proof -
  have "0 < unat n" using assms by (simp add: unat_gt_0)
  then obtain l where l: "2 ^ l \<le> unat n" "unat n < 2 ^ (l + 1)"
    using ex_power_ivl1 [of 2 "unat n"] by auto
  have "unat n < 2 ^ 32" using unsigned_less [where 'a = nat and w = n] by simp
  with l(1) have "(2::nat) ^ l < 2 ^ 32" by (rule order_le_less_trans)
  then have "l < 32" by (rule power_less_imp_less_exp [rotated]) simp
  with l show ?thesis by (auto simp: is_msb_def)
qed

lemma log_2_floor_is_msb:
  assumes "n \<noteq> 0"
  shows "\<exists>l. log_2_floor n = Some l \<and> is_msb n l"
proof -
  obtain l where l: "l < 32" "is_msb n l" using is_msb_ex [OF assms] by blast
  define s16 s8 s4 s2 where "s16 = BIN_SEARCH_STEP 16 (n, 0)" and "s8 = BIN_SEARCH_STEP 8 s16"
    and "s4 = BIN_SEARCH_STEP 4 s8" and "s2 = BIN_SEARCH_STEP 2 s4"
  have "log_inv l 32 (n, 0)" using l by (auto simp: log_inv_def)
  then have "log_inv l 16 s16" unfolding s16_def by (rule log_inv_step) simp_all
  then have "log_inv l 8 s8" unfolding s8_def by (rule log_inv_step) simp_all
  then have "log_inv l 4 s4" unfolding s4_def by (rule log_inv_step) simp_all
  then have "log_inv l 2 s2" unfolding s2_def by (rule log_inv_step) simp_all
  then have "log_inv l 1 (BIN_SEARCH_STEP 1 s2)" by (rule log_inv_step) simp_all
  then have "log_2_floor n = Some l" using assms
    by (auto simp: log_2_floor_def log_inv_def s16_def s8_def s4_def s2_def)
  with l show ?thesis by blast
qed

text \<open>Counting bits.\<close>

lemma INIT1_filter: "INIT1 X = length (filter (bit X) [0..<8])"
proof -
  have *: "X AND push_bit k 1 \<noteq> 0 \<longleftrightarrow> bit X k" for k
    by (simp add: bit_iff_and_push_bit_not_eq_0)
  have "[0..<8] = [0, 1, 2, 3, 4, 5, 6, 7::nat]" by code_simp
  then show ?thesis unfolding INIT1_def * by simp
qed

lemma popcount8_byte:
  fixes x :: u32
  assumes "\<And>i. i < 8 \<Longrightarrow> bit b i = bit x (k + i)" and "unat b < 256"
  shows "popcount8 ! unat (b :: u32) = length (filter (bit x) [k..<k + 8])"
proof -
  have "popcount8 ! unat b = length (filter (bit (unat b)) [0..<8])"
    using assms(2) by (simp add: popcount8_def INIT1_filter)
  also have "filter (bit (unat b)) [0..<8] = filter (\<lambda>i. bit x (k + i)) [0..<8]"
    using assms(1) by (intro filter_cong) (auto simp: bit_unsigned_iff)
  also have "length \<dots> = length (filter (bit x) (map (\<lambda>i. i + k) [0..<8]))"
    by (simp add: filter_map comp_def add.commute)
  also have "map (\<lambda>i. i + k) [0..<8] = [k..<k + 8]"
    using map_add_upt [of k 8] by (simp add: add.commute)
  finally show ?thesis .
qed

lemma popcount_filter: "popcount x = length (filter (bit x) [0..<32])"
proof -
  have m: "(0xff :: u32) = mask 8" by (simp add: mask_eq_exp_minus_1)
  have lt: "unat (y AND 0xff) < 256" for y :: u32
    using unat_and_mask_le [of y "0xff"] by simp
  have lt': "unat (drop_bit 24 x) < 256"
    using unsigned_less [where 'a = nat and w = x]
    by (simp only: unat_drop_bit_eq) (simp add: drop_bit_eq_div)
  have "[0..<32] = [0..<0+8] @ [8..<8+8] @ [16..<16+8] @ [24..<24+8::nat]"
    by code_simp
  moreover have "popcount8 ! unat (x AND 0xff) = length (filter (bit x) [0..<0+8])"
    by (rule popcount8_byte [OF _ lt]) (auto simp: m word_bits)
  moreover have "popcount8 ! unat (drop_bit 8 x AND 0xff) = length (filter (bit x) [8..<8+8])"
    by (rule popcount8_byte [OF _ lt]) (auto simp: m word_bits)
  moreover have "popcount8 ! unat (drop_bit 16 x AND 0xff) = length (filter (bit x) [16..<16+8])"
    by (rule popcount8_byte [OF _ lt]) (auto simp: m word_bits)
  moreover have "popcount8 ! unat (drop_bit 24 x) = length (filter (bit x) [24..<24+8])"
    by (rule popcount8_byte [OF _ lt']) (auto simp: word_bits)
  ultimately show ?thesis by (simp only: popcount_def filter_append length_append)
qed

lemma is_pow2_iff: "is_pow2 x \<longleftrightarrow> (\<exists>k < 64. x = 2 ^ k)"
proof
  assume p: "is_pow2 x"
  then obtain z where z: "is_lsb x z" using is_lsb_ex by (auto simp: is_pow2_def)
  have "\<not> bit (x AND (x - 1)) i" for i using p by (simp add: is_pow2_def)
  then have "bit x i \<longleftrightarrow> i = z" for i
    using z unfolding zero_rightmost_bits [OF z] by (auto simp: is_lsb_def)
  then have "x = 2 ^ z"
    using is_lsb_bound [OF z] by (intro bit_word_eqI) (simp add: bit_exp_iff)
  then show "\<exists>k < 64. x = 2 ^ k" using is_lsb_bound [OF z] by auto
next
  assume "\<exists>k < 64. x = 2 ^ k"
  then obtain k where k: "k < 64" "x = 2 ^ k" by blast
  then have b: "bit x i \<longleftrightarrow> i = k" for i by (auto simp: bit_exp_iff)
  then have z: "is_lsb x k" by (simp add: is_lsb_def)
  have "x AND (x - 1) = 0"
    by (rule bit_word_eqI) (unfold zero_rightmost_bits [OF z] b, simp)
  moreover have "x \<noteq> 0" using b [of k] by auto
  ultimately show "is_pow2 x" by (simp add: is_pow2_def)
qed

section \<open>Byte arrays: lemmas\<close>

lemma get_bit_update:
  assumes "d < length p" and "k < 8 * length p"
  shows "get_bit (p[d := b]) k =
    (if k div 8 = length p - 1 - d then bit b (k mod 8) else get_bit p k)"
proof -
  have "k div 8 < length p" using assms(2) by (simp add: div_less_iff_less_mult mult.commute)
  then have "length p - (k div 8 + 1) = d \<longleftrightarrow> k div 8 = length p - 1 - d"
    using assms(1) by linarith
  with assms(1) show ?thesis by (auto simp: get_bit_def nth_list_update)
qed

lemma get_bit_byte:
  assumes "j < 8"
  shows "get_bit p (8 * m + j) = bit (p ! (length p - (m + 1))) j"
  using assms by (simp add: get_bit_def)

text \<open>One pass of the copying loop: a run of bits inside one byte is replaced.\<close>

lemma copy_chunk_bits:
  fixes b c :: u8
  assumes "so + chunk \<le> 8" and "dof + chunk \<le> 8" and "j < 8"
    and "msk = push_bit dof (push_bit chunk 1 - 1)"
  shows "bit ((b AND NOT msk) OR (push_bit dof (drop_bit so c) AND msk)) j \<longleftrightarrow>
    (if dof \<le> j \<and> j < dof + chunk then bit c (j - dof + so) else bit b j)"
  using assms
  by (auto simp: bit_and_iff bit_or_iff bit_not_iff bit_push_bit_iff bit_drop_bit_eq bit_exp_minus_1' add.commute)

lemma get_bit_copy_chunk:
  assumes d: "d < length dst" "s < length src" and so: "so + chunk \<le> 8" "dof + chunk \<le> 8"
    and msk: "msk = push_bit dof (push_bit chunk 1 - 1)" and k: "k < 8 * length dst"
    and D: "D = 8 * (length dst - 1 - d) + dof" and S: "S = 8 * (length src - 1 - s) + so"
  shows "get_bit (dst[d := (dst ! d AND NOT msk) OR (push_bit dof (drop_bit so (src ! s)) AND msk)]) k
    \<longleftrightarrow> (if D \<le> k \<and> k < D + chunk then get_bit src (k - D + S) else get_bit dst k)"
proof (cases "k div 8 = length dst - 1 - d")
  case True
  define j where "j = k mod 8"
  have j: "j < 8" "k = 8 * (length dst - 1 - d) + j"
    using True by (auto simp: j_def) (metis mult_div_mod_eq)
  have "D \<le> k \<and> k < D + chunk \<longleftrightarrow> dof \<le> j \<and> j < dof + chunk" using j(2) D by auto
  moreover have "get_bit src (k - D + S) = bit (src ! s) (j - dof + so)" if "dof \<le> j \<and> j < dof + chunk"
  proof -
    have "k - D + S = 8 * (length src - 1 - s) + (j - dof + so)" using that j(2) D S by auto
    moreover have "j - dof + so < 8" using that so by linarith
    ultimately show ?thesis using d(2) by (simp only: get_bit_byte) (simp add: Suc_diff_Suc)
  qed
  moreover have "get_bit dst k = bit (dst ! d) j"
    using j d(1) by (simp only: get_bit_byte) (simp add: Suc_diff_Suc)
  ultimately show ?thesis
    using True copy_chunk_bits [OF so j(1) msk]
    by (simp add: get_bit_update [OF d(1) k] j_def)
next
  case False
  have "\<not> (D \<le> k \<and> k < D + chunk)"
  proof
    assume "D \<le> k \<and> k < D + chunk"
    then have "8 * (length dst - 1 - d) \<le> k \<and> k < 8 * (length dst - 1 - d) + 8" using D so by linarith
    with False show False by linarith
  qed
  with False show ?thesis by (simp only: get_bit_update [OF d(1) k] if_False simp_thms)
qed

lemma bitwise_copy_loop_bits:
  assumes "0 < n \<Longrightarrow> d < length dst \<and> s < length src \<and> so < 8 \<and> dof < 8 \<and>
      D = 8 * (length dst - 1 - d) + dof \<and> S = 8 * (length src - 1 - s) + so"
    and "D + n \<le> 8 * length dst" and "S + n \<le> 8 * length src"
  shows "length (bitwise_copy_loop src s so dst d dof n) = length dst \<and>
    (\<forall>k < 8 * length dst. get_bit (bitwise_copy_loop src s so dst d dof n) k =
       (if D \<le> k \<and> k < D + n then get_bit src (k - D + S) else get_bit dst k))"
  using assms
proof (induction src s so dst d dof n arbitrary: D S rule: bitwise_copy_loop.induct)
  case (1 src s so dst d dof n)
  show ?case
  proof (cases "n = 0")
    case True
    then show ?thesis by (auto simp: bitwise_copy_loop.simps [of src s so dst d dof 0])
  next
    case False
    with "1.prems"(1) have h: "d < length dst" "s < length src" "so < 8" "dof < 8"
      "D = 8 * (length dst - 1 - d) + dof" "S = 8 * (length src - 1 - s) + so" by auto
    define chunk where "chunk = min n (8 - max so dof)"
    define msk :: u8 where "msk = push_bit dof (push_bit chunk 1 - 1)"
    define dst2 where "dst2 = dst[d := (dst ! d AND NOT msk) OR (push_bit dof (drop_bit so (src ! s)) AND msk)]"
    define rec where "rec = bitwise_copy_loop src
             (if so + chunk = 8 then s - 1 else s) (if so + chunk = 8 then 0 else so + chunk)
             dst2
             (if dof + chunk = 8 then d - 1 else d) (if dof + chunk = 8 then 0 else dof + chunk)
             (n - chunk)"
    have c: "0 < chunk" "chunk \<le> n" "so + chunk \<le> 8" "dof + chunk \<le> 8"
      using False h by (auto simp: chunk_def)
    have eq: "bitwise_copy_loop src s so dst d dof n = rec"
      using False h unfolding rec_def dst2_def msk_def chunk_def
      by (subst bitwise_copy_loop.simps) (simp add: Let_def)
    have len: "length dst2 = length dst" by (simp add: dst2_def)
    have IH: "length rec = length dst2 \<and>
      (\<forall>k < 8 * length dst2. get_bit rec k =
       (if D + chunk \<le> k \<and> k < D + chunk + (n - chunk) then get_bit src (k - (D + chunk) + (S + chunk))
        else get_bit dst2 k))"
      unfolding rec_def
    proof (rule "1.IH" [OF _ refl chunk_def msk_def refl _ refl refl, folded chunk_def])
    qed (use False h "1.prems"(2,3) c in \<open>auto simp: dst2_def\<close>)
    show ?thesis
    proof (intro conjI allI impI)
      show "length (bitwise_copy_loop src s so dst d dof n) = length dst"
        using IH by (simp add: eq len)
      fix k assume k: "k < 8 * length dst"
      have "get_bit dst2 k = (if D \<le> k \<and> k < D + chunk then get_bit src (k - D + S) else get_bit dst k)"
        unfolding dst2_def by (rule get_bit_copy_chunk) (use h c k msk_def in auto)
      moreover have "k - (D + chunk) + (S + chunk) = k - D + S" if "D + chunk \<le> k"
        using that by simp
      ultimately show "get_bit (bitwise_copy_loop src s so dst d dof n) k =
          (if D \<le> k \<and> k < D + n then get_bit src (k - D + S) else get_bit dst k)"
        using IH k c unfolding eq len by (auto simp: not_less)
    qed
  qed
qed

lemma nth_splice:
  assumes "a + nb \<le> length dst" and "c + nb \<le> length src" and "x < length dst"
  shows "(take a dst @ take nb (drop c src) @ drop (a + nb) dst) ! x =
    (if a \<le> x \<and> x < a + nb then src ! (c + (x - a)) else dst ! x)"
  using assms by (auto simp: nth_append)

lemma get_bit_splice:
  assumes "q + nb \<le> length dst" and "p + nb \<le> length src" and "k < 8 * length dst"
  shows "get_bit (take (length dst - q - nb) dst @ take nb (drop (length src - p - nb) src)
      @ drop (length dst - q) dst) k
    \<longleftrightarrow> (if 8 * q \<le> k \<and> k < 8 * q + 8 * nb then get_bit src (k - 8 * q + 8 * p) else get_bit dst k)"
proof -
  let ?r = "take (length dst - q - nb) dst @ take nb (drop (length src - p - nb) src) @ drop (length dst - q) dst"
  have len: "length ?r = length dst" using assms by simp
  have kd: "k div 8 < length dst" using assms(3) by (simp add: div_less_iff_less_mult mult.commute)
  have in_iff: "8 * q \<le> k \<and> k < 8 * q + 8 * nb \<longleftrightarrow> q \<le> k div 8 \<and> k div 8 < q + nb"
    by linarith
  obtain e where e: "length dst = q + nb + e" using assms(1) le_Suc_ex by blast
  obtain f where f: "length src = p + nb + f" using assms(2) le_Suc_ex by blast
  have "?r ! (length dst - (y + 1)) =
     (if q \<le> y \<and> y < q + nb then src ! (length src - (y - q + p + 1)) else dst ! (length dst - (y + 1)))"
    if "y < length dst" for y
  proof -
    have r: "?r = take e dst @ take nb (drop f src) @ drop (e + nb) dst" by (simp add: e f add.commute)
    have "f + (length dst - (y + 1) - e) = length src - (y - q + p + 1)" if "q \<le> y" "y < q + nb"
      using that by (simp add: e f)
    then show ?thesis
      unfolding r using that by (subst nth_splice) (auto simp: e f)
  qed
  note nth = this [OF kd]
  have dm: "(k - 8 * q + 8 * p) div 8 = k div 8 - q + p \<and> (k - 8 * q + 8 * p) mod 8 = k mod 8"
    if qk: "q \<le> k div 8"
  proof -
    obtain r where r: "k div 8 = q + r" using qk le_Suc_ex by blast
    define j where "j = k mod 8"
    have "k = 8 * q + (8 * r + j)"
      using mult_div_mod_eq [of 8 k, symmetric] unfolding r j_def [symmetric] by simp
    then have "k - 8 * q + 8 * p = 8 * (r + p) + j" by simp
    moreover have "j < 8" by (simp add: j_def)
    ultimately show ?thesis unfolding r j_def [symmetric] by simp
  qed
  show ?thesis
  proof (cases "q \<le> k div 8 \<and> k div 8 < q + nb")
    case True
    with dm nth show ?thesis unfolding in_iff get_bit_def len by (simp only: if_True simp_thms)
  next
    case False
    with nth show ?thesis unfolding in_iff get_bit_def len by (simp only: if_False)
  qed
qed

lemma get_bit_copy_low:
  assumes "d < length dst" and "s < length src" and "m \<le> 8" and "k < 8 * length dst"
    and "D = 8 * (length dst - 1 - d)" and "S = 8 * (length src - 1 - s)"
  shows "get_bit (dst[d := (dst ! d AND NOT (push_bit m 1 - 1)) OR (src ! s AND (push_bit m 1 - 1))]) k
    \<longleftrightarrow> (if D \<le> k \<and> k < D + m then get_bit src (k - D + S) else get_bit dst k)"
proof -
  have "get_bit (dst[d := (dst ! d AND NOT (push_bit 0 (push_bit m 1 - 1)))
       OR (push_bit 0 (drop_bit 0 (src ! s)) AND push_bit 0 (push_bit m 1 - 1))]) k
    \<longleftrightarrow> (if D \<le> k \<and> k < D + m then get_bit src (k - D + S) else get_bit dst k)"
    by (rule get_bit_copy_chunk [OF assms(1,2) _ _ refl assms(4)]) (use assms in auto)
  then show ?thesis by (simp only: push_bit_0_id drop_bit_0 id_apply)
qed

lemma bitwise_copy_bits:
  assumes "src_ofs + n \<le> 8 * length src" and "dst_ofs + n \<le> 8 * length dst"
  shows "length (bitwise_copy src (length src) src_ofs dst (length dst) dst_ofs n) = length dst \<and>
    (\<forall>k < 8 * length dst.
       get_bit (bitwise_copy src (length src) src_ofs dst (length dst) dst_ofs n) k =
       (if dst_ofs \<le> k \<and> k < dst_ofs + n then get_bit src (k - dst_ofs + src_ofs)
        else get_bit dst k))"
proof (cases "src_ofs mod 8 = 0 \<and> dst_ofs mod 8 = 0")
  case False
  have pos: "length xs - 1 - (length xs - (ofs div 8 + 1)) = ofs div 8 \<and> length xs - (ofs div 8 + 1) < length xs"
    if "ofs < 8 * length xs" for ofs and xs :: "u8 list"
    using that by linarith
  have "bitwise_copy src (length src) src_ofs dst (length dst) dst_ofs n =
     bitwise_copy_loop src (length src - (src_ofs div 8 + 1)) (src_ofs mod 8)
       dst (length dst - (dst_ofs div 8 + 1)) (dst_ofs mod 8) n"
    using False by (auto simp: bitwise_copy_def Let_def)
  then show ?thesis
    by (simp only:) (rule bitwise_copy_loop_bits, use assms pos [of src_ofs src] pos [of dst_ofs dst] in auto)
next
  case True
  define p q nb m where "p = src_ofs div 8" and "q = dst_ofs div 8" and "nb = n div 8" and "m = n mod 8"
  have ofs: "src_ofs = 8 * p" "dst_ofs = 8 * q" "n = 8 * nb + m" "m < 8"
    using True by (auto simp: p_def q_def nb_def m_def)
  have le: "p + nb \<le> length src" "q + nb \<le> length dst" using assms ofs by linarith+
  define dst1 where "dst1 = take (length dst - q - nb) dst @ take nb (drop (length src - p - nb) src) @ drop (length dst - q) dst"
  have len1: "length dst1 = length dst" using le by (simp add: dst1_def)
  have bits1: "get_bit dst1 k \<longleftrightarrow>
     (if 8 * q \<le> k \<and> k < 8 * q + 8 * nb then get_bit src (k - 8 * q + 8 * p) else get_bit dst k)"
    if "k < 8 * length dst" for k
    unfolding dst1_def by (rule get_bit_splice [OF le(2,1) that])
  let ?d = "length dst - q - nb - 1" and ?s = "length src - p - nb - 1"
  have eq: "bitwise_copy src (length src) src_ofs dst (length dst) dst_ofs n =
     (if m \<noteq> 0 then dst1[?d := (dst1 ! ?d AND NOT (push_bit m 1 - 1)) OR (src ! ?s AND (push_bit m 1 - 1))]
      else dst1)"
  proof (cases "nb = 0")
    case True
    then have "dst1 = dst" by (simp add: dst1_def)
    then show ?thesis using True ofs
      by (simp add: bitwise_copy_def Let_def)
  next
    case False
    then have "length dst - (q + 1) - (nb - 1) = length dst - q - nb"
      "length src - (p + 1) - (nb - 1) = length src - p - nb"
      "length dst - q - nb + nb = length dst - q" "Suc (length src - Suc p) = length src - p"
      using le by auto
    then show ?thesis using False ofs
      by (simp add: bitwise_copy_def Let_def dst1_def)
  qed
  show ?thesis
  proof (cases "m = 0")
    case True
    then show ?thesis using eq len1 bits1 ofs by simp
  next
    case False
    define R where "R = dst1[?d := (dst1 ! ?d AND NOT (push_bit m 1 - 1)) OR (src ! ?s AND (push_bit m 1 - 1))]"
    have lt: "?d < length dst1" "?s < length src" using False assms ofs len1 by linarith+
    have "q + nb < length dst" "p + nb < length src" using False assms ofs by linarith+
    then have D: "8 * (q + nb) = 8 * (length dst1 - 1 - ?d)" "8 * (p + nb) = 8 * (length src - 1 - ?s)"
      using len1 by auto
    have "get_bit R k =
       (if dst_ofs \<le> k \<and> k < dst_ofs + n then get_bit src (k - dst_ofs + src_ofs)
        else get_bit dst k)" if k: "k < 8 * length dst" for k
    proof -
      have "get_bit R k
        \<longleftrightarrow> (if 8 * (q + nb) \<le> k \<and> k < 8 * (q + nb) + m then get_bit src (k - 8 * (q + nb) + 8 * (p + nb))
            else get_bit dst1 k)"
        unfolding R_def by (rule get_bit_copy_low [OF lt _ _ D]) (use ofs(4) k len1 in auto)
      moreover have "k - 8 * (q + nb) + 8 * (p + nb) = k - 8 * q + 8 * p" if "8 * (q + nb) \<le> k"
        using that by simp
      ultimately show ?thesis unfolding bits1 [OF k] ofs by auto
    qed
    moreover have "bitwise_copy src (length src) src_ofs dst (length dst) dst_ofs n = R"
      using eq False by (simp only: R_def if_True simp_thms)
    moreover have "length R = length dst" using len1 by (simp add: R_def)
    ultimately show ?thesis by simp
  qed
qed

text \<open>Whole bytes followed by the low bits of one more: what clearing and setting share.\<close>

locale bit_fill =
  fixes put :: "u8 \<Rightarrow> u8 \<Rightarrow> u8"
    and whole :: u8
    and v :: bool
  assumes put_bits: "j < 8 \<Longrightarrow> bit (put b m) j = (if bit m j then v else bit b j)"
    and whole_bits: "j < 8 \<Longrightarrow> bit whole j = v"
begin

lemma get_bit_put_run:
  assumes "d < length dst" and "dof + chunk \<le> 8" and k: "k < 8 * length dst"
    and D: "D = 8 * (length dst - 1 - d) + dof"
  shows "get_bit (dst[d := put (dst ! d) (push_bit dof (push_bit chunk 1 - 1))]) k =
    (if D \<le> k \<and> k < D + chunk then v else get_bit dst k)"
proof (cases "k div 8 = length dst - 1 - d")
  case True
  define j where "j = k mod 8"
  have j: "j < 8" "k = 8 * (length dst - 1 - d) + j"
    using True mult_div_mod_eq [of 8 k] by (simp_all add: j_def)
  have "D \<le> k \<and> k < D + chunk \<longleftrightarrow> dof \<le> j \<and> j < dof + chunk" using j(2) D by auto
  moreover have "get_bit dst k = bit (dst ! d) j"
    using j assms(1) by (simp only: get_bit_byte) (simp add: Suc_diff_Suc)
  moreover have "bit (push_bit dof (push_bit chunk 1 - 1) :: u8) j \<longleftrightarrow> dof \<le> j \<and> j < dof + chunk"
    using j(1) assms(2) unfolding bit_push_bit_iff bit_exp_minus_1 by auto
  ultimately show ?thesis
    unfolding get_bit_update [OF assms(1) k] j_def [symmetric] put_bits [OF j(1)]
    using True by (simp only: if_True simp_thms)
next
  case False
  have "\<not> (D \<le> k \<and> k < D + chunk)"
  proof
    assume "D \<le> k \<and> k < D + chunk"
    then have "8 * (length dst - 1 - d) \<le> k \<and> k < 8 * (length dst - 1 - d) + 8"
      using D assms(2) by linarith
    with False show False by linarith
  qed
  with False show ?thesis by (simp only: get_bit_update [OF assms(1) k] if_False)
qed

lemma get_bit_whole:
  assumes "d < length dst" and k: "k < 8 * length dst" and D: "D = 8 * (length dst - 1 - d)"
  shows "get_bit (dst[d := whole]) k = (if D \<le> k \<and> k < D + 8 then v else get_bit dst k)"
proof -
  have "D \<le> k \<and> k < D + 8 \<longleftrightarrow> k div 8 = length dst - 1 - d" using D by linarith
  then show ?thesis by (simp add: get_bit_update [OF assms(1) k] whole_bits)
qed

lemma fill_tail_bits:
  assumes "0 < n \<Longrightarrow> d < length dst \<and> D = 8 * (length dst - 1 - d)" and "D + n \<le> 8 * length dst"
  shows "length (bitwise_fill_tail put whole dst d n) = length dst \<and>
    (\<forall>k < 8 * length dst. get_bit (bitwise_fill_tail put whole dst d n) k =
       (if D \<le> k \<and> k < D + n then v else get_bit dst k))"
  using assms
proof (induction n arbitrary: dst d D rule: less_induct)
  case (less n)
  consider "n = 0" | "0 < n" "n < 8" | "8 \<le> n" by linarith
  then show ?case
  proof cases
    case 1
    then show ?thesis by (auto simp: bitwise_fill_tail.simps [of put whole dst d 0])
  next
    case 2
    with less.prems have "d < length dst" "D = 8 * (length dst - 1 - d)" by auto
    then show ?thesis
      using 2 get_bit_put_run [of d dst 0 n _ D]
      by (simp add: bitwise_fill_tail.simps [of put whole dst d n])
  next
    case 3
    with less.prems have d: "d < length dst" "D = 8 * (length dst - 1 - d)" by auto
    have IH: "length (bitwise_fill_tail put whole (dst[d := whole]) (d - 1) (n - 8)) = length (dst[d := whole]) \<and>
      (\<forall>k < 8 * length (dst[d := whole]).
        get_bit (bitwise_fill_tail put whole (dst[d := whole]) (d - 1) (n - 8)) k =
         (if D + 8 \<le> k \<and> k < D + 8 + (n - 8) then v else get_bit (dst[d := whole]) k))"
      by (rule less.IH) (use 3 d less.prems(2) in auto)
    show ?thesis
    proof (intro conjI allI impI)
      show "length (bitwise_fill_tail put whole dst d n) = length dst"
        using IH 3 by (simp add: bitwise_fill_tail.simps [of put whole dst d n])
      fix k assume k: "k < 8 * length dst"
      have "get_bit (bitwise_fill_tail put whole dst d n) k =
          (if D + 8 \<le> k \<and> k < D + 8 + (n - 8) then v
           else if D \<le> k \<and> k < D + 8 then v else get_bit dst k)"
        using IH 3 k get_bit_whole [OF d(1) k d(2)]
        by (simp add: bitwise_fill_tail.simps [of put whole dst d n])
      then show "get_bit (bitwise_fill_tail put whole dst d n) k =
          (if D \<le> k \<and> k < D + n then v else get_bit dst k)"
        using 3 by auto
    qed
  qed
qed

text \<open>
  The whole routine: a partial first byte when the run does not start at a byte boundary,
  then the tail.
\<close>

lemma fill_bits:
  assumes "ofs + n \<le> 8 * length dst" and "0 < n"
    and r: "r = (let d = length dst - (ofs div 8 + 1); dof = ofs mod 8
        in if dof \<noteq> 0 then
             let chunk = min n (8 - dof);
                 dst1 = dst[d := put (dst ! d) (push_bit dof (push_bit chunk 1 - 1))]
             in if n - chunk = 0 then dst1 else bitwise_fill_tail put whole dst1 (d - 1) (n - chunk)
           else bitwise_fill_tail put whole dst d n)"
  shows "length r = length dst \<and>
    (\<forall>k < 8 * length dst. get_bit r k = (if ofs \<le> k \<and> k < ofs + n then v else get_bit dst k))"
proof -
  define d dof where "d = length dst - (ofs div 8 + 1)" and "dof = ofs mod 8"
  have d: "d < length dst" "ofs = 8 * (length dst - 1 - d) + dof" "dof < 8"
    using assms(1,2) by (auto simp: d_def dof_def)
  show ?thesis
  proof (cases "dof = 0")
    case True
    then have "r = bitwise_fill_tail put whole dst d n" by (simp add: r d_def dof_def)
    then show ?thesis using fill_tail_bits [of n d dst ofs] d True assms by simp
  next
    case False
    define chunk where "chunk = min n (8 - dof)"
    define dst1 where "dst1 = dst[d := put (dst ! d) (push_bit dof (push_bit chunk 1 - 1))]"
    have c: "dof + chunk \<le> 8" "chunk \<le> n" using d(3) by (auto simp: chunk_def)
    have len1: "length dst1 = length dst" by (simp add: dst1_def)
    have b1: "get_bit dst1 k = (if ofs \<le> k \<and> k < ofs + chunk then v else get_bit dst k)"
      if "k < 8 * length dst" for k
      unfolding dst1_def by (rule get_bit_put_run [OF d(1) c(1) that d(2)])
    have eq: "r = (if n - chunk = 0 then dst1 else bitwise_fill_tail put whole dst1 (d - 1) (n - chunk))"
      using False unfolding r dst1_def chunk_def d_def dof_def by (simp only: Let_def if_True simp_thms)
    show ?thesis
    proof (cases "n = chunk")
      case True
      then show ?thesis using b1 len1 by (simp add: eq)
    next
      case ne: False
      have IH: "length (bitwise_fill_tail put whole dst1 (d - 1) (n - chunk)) = length dst1 \<and>
       (\<forall>k < 8 * length dst1. get_bit (bitwise_fill_tail put whole dst1 (d - 1) (n - chunk)) k =
         (if ofs + chunk \<le> k \<and> k < ofs + chunk + (n - chunk) then v else get_bit dst1 k))"
        by (rule fill_tail_bits) (use ne False c d assms len1 in \<open>auto simp: chunk_def min_def split: if_splits\<close>)
      then have "length r = length dst \<and> (\<forall>k < 8 * length dst. get_bit r k =
          (if ofs + chunk \<le> k \<and> k < ofs + n then v
           else if ofs \<le> k \<and> k < ofs + chunk then v else get_bit dst k))"
        using ne c b1 by (simp add: eq len1)
      then show ?thesis using c by auto
    qed
  qed
qed

end

interpretation zero_fill: bit_fill "\<lambda>b m. b AND NOT m" 0 False
  by unfold_locales (auto simp: bit_and_iff bit_not_iff)

interpretation one_fill: bit_fill "\<lambda>b m. b OR m" "0xff" True
proof -
  have m: "(0xff :: u8) = mask 8" by (simp add: mask_eq_exp_minus_1)
  show "bit_fill (\<lambda>b m. b OR m) 0xff True"
    by unfold_locales (auto simp: bit_or_iff m bit_mask_iff)
qed

lemma bitwise_zero_bits:
  assumes "ofs + n \<le> 8 * length dst"
  shows "length (bitwise_zero dst (length dst) ofs n) = length dst \<and>
    (\<forall>k < 8 * length dst. get_bit (bitwise_zero dst (length dst) ofs n) k =
       (if ofs \<le> k \<and> k < ofs + n then False else get_bit dst k))"
proof (cases "n = 0")
  case False
  then show ?thesis by (intro zero_fill.fill_bits [OF assms]) (simp_all only: bitwise_zero_def if_False)
qed (auto simp: bitwise_zero_def)

lemma bitwise_one_bits:
  assumes "ofs + n \<le> 8 * length dst"
  shows "length (bitwise_one dst (length dst) ofs n) = length dst \<and>
    (\<forall>k < 8 * length dst. get_bit (bitwise_one dst (length dst) ofs n) k =
       (if ofs \<le> k \<and> k < ofs + n then True else get_bit dst k))"
proof (cases "n = 0")
  case False
  then show ?thesis by (intro one_fill.fill_bits [OF assms]) (simp_all only: bitwise_one_def if_False)
qed (auto simp: bitwise_one_def)


lemma byte_run_zero_iff:
  assumes "i < length p" and "dof + chunk \<le> 8" and D: "D = 8 * (length p - 1 - i) + dof"
  shows "p ! i AND push_bit dof (push_bit chunk 1 - 1) = 0 \<longleftrightarrow>
    (\<forall>k. D \<le> k \<and> k < D + chunk \<longrightarrow> \<not> get_bit p k)"
proof -
  have run: "get_bit p (D + j) = bit (p ! i) (dof + j)" if "j < chunk" for j
  proof -
    have "D + j = 8 * (length p - 1 - i) + (dof + j)" by (simp add: D)
    moreover have "dof + j < 8" using that assms(2) by simp
    moreover have "length p - (length p - 1 - i + 1) = i" using assms(1) by simp
    ultimately show ?thesis by (simp only: get_bit_byte)
  qed
  have "p ! i AND push_bit dof (push_bit chunk 1 - 1) = 0 \<longleftrightarrow>
      (\<forall>j. dof \<le> j \<and> j < dof + chunk \<longrightarrow> \<not> bit (p ! i) j)"
  proof -
    have "dof \<le> j \<and> j < dof + chunk \<longleftrightarrow> j < 8 \<and> dof \<le> j \<and> j - dof < chunk \<and> j - dof < 8" for j
      using assms(2) by auto
    then show ?thesis
      unfolding word_eq_iff_bits bit_and_iff bit_push_bit_iff bit_exp_minus_1 by auto
  qed
  also have "\<dots> \<longleftrightarrow> (\<forall>k. D \<le> k \<and> k < D + chunk \<longrightarrow> \<not> get_bit p k)"
    unfolding all_interval_shift using run by simp
  finally show ?thesis .
qed

lemma all_zeros_tail_iff:
  assumes "0 < n \<Longrightarrow> i < length p \<and> D = 8 * (length p - 1 - i)" and "D + n \<le> 8 * length p"
  shows "all_zeros_tail p i n \<longleftrightarrow> (\<forall>k. D \<le> k \<and> k < D + n \<longrightarrow> \<not> get_bit p k)"
  using assms
proof (induction n arbitrary: i D rule: less_induct)
  case (less n)
  consider "n = 0" | "0 < n" "n < 8" | "8 \<le> n" by linarith
  then show ?case
  proof cases
    case 1
    then show ?thesis by (auto simp: all_zeros_tail.simps [of p i 0])
  next
    case 2
    with less.prems have "i < length p" "D = 8 * (length p - 1 - i)" by auto
    then show ?thesis
      using 2 byte_run_zero_iff [of i p 0 n D] by (simp add: all_zeros_tail.simps [of p i n])
  next
    case 3
    with less.prems have i: "i < length p" "D = 8 * (length p - 1 - i)" by auto
    have full: "(push_bit 8 1 - 1 :: u8) = -1" by simp
    have byte: "p ! i = 0 \<longleftrightarrow> (\<forall>k. D \<le> k \<and> k < D + 8 \<longrightarrow> \<not> get_bit p k)"
      using byte_run_zero_iff [OF i(1), of 0 8 D] i(2) unfolding full by simp
    have "all_zeros_tail p (i - 1) (n - 8) \<longleftrightarrow>
       (\<forall>k. D + 8 \<le> k \<and> k < D + 8 + (n - 8) \<longrightarrow> \<not> get_bit p k)"
      by (rule less.IH) (use 3 i less.prems(2) in auto)
    then have "all_zeros_tail p i n \<longleftrightarrow> (\<forall>k. D \<le> k \<and> k < D + 8 \<longrightarrow> \<not> get_bit p k)
        \<and> (\<forall>k. D + 8 \<le> k \<and> k < D + n \<longrightarrow> \<not> get_bit p k)"
      using 3 byte by (simp add: all_zeros_tail.simps [of p i n])
    also have "\<dots> \<longleftrightarrow> (\<forall>k. D \<le> k \<and> k < D + n \<longrightarrow> \<not> get_bit p k)"
      using 3 by (rule all_interval_split)
    finally show ?thesis .
  qed
qed

lemma bitwise_is_all_zeros_iff:
  assumes "ofs + n \<le> 8 * length p"
  shows "bitwise_is_all_zeros p (length p) ofs n \<longleftrightarrow>
    (\<forall>k. ofs \<le> k \<and> k < ofs + n \<longrightarrow> \<not> get_bit p k)"
proof (cases "n = 0")
  case False
  define i dof where "i = length p - (ofs div 8 + 1)" and "dof = ofs mod 8"
  have i: "i < length p" "ofs = 8 * (length p - 1 - i) + dof" "dof < 8"
    using assms False by (auto simp: i_def dof_def)
  show ?thesis
  proof (cases "dof = 0")
    case True
    then have "bitwise_is_all_zeros p (length p) ofs n = all_zeros_tail p i n"
      using False by (simp add: bitwise_is_all_zeros_def i_def dof_def)
    then show ?thesis using all_zeros_tail_iff [of n i p ofs] i True assms by simp
  next
    case nz: False
    define chunk where "chunk = min n (8 - dof)"
    have c: "dof + chunk \<le> 8" "chunk \<le> n" using i(3) by (auto simp: chunk_def)
    have "bitwise_is_all_zeros p (length p) ofs n \<longleftrightarrow>
        p ! i AND push_bit dof (push_bit chunk 1 - 1) = 0 \<and>
        (n - chunk = 0 \<or> all_zeros_tail p (i - 1) (n - chunk))"
      using False nz unfolding bitwise_is_all_zeros_def Let_def i_def dof_def chunk_def
      by (simp only: if_False if_True simp_thms) (auto simp only: if_split)
    also have "\<dots> \<longleftrightarrow> (\<forall>k. ofs \<le> k \<and> k < ofs + chunk \<longrightarrow> \<not> get_bit p k) \<and>
        (n - chunk = 0 \<or> all_zeros_tail p (i - 1) (n - chunk))"
      unfolding byte_run_zero_iff [OF i(1) c(1) i(2)] ..
    also have "n - chunk = 0 \<or> all_zeros_tail p (i - 1) (n - chunk) \<longleftrightarrow>
        (\<forall>k. ofs + chunk \<le> k \<and> k < ofs + n \<longrightarrow> \<not> get_bit p k)"
    proof (cases "n = chunk")
      case ne: False
      have "all_zeros_tail p (i - 1) (n - chunk) \<longleftrightarrow>
         (\<forall>k. ofs + chunk \<le> k \<and> k < ofs + chunk + (n - chunk) \<longrightarrow> \<not> get_bit p k)"
        by (rule all_zeros_tail_iff) (use ne nz c i assms in \<open>auto simp: chunk_def min_def split: if_splits\<close>)
      then show ?thesis using ne c by simp
    qed auto
    also have "(\<forall>k. ofs \<le> k \<and> k < ofs + chunk \<longrightarrow> \<not> get_bit p k) \<and>
        (\<forall>k. ofs + chunk \<le> k \<and> k < ofs + n \<longrightarrow> \<not> get_bit p k) \<longleftrightarrow>
        (\<forall>k. ofs \<le> k \<and> k < ofs + n \<longrightarrow> \<not> get_bit p k)"
      using c(2) by (rule all_interval_split)
    finally show ?thesis .
  qed
qed (auto simp: bitwise_is_all_zeros_def)


lemma length_htonll [simp]: "length (htonll v) = 8"
  by (simp add: htonll_def)

lemma get_bit_htonll: "k < 64 \<Longrightarrow> get_bit (htonll v) k = bit v k"
proof -
  assume k: "k < 64"
  then have kd: "k div 8 < 8" by simp
  then have "htonll v ! (8 - (k div 8 + 1)) = ucast (drop_bit (8 * (7 - (8 - (k div 8 + 1)))) v)"
    unfolding htonll_def by (subst nth_map_upt0) simp_all
  moreover have "7 - (8 - (k div 8 + 1)) = k div 8" using kd by simp
  ultimately have "get_bit (htonll v) k = bit v (8 * (k div 8) + k mod 8)"
    unfolding get_bit_def length_htonll by (simp only: bit_ucast_iff bit_drop_bit_eq comp_def) simp
  then show ?thesis by simp
qed

lemma get_bit_snoc:
  "get_bit (bs @ [b]) k = (if k < 8 then bit b k else k < 8 * Suc (length bs) \<and> get_bit bs (k - 8))"
  if "k < 8 * Suc (length bs)"
proof (cases "k < 8")
  case True
  then show ?thesis by (simp add: get_bit_def nth_append)
next
  case False
  then obtain j where j: "k = j + 8" using le_Suc_ex [of 8 k] by (auto simp: add.commute)
  have "j div 8 < length bs" using \<open>k < 8 * Suc (length bs)\<close> j by auto
  moreover have "(j + 8) div 8 = Suc (j div 8)" by simp
  ultimately show ?thesis using that by (auto simp: get_bit_def nth_append j)
qed

lemma bit_foldl_bytes:
  fixes acc :: u64
  assumes "length bs \<le> 8"
  shows "bit (foldl (\<lambda>acc b. push_bit 8 acc OR ucast b) (0 :: u64) bs) k \<longleftrightarrow>
    k < 8 * length bs \<and> get_bit bs k"
  using assms
proof (induction bs arbitrary: k rule: rev_induct)
  case (snoc b bs)
  have IH: "bit (foldl (\<lambda>acc b. push_bit 8 acc OR ucast b) (0 :: u64) bs) j \<longleftrightarrow>
     j < 8 * length bs \<and> get_bit bs j" for j
    using snoc by simp
  have b: "bit b k \<Longrightarrow> k < 8" using word_bit_bound [of b k] by simp
  show ?case
    using snoc.prems b get_bit_snoc [of k bs b]
    by (auto simp: bit_or_iff bit_push_bit_iff bit_ucast_iff IH split: if_splits)
qed simp

lemma bit_ntohll: "length bs = 8 \<Longrightarrow> k < 64 \<Longrightarrow> bit (ntohll bs) k = get_bit bs k"
  by (simp add: ntohll_def bit_foldl_bytes)

lemma bit_bitwise_get:
  assumes "ofs + n \<le> 8 * length src" and "n \<le> 64"
  shows "bit (bitwise_get src (length src) ofs n) k \<longleftrightarrow> k < n \<and> get_bit src (ofs + k)"
proof -
  have c: "length (bitwise_copy src (length src) ofs (htonll 0) 8 0 n) = 8 \<and>
    (\<forall>k < 64. get_bit (bitwise_copy src (length src) ofs (htonll 0) 8 0 n) k =
       (if k < n then get_bit src (k + ofs) else get_bit (htonll 0) k))"
    using bitwise_copy_bits [of ofs n src 0 "htonll 0"] assms by simp
  show ?thesis
  proof (cases "k < 64")
    case True
    then show ?thesis using c by (simp add: bitwise_get_def bit_ntohll get_bit_htonll add.commute)
  next
    case False
    then show ?thesis using assms(2) word_bit_bound [of "bitwise_get src (length src) ofs n" k] by auto
  qed
qed

lemma bitwise_put_bits:
  assumes "ofs + n \<le> 8 * length dst" and "n \<le> 64"
  shows "length (bitwise_put v dst (length dst) ofs n) = length dst \<and>
    (\<forall>k < 8 * length dst. get_bit (bitwise_put v dst (length dst) ofs n) k =
       (if ofs \<le> k \<and> k < ofs + n then bit v (k - ofs) else get_bit dst k))"
  using bitwise_copy_bits [of 0 n "htonll v" ofs dst] assms
  by (auto simp: bitwise_put_def get_bit_htonll)

lemma bitwise_get_put:
  assumes "ofs + n \<le> 8 * length dst" and "n \<le> 64"
  shows "bitwise_get (bitwise_put v dst (length dst) ofs n) (length dst) ofs n = take_bit n v"
proof (rule bit_word_eqI)
  fix k
  have p: "length (bitwise_put v dst (length dst) ofs n) = length dst"
    using bitwise_put_bits [OF assms] by blast
  have "bit (bitwise_get (bitwise_put v dst (length dst) ofs n) (length dst) ofs n) k \<longleftrightarrow>
      k < n \<and> get_bit (bitwise_put v dst (length dst) ofs n) (ofs + k)"
    using bit_bitwise_get [of ofs n "bitwise_put v dst (length dst) ofs n" k] assms by (simp add: p)
  then show "bit (bitwise_get (bitwise_put v dst (length dst) ofs n) (length dst) ofs n) k =
      bit (take_bit n v) k"
    using bitwise_put_bits [OF assms, of v] assms by (auto simp: bit_take_bit_iff)
qed

lemma bitwise_get_put_other:
  assumes "ofs + n \<le> 8 * length dst" and "n \<le> 64"
    and "ofs' + m \<le> 8 * length dst" and "m \<le> 64" and "ofs' + m \<le> ofs \<or> ofs + n \<le> ofs'"
  shows "bitwise_get (bitwise_put v dst (length dst) ofs n) (length dst) ofs' m =
    bitwise_get dst (length dst) ofs' m"
proof (rule bit_word_eqI)
  fix k
  let ?p = "bitwise_put v dst (length dst) ofs n"
  have p: "length ?p = length dst" using bitwise_put_bits [OF assms(1,2)] by blast
  have "get_bit ?p (ofs' + k) = get_bit dst (ofs' + k)" if "k < m"
    using bitwise_put_bits [OF assms(1,2), of v] assms(3,5) that by auto
  then show "bit (bitwise_get ?p (length dst) ofs' m) k = bit (bitwise_get dst (length dst) ofs' m) k"
    using bit_bitwise_get [of ofs' m ?p k] bit_bitwise_get [of ofs' m dst k] assms(3,4)
    by (auto simp: p)
qed

section \<open>Properties\<close>

text \<open>
  On a nonzero word, \<^verbatim>\<open>raw_ctz\<close> is the index of its lowest set bit and
  \<^verbatim>\<open>log_2_floor\<close> the index of its highest one, \<^verbatim>\<open>popcount\<close> counts the set bits of any word,
  and the portable code therefore agrees with the compiler builtins it stands in for.
\<close>

theorem word_scans:
  fixes n :: u32
  assumes "n \<noteq> 0"
  shows "bit n (raw_ctz n) \<and> (\<forall>i < raw_ctz n. \<not> bit n i) \<and>
    (\<exists>l. log_2_floor n = Some l \<and> 2 ^ l \<le> unat n \<and> unat n < 2 ^ Suc l) \<and>
    popcount n = card {i. bit n i}"
proof -
  have "{i. bit n i} = set (filter (bit n) [0..<32])" by (auto dest: word_bit_bound)
  then have "card {i. bit n i} = length (filter (bit n) [0..<32])"
    by (simp only: distinct_card [OF distinct_filter [OF distinct_upt]])
  then show ?thesis
    using raw_ctz_is_lsb [OF assms] log_2_floor_is_msb [OF assms]
    by (simp add: is_lsb_def is_msb_def popcount_filter)
qed

theorem word_scans_witness:
  "(0x58 :: u32) \<noteq> 0 \<and> bit (0x58 :: u32) (raw_ctz 0x58)"
  using word_scans [of "0x58"] by simp

text \<open>
  C20. \<^verbatim>\<open>bitwise_copy\<close> replaces exactly the bits \<open>dst_ofs\<close> up to
  \<open>dst_ofs + n\<close> of the destination by the bits \<open>src_ofs\<close> up to \<open>src_ofs + n\<close> of the source
  and leaves every other bit as it was, for aligned and unaligned runs alike.
\<close>

theorem bitwise_copy_spec:
  assumes "src_ofs + n \<le> 8 * length src" and "dst_ofs + n \<le> 8 * length dst"
    and "k < 8 * length dst"
  shows "get_bit (bitwise_copy src (length src) src_ofs dst (length dst) dst_ofs n) k =
    (if dst_ofs \<le> k \<and> k < dst_ofs + n then get_bit src (k - dst_ofs + src_ofs)
     else get_bit dst k)"
  using bitwise_copy_bits [OF assms(1,2)] assms(3) by blast

theorem bitwise_copy_spec_witness:
  "get_bit (bitwise_copy [0xab, 0xcd] 2 5 [0, 0, 0] 3 6 9) 7 = get_bit [0xab, 0xcd] 6"
  using bitwise_copy_spec [of 5 9 "[0xab, 0xcd]" 6 "[0, 0, 0]" 7]
  by (simp add: numeral_2_eq_2 numeral_3_eq_3)

text \<open>
  C30. Reading back a field of up to 64 bits that was just written yields the
  low bits of the value written, and a field that does not overlap it is unchanged.
\<close>

theorem bitwise_put_get:
  assumes "ofs + n \<le> 8 * length dst" and "n \<le> 64"
    and "ofs' + m \<le> 8 * length dst" and "m \<le> 64" and "ofs' + m \<le> ofs \<or> ofs + n \<le> ofs'"
  shows "bitwise_get (bitwise_put v dst (length dst) ofs n) (length dst) ofs n = take_bit n v \<and>
    bitwise_get (bitwise_put v dst (length dst) ofs n) (length dst) ofs' m =
      bitwise_get dst (length dst) ofs' m"
  using assms by (simp add: bitwise_get_put bitwise_get_put_other)

theorem bitwise_put_get_witness:
  "bitwise_get (bitwise_put 0x1234 [1, 2, 3] 3 5 12) 3 5 12 = take_bit 12 0x1234 \<and>
   bitwise_get (bitwise_put 0x1234 [1, 2, 3] 3 5 12) 3 20 3 = bitwise_get [1, 2, 3] 3 20 3"
  using bitwise_put_get [of 5 12 "[1, 2, 3]" 20 3 "0x1234"]
  by (simp add: numeral_3_eq_3)

text \<open>
  \<^verbatim>\<open>bitwise_zero\<close> clears and \<^verbatim>\<open>bitwise_one\<close> sets exactly the bits of
  the run they are given, and \<^verbatim>\<open>bitwise_is_all_zeros\<close> holds exactly when the run has no set bit.
\<close>

theorem bitwise_zero_one:
  assumes "ofs + n \<le> 8 * length dst" and "k < 8 * length dst"
  shows "(get_bit (bitwise_zero dst (length dst) ofs n) k \<longleftrightarrow>
       get_bit dst k \<and> \<not> (ofs \<le> k \<and> k < ofs + n)) \<and>
    (get_bit (bitwise_one dst (length dst) ofs n) k \<longleftrightarrow>
       get_bit dst k \<or> (ofs \<le> k \<and> k < ofs + n)) \<and>
    (bitwise_is_all_zeros dst (length dst) ofs n \<longleftrightarrow>
       (\<forall>j. ofs \<le> j \<and> j < ofs + n \<longrightarrow> \<not> get_bit dst j))"
  using bitwise_zero_bits [OF assms(1)] bitwise_one_bits [OF assms(1)]
    bitwise_is_all_zeros_iff [OF assms(1)] assms(2) by auto

theorem bitwise_zero_one_witness:
  "\<not> get_bit (bitwise_zero [0xff, 0xff, 0xff] 3 3 13) 5 \<and>
   get_bit (bitwise_one [0, 0, 0] 3 3 13) 5"
  using bitwise_zero_one [of 3 13 "[0xff, 0xff, 0xff]" 5] bitwise_zero_one [of 3 13 "[0, 0, 0]" 5]
  by (simp add: numeral_3_eq_3)

end
