(* ===== verification/Hmap.thy ===== *)
theory Hmap
  imports Util
begin

text \<open>
  The hash map of \<^verbatim>\<open>lib/hmap.h\<close> and \<^verbatim>\<open>lib/hmap.c\<close>. A bucket is a singly linked chain of
  nodes, modelled by the list of its nodes; a node is its stored hash and the object it is
  embedded in. A pointer to a node is the rest of its chain from that node on, the null pointer
  the empty chain. \<^verbatim>\<open>size_t\<close> is 64 bits wide; the number of nodes is a \<open>nat\<close>, since the nodes
  are distinct objects in memory and cannot be as many as \<^verbatim>\<open>size_t\<close> has values.

  The second part states the interface the rest of the program relies on as locales, and
  interprets them on these definitions: a bag of nodes with insertion, removal and search by
  hash, and search by key on top of it.
\<close>

section \<open>Definitions\<close>

type_synonym 'a hmap_node = "u64 \<times> 'a"

record 'a hmap =
  buckets :: "'a hmap_node list list"
  hmask :: u64
  hn :: nat

definition hmap_init :: "'a hmap" where
  "hmap_init = \<lparr>buckets = [[]], hmask = 0, hn = 0\<rparr>"

definition hmap_clear :: "'a hmap \<Rightarrow> 'a hmap" where
  "hmap_clear h =
     (if hn h > 0
      then h\<lparr>hn := 0, buckets := replicate (unat (hmask h) + 1) []\<rparr>
      else h)"

definition hmap_swap :: "'a hmap \<times> 'a hmap \<Rightarrow> 'a hmap \<times> 'a hmap" where
  "hmap_swap = (\<lambda>(a, b). (b, a))"

definition hmap_count :: "'a hmap \<Rightarrow> nat" where
  "hmap_count h = hn h"

definition hmap_capacity :: "'a hmap \<Rightarrow> u64" where
  "hmap_capacity h = hmask h * 2 + 1"

definition hmap_is_empty :: "'a hmap \<Rightarrow> bool" where
  "hmap_is_empty h \<longleftrightarrow> hn h = 0"

definition hmap_bucket :: "'a hmap \<Rightarrow> u64 \<Rightarrow> nat" where
  "hmap_bucket h hash = unat (hash AND hmask h)"

definition hmap_insert_fast :: "'a hmap \<Rightarrow> 'a \<Rightarrow> u64 \<Rightarrow> 'a hmap" where
  "hmap_insert_fast h node hash =
     (let i = hmap_bucket h hash
      in h\<lparr>buckets := (buckets h)[i := (hash, node) # buckets h ! i], hn := hn h + 1\<rparr>)"

definition calc_mask :: "u64 \<Rightarrow> u64" where
  "calc_mask capacity =
     (let m0 = drop_bit 1 capacity;
          m1 = m0 OR drop_bit 1 m0;
          m2 = m1 OR drop_bit 2 m1;
          m3 = m2 OR drop_bit 4 m2;
          m4 = m3 OR drop_bit 8 m3;
          m5 = m4 OR drop_bit 16 m4;
          m6 = m5 OR drop_bit 32 m5
      in m6 OR push_bit 1 (m6 AND 1))"

text \<open>The assertion at the head of \<^verbatim>\<open>resize\<close>; it aborts the process where it does not hold.\<close>

definition resize_assert :: "u64 \<Rightarrow> bool" where
  "resize_assert new_mask \<longleftrightarrow> is_pow2 (new_mask + 1)"

definition resize :: "'a hmap \<Rightarrow> u64 \<Rightarrow> 'a hmap" where
  "resize h new_mask =
     (let tmp0 = hmap_init;
          tmp = (if new_mask \<noteq> 0
                 then tmp0\<lparr>buckets := replicate (unat new_mask + 1) [], hmask := new_mask\<rparr>
                 else tmp0)
      in foldl (\<lambda>tmp bucket. foldl (\<lambda>tmp (hash, node). hmap_insert_fast tmp node hash) tmp bucket)
           tmp (buckets h))"

definition hmap_expand :: "'a hmap \<Rightarrow> 'a hmap" where
  "hmap_expand h =
     (let new_mask = calc_mask (word_of_nat (hn h))
      in if new_mask > hmask h then resize h new_mask else h)"

definition hmap_shrink :: "'a hmap \<Rightarrow> 'a hmap" where
  "hmap_shrink h =
     (let new_mask = calc_mask (word_of_nat (hn h))
      in if new_mask < hmask h then resize h new_mask else h)"

definition hmap_reserve :: "'a hmap \<Rightarrow> u64 \<Rightarrow> 'a hmap" where
  "hmap_reserve h capacity =
     (let new_mask = calc_mask capacity
      in if new_mask > hmask h then resize h new_mask else h)"

definition hmap_insert :: "'a hmap \<Rightarrow> 'a \<Rightarrow> u64 \<Rightarrow> 'a hmap" where
  "hmap_insert h node hash =
     (let h' = hmap_insert_fast h node hash
      in if hn h' div 2 > unat (hmask h') then hmap_expand h' else h')"

text \<open>
  The walk along a chain to the node itself. It is only called for a node that is in the map;
  from the end of a chain the code would dereference a null pointer.
\<close>

fun chain_remove :: "'a hmap_node list \<Rightarrow> 'a \<Rightarrow> 'a hmap_node list" where
  "chain_remove [] node = []"
| "chain_remove (p # ps) node = (if snd p \<noteq> node then p # chain_remove ps node else ps)"

fun chain_replace :: "'a hmap_node list \<Rightarrow> 'a \<Rightarrow> 'a \<Rightarrow> 'a hmap_node list" where
  "chain_replace [] old new = []"
| "chain_replace (p # ps) old new =
     (if snd p \<noteq> old then p # chain_replace ps old new else (fst p, new) # ps)"

definition hmap_remove :: "'a hmap \<Rightarrow> 'a hmap_node \<Rightarrow> 'a hmap" where
  "hmap_remove h node =
     (let i = hmap_bucket h (fst node)
      in h\<lparr>buckets := (buckets h)[i := chain_remove (buckets h ! i) (snd node)], hn := hn h - 1\<rparr>)"

definition hmap_replace :: "'a hmap \<Rightarrow> 'a hmap_node \<Rightarrow> 'a \<Rightarrow> 'a hmap" where
  "hmap_replace h old_node new_node =
     (let i = hmap_bucket h (fst old_node)
      in h\<lparr>buckets := (buckets h)[i := chain_replace (buckets h ! i) (snd old_node) new_node]\<rparr>)"

subsection \<open>Search\<close>

definition hmap_next_with_hash_from :: "'a hmap_node list \<Rightarrow> u64 \<Rightarrow> 'a hmap_node list" where
  "hmap_next_with_hash_from node hash = dropWhile (\<lambda>p. fst p \<noteq> hash) node"

definition hmap_first_with_hash :: "'a hmap \<Rightarrow> u64 \<Rightarrow> 'a hmap_node list" where
  "hmap_first_with_hash h hash = hmap_next_with_hash_from (buckets h ! hmap_bucket h hash) hash"

definition hmap_first_in_bucket :: "'a hmap \<Rightarrow> u64 \<Rightarrow> 'a hmap_node list" where
  "hmap_first_in_bucket h hash = buckets h ! hmap_bucket h hash"

fun hmap_next_with_hash :: "'a hmap_node list \<Rightarrow> 'a hmap_node list" where
  "hmap_next_with_hash [] = []"
| "hmap_next_with_hash (p # ps) = hmap_next_with_hash_from ps (fst p)"

text \<open>The objects \<^verbatim>\<open>HMAP_FOR_EACH_WITH_HASH\<close> visits, starting from a node pointer.\<close>

function for_each_with_hash :: "'a hmap_node list \<Rightarrow> 'a list" where
  "for_each_with_hash [] = []"
| "for_each_with_hash (p # ps) = snd p # for_each_with_hash (hmap_next_with_hash (p # ps))"
  by pat_completeness auto
termination
  by (relation "measure length")
    (auto simp: hmap_next_with_hash_from_def length_dropWhile_le less_Suc_eq_le)

definition HMAP_FOR_EACH_WITH_HASH :: "'a hmap \<Rightarrow> u64 \<Rightarrow> 'a list" where
  "HMAP_FOR_EACH_WITH_HASH h hash = for_each_with_hash (hmap_first_with_hash h hash)"

text \<open>\<^verbatim>\<open>HMAP_FOR_EACH_IN_BUCKET\<close> follows the \<^verbatim>\<open>next\<close> pointers to the end of the chain.\<close>

definition HMAP_FOR_EACH_IN_BUCKET :: "'a hmap \<Rightarrow> u64 \<Rightarrow> 'a list" where
  "HMAP_FOR_EACH_IN_BUCKET h hash = map snd (hmap_first_in_bucket h hash)"

fun hmap_contains_from :: "'a hmap_node list \<Rightarrow> 'a \<Rightarrow> bool" where
  "hmap_contains_from [] node = False"
| "hmap_contains_from (p # ps) node = (if snd p = node then True else hmap_contains_from ps node)"

definition hmap_contains :: "'a hmap \<Rightarrow> 'a hmap_node \<Rightarrow> bool" where
  "hmap_contains h node = hmap_contains_from (hmap_first_in_bucket h (fst node)) (snd node)"

subsection \<open>Iteration\<close>

function hmap_next_from :: "'a hmap \<Rightarrow> nat \<Rightarrow> 'a hmap_node list" where
  "hmap_next_from h i =
     (if i \<le> unat (hmask h)
      then if buckets h ! i \<noteq> [] then buckets h ! i else hmap_next_from h (Suc i)
      else [])"
  by pat_completeness auto
termination
  by (relation "measure (\<lambda>(h, i). Suc (unat (hmask h)) - i)") auto

declare hmap_next_from.simps [simp del]

definition hmap_first :: "'a hmap \<Rightarrow> 'a hmap_node list" where
  "hmap_first h = hmap_next_from h 0"

fun hmap_next :: "'a hmap \<Rightarrow> 'a hmap_node list \<Rightarrow> 'a hmap_node list" where
  "hmap_next h [] = []"
| "hmap_next h (p # ps) =
     (if ps \<noteq> [] then ps else hmap_next_from h (hmap_bucket h (fst p) + 1))"

text \<open>
  The loop of \<^verbatim>\<open>HMAP_FOR_EACH\<close> has no bound: \<open>None\<close> is a loop that does not end. By \<open>for_each_eq\<close> below it ends
  on every well-formed map.
\<close>

partial_function (option) for_each :: "'a hmap \<Rightarrow> 'a hmap_node list \<Rightarrow> 'a list option" where
  "for_each h node =
     (case node of
        [] \<Rightarrow> Some []
      | p # ps \<Rightarrow> Option.bind (for_each h (hmap_next h node)) (\<lambda>xs. Some (snd p # xs)))"

declare for_each.simps [code]

definition HMAP_FOR_EACH :: "'a hmap \<Rightarrow> 'a list" where
  "HMAP_FOR_EACH h = the (for_each h (hmap_first h))"

text \<open>
  \<^verbatim>\<open>hmap_at_position\<close> steps through the map from a (bucket, offset) position kept by the caller
  in two 32-bit integers.
\<close>

function hmap_at_position_from :: "'a hmap \<Rightarrow> nat \<Rightarrow> nat \<Rightarrow> 'a option \<times> u32 \<times> u32" where
  "hmap_at_position_from h b_idx offset =
     (if b_idx \<le> unat (hmask h)
      then
        let chain = buckets h ! b_idx
        in if offset < length chain
           then (Some (snd (chain ! offset)),
                 if offset + 1 < length chain
                 then (word_of_nat (hmap_bucket h (fst (chain ! offset))), word_of_nat (offset + 1))
                 else (word_of_nat (hmap_bucket h (fst (chain ! offset)) + 1), 0))
           else hmap_at_position_from h (Suc b_idx) 0
      else (None, 0, 0))"
  by pat_completeness auto
termination
  by (relation "measure (\<lambda>(h, i, ofs). Suc (unat (hmask h)) - i)") auto

declare hmap_at_position_from.simps [simp del]

definition hmap_at_position :: "'a hmap \<Rightarrow> u32 \<times> u32 \<Rightarrow> 'a option \<times> u32 \<times> u32" where
  "hmap_at_position h = (\<lambda>(bucket, offset). hmap_at_position_from h (unat bucket) (unat offset))"

subsection \<open>Well-formedness and content\<close>

definition hmap_nodes :: "'a hmap \<Rightarrow> 'a hmap_node list" where
  "hmap_nodes h = concat (buckets h)"

definition hmap_node_set :: "'a hmap \<Rightarrow> 'a hmap_node set" where
  "hmap_node_set h = set (hmap_nodes h)"

definition hmap_wf :: "'a hmap \<Rightarrow> bool" where
  "hmap_wf h \<longleftrightarrow>
     length (buckets h) = unat (hmask h) + 1 \<and>
     (\<exists>k < 64. hmask h = mask k) \<and>
     hn h = length (hmap_nodes h) \<and>
     distinct (map snd (hmap_nodes h)) \<and>
     (\<forall>i < length (buckets h). \<forall>p \<in> set (buckets h ! i). hmap_bucket h (fst p) = i)"

section \<open>The size of the table\<close>

lemma smear_bits:
  fixes m x :: u64
  assumes "\<And>i. bit m i \<longleftrightarrow> (\<exists>j. i \<le> j \<and> j < i + s \<and> bit x j)"
  shows "bit (m OR drop_bit s m) i \<longleftrightarrow> (\<exists>j. i \<le> j \<and> j < i + 2 * s \<and> bit x j)"
proof -
  have "bit (m OR drop_bit s m) i \<longleftrightarrow> bit m i \<or> bit m (i + s)"
    by (simp add: bit_or_iff bit_drop_bit_eq add.commute)
  also have "\<dots> \<longleftrightarrow> (\<exists>j. i \<le> j \<and> j < i + s \<and> bit x j) \<or> (\<exists>j. i + s \<le> j \<and> j < i + s + s \<and> bit x j)"
    by (simp add: assms)
  also have "\<dots> \<longleftrightarrow> (\<exists>j. i \<le> j \<and> j < i + 2 * s \<and> bit x j)"
    using all_interval_split [of s "2 * s" i "\<lambda>j. \<not> bit x j"] by (auto simp: add.assoc)
  finally show ?thesis .
qed

lemma smear_all_bits:
  fixes m0 :: u64
  defines "m1 \<equiv> m0 OR drop_bit 1 m0"
  defines "m2 \<equiv> m1 OR drop_bit 2 m1"
  defines "m3 \<equiv> m2 OR drop_bit 4 m2"
  defines "m4 \<equiv> m3 OR drop_bit 8 m3"
  defines "m5 \<equiv> m4 OR drop_bit 16 m4"
  defines "m6 \<equiv> m5 OR drop_bit 32 m5"
  shows "bit m6 i \<longleftrightarrow> (\<exists>j \<ge> i. bit m0 j)"
proof -
  have "bit m0 i \<longleftrightarrow> (\<exists>j. i \<le> j \<and> j < i + 1 \<and> bit m0 j)" for i
    by (auto simp: less_Suc_eq_le dest: le_antisym)
  then have "bit m1 i \<longleftrightarrow> (\<exists>j. i \<le> j \<and> j < i + 2 * 1 \<and> bit m0 j)" for i
    unfolding m1_def by (rule smear_bits)
  then have "bit m2 i \<longleftrightarrow> (\<exists>j. i \<le> j \<and> j < i + 2 * 2 \<and> bit m0 j)" for i
    unfolding m2_def by (intro smear_bits) simp
  then have "bit m3 i \<longleftrightarrow> (\<exists>j. i \<le> j \<and> j < i + 2 * 4 \<and> bit m0 j)" for i
    unfolding m3_def by (intro smear_bits) simp
  then have "bit m4 i \<longleftrightarrow> (\<exists>j. i \<le> j \<and> j < i + 2 * 8 \<and> bit m0 j)" for i
    unfolding m4_def by (intro smear_bits) simp
  then have "bit m5 i \<longleftrightarrow> (\<exists>j. i \<le> j \<and> j < i + 2 * 16 \<and> bit m0 j)" for i
    unfolding m5_def by (intro smear_bits) simp
  then have "bit m6 i \<longleftrightarrow> (\<exists>j. i \<le> j \<and> j < i + 2 * 32 \<and> bit m0 j)" for i
    unfolding m6_def by (intro smear_bits) simp
  moreover have "j < i + 2 * 32" if "bit m0 j" for j using word_bit_bound [OF that] by simp
  ultimately show ?thesis by blast
qed

lemma down_closed_bits_mask:
  fixes m :: "'a::len word"
  assumes "\<And>i. bit m i \<longleftrightarrow> (\<exists>j \<ge> i. bit x j)" and "\<not> bit x (LENGTH('a) - 1)"
    and "\<And>i. bit x i \<Longrightarrow> i < LENGTH('a)"
  shows "\<exists>k < LENGTH('a). m = mask k"
proof (cases "\<exists>i. bit x i")
  case False
  then have "m = mask 0" using assms(1) by (intro bit_word_eqI) simp
  then show ?thesis by (intro exI [of _ 0]) simp
next
  case True
  define l where "l = Max {i. bit x i}"
  have fin: "finite {i. bit x i}" by (rule finite_subset [of _ "{..<LENGTH('a)}"]) (auto dest: assms(3))
  have l: "bit x l" "\<And>j. bit x j \<Longrightarrow> j \<le> l"
    using True Max_in [OF fin] Max_ge [OF fin] by (auto simp: l_def)
  have "l < LENGTH('a) - 1" using l(1) assms(2) assms(3) [of l] by (cases "l = LENGTH('a) - 1") auto
  moreover have "m = mask (Suc l)"
    using l assms(1) by (intro bit_word_eqI) (auto simp: bit_mask_iff less_Suc_eq_le dest: le_trans)
  ultimately show ?thesis by (intro exI [of _ "Suc l"]) simp
qed

lemma calc_mask_mask: "\<exists>k < 64. calc_mask capacity = mask k"
proof -
  define m0 where "m0 = drop_bit 1 capacity"
  define m1 where "m1 = m0 OR drop_bit 1 m0"
  define m2 where "m2 = m1 OR drop_bit 2 m1"
  define m3 where "m3 = m2 OR drop_bit 4 m2"
  define m4 where "m4 = m3 OR drop_bit 8 m3"
  define m5 where "m5 = m4 OR drop_bit 16 m4"
  define m6 where "m6 = m5 OR drop_bit 32 m5"
  have "bit m6 i \<longleftrightarrow> (\<exists>j \<ge> i. bit m0 j)" for i
    unfolding m6_def m5_def m4_def m3_def m2_def m1_def by (rule smear_all_bits)
  moreover have "\<not> bit m0 63"
    using word_bit_bound [of capacity 64] by (auto simp: m0_def bit_drop_bit_eq)
  moreover have "bit m0 i \<Longrightarrow> i < 64" for i using word_bit_bound [of m0 i] by simp
  ultimately have "\<exists>k < LENGTH(64). m6 = mask k"
    by (intro down_closed_bits_mask [of m6 m0]) simp_all
  then obtain k where k: "k < 64" "m6 = mask k" by auto
  have calc: "calc_mask capacity = m6 OR push_bit 1 (m6 AND 1)"
    unfolding calc_mask_def Let_def m6_def m5_def m4_def m3_def m2_def m1_def m0_def by (rule refl)
  have "bit (m6 OR push_bit 1 (m6 AND 1)) i \<longleftrightarrow> i < 64 \<and> (i < k \<or> i = 1 \<and> 0 < k)" for i
    unfolding bit_or_iff bit_push_bit_iff bit_and_iff k(2) bit_mask_iff bit_1_iff possible_bit_word
    using k(1) by auto
  moreover define k' where "k' = (if k = 0 then 0 else if k = 1 then 2 else k)"
  have k': "k' < 64" "i < 64 \<and> (i < k \<or> i = 1 \<and> 0 < k) \<longleftrightarrow> i < 64 \<and> i < k'" for i
    using k(1) by (auto simp: k'_def)
  ultimately have "calc_mask capacity = mask k'"
    unfolding calc by (intro bit_word_eqI) (simp only: bit_mask_iff possible_bit_word k'(2), simp)
  with k'(1) show ?thesis by blast
qed


section \<open>Content and well-formedness under every operation\<close>

lemma hmap_bucket_less: "hmap_wf h \<Longrightarrow> hmap_bucket h k < length (buckets h)"
  using unat_and_mask_le [of k "hmask h"] by (simp add: hmap_wf_def hmap_bucket_def)

lemma hmap_node_bucket:
  assumes "hmap_wf h"
  shows "p \<in> set (hmap_nodes h) \<longleftrightarrow> p \<in> set (buckets h ! hmap_bucket h (fst p))"
proof
  assume "p \<in> set (hmap_nodes h)"
  then obtain b where b: "b \<in> set (buckets h)" "p \<in> set b" by (auto simp: hmap_nodes_def)
  then obtain i where "i < length (buckets h)" "p \<in> set (buckets h ! i)"
    by (metis in_set_conv_nth)
  with assms show "p \<in> set (buckets h ! hmap_bucket h (fst p))" by (auto simp: hmap_wf_def)
next
  assume "p \<in> set (buckets h ! hmap_bucket h (fst p))"
  with hmap_bucket_less [OF assms] show "p \<in> set (hmap_nodes h)"
    by (auto simp: hmap_nodes_def intro!: bexI [of _ "buckets h ! hmap_bucket h (fst p)"])
qed

lemma mset_concat_update:
  assumes "i < length xs"
  shows "mset (concat (xs[i := ys])) + mset (xs ! i) = mset (concat xs) + mset ys"
proof -
  have "xs = take i xs @ xs ! i # drop (Suc i) xs" using assms by (simp add: id_take_nth_drop)
  then have "mset (concat xs) = mset (concat (take i xs)) + mset (xs ! i) + mset (concat (drop (Suc i) xs))"
    by (metis concat.simps(2) concat_append mset_append union_assoc)
  moreover have "mset (concat (xs[i := ys])) = mset (concat (take i xs)) + mset ys + mset (concat (drop (Suc i) xs))"
    using assms by (simp add: upd_conv_take_nth_drop)
  ultimately show ?thesis by (simp add: ac_simps)
qed

lemma hmap_wf_init: "hmap_wf hmap_init" and hmap_nodes_init: "hmap_nodes hmap_init = []"
  by (auto simp: hmap_wf_def hmap_init_def hmap_nodes_def intro!: exI [of _ 0])

lemma hmap_empty_table:
  assumes "buckets h = replicate N []" and "N = unat (hmask h) + 1" and "hn h = 0"
    and "hmask h = mask k" and "k < 64"
  shows "hmap_wf h \<and> hmap_nodes h = []"
  using assms by (auto simp: hmap_wf_def hmap_nodes_def simp del: replicate_Suc)

text \<open>
  Well-formedness of a map whose buckets changed at one place only, reduced to what is new there.
\<close>

lemma hmap_wf_update:
  assumes "hmap_wf h" and "i = hmap_bucket h k"
    and "h' = h\<lparr>buckets := (buckets h)[i := ys], hn := n\<rparr>"
    and "mset (hmap_nodes h') = M" and "n = size M"
    and "distinct (map snd (hmap_nodes h'))"
    and "\<And>p. p \<in> set ys \<Longrightarrow> p \<in> set (buckets h ! i) \<or> hmap_bucket h (fst p) = i"
  shows "hmap_wf h'"
proof -
  have i: "i < length (buckets h)" using assms(1,2) hmap_bucket_less by simp
  have b: "hmap_bucket h' = hmap_bucket h" by (simp add: assms(3) hmap_bucket_def fun_eq_iff)
  have "length (hmap_nodes h') = size M" by (simp flip: assms(4))
  moreover have sel: "hn h' = n" "hmask h' = hmask h" "buckets h' = (buckets h)[i := ys]"
    unfolding assms(3) by simp_all
  ultimately have "hn h' = length (hmap_nodes h')" using assms(5) by simp
  moreover have "hmap_bucket h (fst p) = j" if "j < length (buckets h)" "p \<in> set ((buckets h)[i := ys] ! j)" for j p
    using assms(1) assms(7) [of p] that i by (cases "j = i") (auto simp: hmap_wf_def)
  ultimately show ?thesis
    using assms(1,6) unfolding hmap_wf_def b sel(2,3) by simp
qed

lemma nodes_insert_fast:
  assumes "hmap_wf h"
  shows "mset (hmap_nodes (hmap_insert_fast h x k)) = add_mset (k, x) (mset (hmap_nodes h))"
  using mset_concat_update [OF hmap_bucket_less [OF assms, of k],
      of "(k, x) # buckets h ! hmap_bucket h k"]
  by (simp add: hmap_insert_fast_def hmap_nodes_def Let_def)

lemma distinct_snd_mset:
  "mset ps = mset qs \<Longrightarrow> distinct (map snd ps) = distinct (map snd qs)"
  by (metis mset_eq_imp_distinct_iff mset_map)

lemma wf_insert_fast:
  assumes "hmap_wf h" and "x \<notin> snd ` set (hmap_nodes h)"
  shows "hmap_wf (hmap_insert_fast h x k)"
proof (rule hmap_wf_update [OF assms(1) refl _ nodes_insert_fast [OF assms(1)]])
  show "hmap_insert_fast h x k = h\<lparr>buckets := (buckets h)[hmap_bucket h k :=
      (k, x) # buckets h ! hmap_bucket h k], hn := Suc (hn h)\<rparr>"
    by (simp add: hmap_insert_fast_def Let_def)
  show "Suc (hn h) = size (add_mset (k, x) (mset (hmap_nodes h)))"
    using assms(1) by (simp add: hmap_wf_def)
  have "distinct (map snd ((k, x) # hmap_nodes h))" using assms by (auto simp: hmap_wf_def)
  then show "distinct (map snd (hmap_nodes (hmap_insert_fast h x k)))"
    using distinct_snd_mset [of "hmap_nodes (hmap_insert_fast h x k)" "(k, x) # hmap_nodes h"]
      nodes_insert_fast [OF assms(1), of x k] by simp
qed auto

lemma foldl_insert_fast:
  assumes "hmap_wf h" and "distinct (map snd (hmap_nodes h @ ps))"
  defines "h' \<equiv> foldl (\<lambda>tmp (k, x). hmap_insert_fast tmp x k) h ps"
  shows "hmap_wf h' \<and> mset (hmap_nodes h') = mset (hmap_nodes h) + mset ps \<and> hmask h' = hmask h"
  using assms(1,2) unfolding h'_def
proof (induction ps arbitrary: h)
  case (Cons p ps)
  obtain k x where p: "p = (k, x)" by (cases p)
  have x: "x \<notin> snd ` set (hmap_nodes h)" using Cons.prems(2) by (auto simp: p)
  have m: "mset (hmap_nodes (hmap_insert_fast h x k)) = add_mset (k, x) (mset (hmap_nodes h))"
    by (rule nodes_insert_fast [OF Cons.prems(1)])
  then have "distinct (map snd (hmap_nodes (hmap_insert_fast h x k) @ ps))"
    using Cons.prems(2) distinct_snd_mset [of "hmap_nodes (hmap_insert_fast h x k) @ ps" "hmap_nodes h @ p # ps"]
    by (simp add: p)
  moreover have "hmask (hmap_insert_fast h x k) = hmask h" by (simp add: hmap_insert_fast_def Let_def)
  ultimately show ?case
    using Cons.IH [OF wf_insert_fast [OF Cons.prems(1) x]] by (simp add: p m)
qed simp

lemma foldl_concat: "foldl (\<lambda>a xs. foldl f a xs) a xss = foldl f a (concat xss)"
  by (induction xss arbitrary: a) simp_all

lemma resize_correct:
  assumes "hmap_wf h" and "k < 64" and "new_mask = mask k"
  shows "hmap_wf (resize h new_mask) \<and> mset (hmap_nodes (resize h new_mask)) = mset (hmap_nodes h)
    \<and> hmask (resize h new_mask) = new_mask"
proof -
  define tmp :: "'a hmap" where
    "tmp = \<lparr>buckets = replicate (unat new_mask + 1) [], hmask = new_mask, hn = 0\<rparr>"
  have tmp: "hmap_wf tmp" "hmap_nodes tmp = []"
    using hmap_empty_table [of tmp "unat new_mask + 1" k] assms(2,3) by (simp_all add: tmp_def)
  have "resize h new_mask = foldl (\<lambda>tmp (k, x). hmap_insert_fast tmp x k) tmp (hmap_nodes h)"
    by (auto simp: resize_def foldl_concat hmap_nodes_def tmp_def hmap_init_def Let_def)
  moreover have "distinct (map snd (hmap_nodes tmp @ hmap_nodes h))"
    using assms(1) by (simp add: tmp hmap_wf_def)
  ultimately show ?thesis
    using foldl_insert_fast [OF tmp(1)] by (simp add: tmp(2)) (simp add: tmp_def)
qed

lemma resize_calc_mask:
  assumes "hmap_wf h"
  shows "hmap_wf (resize h (calc_mask c)) \<and> mset (hmap_nodes (resize h (calc_mask c))) = mset (hmap_nodes h)"
proof -
  obtain k where "k < 64" "calc_mask c = mask k" using calc_mask_mask by blast
  with resize_correct [OF assms this] show ?thesis by simp
qed

lemma hmap_expand_correct:
  "hmap_wf h \<Longrightarrow> hmap_wf (hmap_expand h) \<and> mset (hmap_nodes (hmap_expand h)) = mset (hmap_nodes h)"
  by (simp add: hmap_expand_def Let_def resize_calc_mask)

lemma hmap_shrink_correct:
  "hmap_wf h \<Longrightarrow> hmap_wf (hmap_shrink h) \<and> mset (hmap_nodes (hmap_shrink h)) = mset (hmap_nodes h)"
  by (simp add: hmap_shrink_def Let_def resize_calc_mask)

lemma hmap_reserve_correct:
  "hmap_wf h \<Longrightarrow> hmap_wf (hmap_reserve h c) \<and> mset (hmap_nodes (hmap_reserve h c)) = mset (hmap_nodes h)"
  by (simp add: hmap_reserve_def Let_def resize_calc_mask)

lemma hmap_insert_correct:
  assumes "hmap_wf h" and "x \<notin> snd ` set (hmap_nodes h)"
  shows "hmap_wf (hmap_insert h x k) \<and>
    mset (hmap_nodes (hmap_insert h x k)) = add_mset (k, x) (mset (hmap_nodes h))"
  using wf_insert_fast [OF assms] nodes_insert_fast [OF assms(1)]
    hmap_expand_correct [OF wf_insert_fast [OF assms]]
  by (simp add: hmap_insert_def Let_def)

lemma hmap_clear_correct:
  assumes "hmap_wf h"
  shows "hmap_wf (hmap_clear h) \<and> hmap_nodes (hmap_clear h) = []"
proof (cases "hn h > 0")
  case True
  obtain k where "k < 64" "hmask h = mask k" using assms by (auto simp: hmap_wf_def)
  with True show ?thesis
    using hmap_empty_table [of "hmap_clear h" "unat (hmask h) + 1" k] by (simp add: hmap_clear_def)
next
  case False
  then show ?thesis using assms by (simp add: hmap_clear_def hmap_wf_def)
qed

lemma mset_chain_remove:
  "distinct (map snd c) \<Longrightarrow> p \<in> set c \<Longrightarrow> mset (chain_remove c (snd p)) = mset c - {#p#}"
  by (induction c) (auto simp: image_iff)

lemma mset_chain_replace:
  "distinct (map snd c) \<Longrightarrow> p \<in> set c \<Longrightarrow>
   mset (chain_replace c (snd p) y) = add_mset (fst p, y) (mset c - {#p#})"
  by (induction c) (auto simp: image_iff)

lemma hmap_bucket_distinct:
  assumes "hmap_wf h"
  shows "distinct (map snd (buckets h ! hmap_bucket h k))"
proof -
  have "buckets h ! hmap_bucket h k \<in> set (buckets h)" using hmap_bucket_less [OF assms] by simp
  then obtain as bs where "buckets h = as @ (buckets h ! hmap_bucket h k) # bs" by (meson split_list)
  then have "hmap_nodes h = concat as @ buckets h ! hmap_bucket h k @ concat bs"
    unfolding hmap_nodes_def by (metis concat.simps(2) concat_append)
  with assms show ?thesis by (simp add: hmap_wf_def)
qed

lemma add_eq_diff_mset: "M + A = N + B \<Longrightarrow> B = A - {#p#} \<Longrightarrow> p \<in># A \<Longrightarrow> M = N - {#p#}"
  by (metis add_mset_remove_trivial add_mset_add_single insert_DiffM union_assoc union_commute
      add_right_cancel)

lemma nodes_remove:
  assumes "hmap_wf h" and "p \<in> set (hmap_nodes h)"
  shows "mset (hmap_nodes (hmap_remove h p)) = mset (hmap_nodes h) - {#p#}"
proof -
  let ?i = "hmap_bucket h (fst p)"
  have p: "p \<in> set (buckets h ! ?i)" using assms hmap_node_bucket by blast
  have "mset (chain_remove (buckets h ! ?i) (snd p)) = mset (buckets h ! ?i) - {#p#}"
    using mset_chain_remove [OF hmap_bucket_distinct [OF assms(1)] p] .
  from add_eq_diff_mset [OF mset_concat_update [OF hmap_bucket_less [OF assms(1)]] this] p
  show ?thesis by (simp add: hmap_remove_def hmap_nodes_def Let_def)
qed

lemma nodes_replace:
  assumes "hmap_wf h" and "p \<in> set (hmap_nodes h)"
  shows "mset (hmap_nodes (hmap_replace h p y)) = add_mset (fst p, y) (mset (hmap_nodes h) - {#p#})"
proof -
  let ?i = "hmap_bucket h (fst p)"
  let ?c = "buckets h ! ?i"
  have p: "p \<in> set ?c" using assms hmap_node_bucket by blast
  have "mset (chain_replace ?c (snd p) y) = add_mset (fst p, y) (mset ?c - {#p#})"
    using mset_chain_replace [OF hmap_bucket_distinct [OF assms(1)] p] .
  then have "mset (hmap_nodes (hmap_replace h p y)) + mset ?c =
      add_mset (fst p, y) (mset (hmap_nodes h)) + (mset ?c - {#p#})"
    using mset_concat_update [OF hmap_bucket_less [OF assms(1), of "fst p"], of "chain_replace ?c (snd p) y"]
    by (simp add: hmap_replace_def hmap_nodes_def Let_def)
  from add_eq_diff_mset [OF this refl] p
  have "mset (hmap_nodes (hmap_replace h p y)) = add_mset (fst p, y) (mset (hmap_nodes h)) - {#p#}"
    by simp
  then show ?thesis using assms(2) by (simp add: diff_add_mset_swap)
qed

lemma set_chain_remove: "set (chain_remove c x) \<subseteq> set c"
  by (induction c) auto

lemma set_chain_replace: "p \<in> set (chain_replace c x y) \<Longrightarrow> p \<in> set c \<or> (\<exists>q \<in> set c. snd q = x \<and> p = (fst q, y))"
  by (induction c) (auto split: if_splits)

lemma mset_nodes_member: "mset ps = M \<Longrightarrow> p \<in> set ps \<longleftrightarrow> p \<in># M"
  by auto

lemma wf_remove:
  assumes "hmap_wf h" and "p \<in> set (hmap_nodes h)"
  shows "hmap_wf (hmap_remove h p)"
proof (rule hmap_wf_update [OF assms(1) refl _ nodes_remove [OF assms]])
  show "hmap_remove h p = h\<lparr>buckets := (buckets h)[hmap_bucket h (fst p) :=
      chain_remove (buckets h ! hmap_bucket h (fst p)) (snd p)], hn := hn h - 1\<rparr>"
    by (simp add: hmap_remove_def Let_def)
  show "hn h - 1 = size (mset (hmap_nodes h) - {#p#})"
    using assms by (simp add: hmap_wf_def size_Diff_singleton)
  obtain as bs where ab: "hmap_nodes h = as @ p # bs" using assms(2) by (meson split_list)
  then have "mset (hmap_nodes (hmap_remove h p)) = mset (as @ bs)" using nodes_remove [OF assms] by simp
  moreover have "distinct (map snd (as @ bs))" using assms(1) unfolding hmap_wf_def ab by auto
  ultimately show "distinct (map snd (hmap_nodes (hmap_remove h p)))" using distinct_snd_mset by blast
qed (use set_chain_remove in fastforce)

lemma wf_replace:
  assumes "hmap_wf h" and "p \<in> set (hmap_nodes h)" and "y \<notin> snd ` set (hmap_nodes h)"
  shows "hmap_wf (hmap_replace h p y)"
proof (rule hmap_wf_update [OF assms(1) refl _ nodes_replace [OF assms(1,2)]])
  let ?i = "hmap_bucket h (fst p)"
  show "hmap_replace h p y =
      h\<lparr>buckets := (buckets h)[?i := chain_replace (buckets h ! ?i) (snd p) y], hn := hn h\<rparr>"
    by (simp add: hmap_replace_def Let_def)
  have "hn h = size (mset (hmap_nodes h))" using assms(1) by (simp add: hmap_wf_def)
  also have "mset (hmap_nodes h) = add_mset p (mset (hmap_nodes h) - {#p#})" using assms(2) by simp
  finally show "hn h = size (add_mset (fst p, y) (mset (hmap_nodes h) - {#p#}))" by simp
  obtain as bs where ab: "hmap_nodes h = as @ p # bs" using assms(2) by (meson split_list)
  then have "mset (hmap_nodes (hmap_replace h p y)) = mset ((fst p, y) # as @ bs)"
    using nodes_replace [OF assms(1,2), of y] by simp
  moreover have "distinct (map snd ((fst p, y) # as @ bs))"
    using assms(1,3) unfolding hmap_wf_def ab by auto
  ultimately show "distinct (map snd (hmap_nodes (hmap_replace h p y)))"
    using distinct_snd_mset by blast
next
  fix q assume "q \<in> set (chain_replace (buckets h ! hmap_bucket h (fst p)) (snd p) y)"
  then show "q \<in> set (buckets h ! hmap_bucket h (fst p)) \<or> hmap_bucket h (fst q) = hmap_bucket h (fst p)"
    using set_chain_replace [of q] assms(1) hmap_bucket_less [OF assms(1)] by (fastforce simp: hmap_wf_def)
qed

section \<open>Search and iteration\<close>

lemma for_each_with_hash_eq:
  "for_each_with_hash (hmap_next_with_hash_from c k) = map snd (filter (\<lambda>p. fst p = k) c)"
  by (induction c rule: length_induct)
    (case_tac xs; auto simp: hmap_next_with_hash_from_def)

lemma HMAP_FOR_EACH_WITH_HASH_eq:
  "HMAP_FOR_EACH_WITH_HASH h k = map snd (filter (\<lambda>p. fst p = k) (buckets h ! hmap_bucket h k))"
  by (simp add: HMAP_FOR_EACH_WITH_HASH_def hmap_first_with_hash_def for_each_with_hash_eq)

lemma HMAP_FOR_EACH_WITH_HASH_set:
  assumes "hmap_wf h"
  shows "x \<in> set (HMAP_FOR_EACH_WITH_HASH h k) \<longleftrightarrow> (k, x) \<in> set (hmap_nodes h)"
  using hmap_node_bucket [OF assms, of "(k, x)"]
  by (auto simp: HMAP_FOR_EACH_WITH_HASH_eq image_iff)

lemma HMAP_FOR_EACH_WITH_HASH_distinct:
  "hmap_wf h \<Longrightarrow> distinct (HMAP_FOR_EACH_WITH_HASH h k)"
  using hmap_bucket_distinct [of h k] by (simp add: HMAP_FOR_EACH_WITH_HASH_eq distinct_map_filter)

lemma HMAP_FOR_EACH_IN_BUCKET_set:
  assumes "hmap_wf h"
  shows "x \<in> set (HMAP_FOR_EACH_IN_BUCKET h k) \<longleftrightarrow>
    (\<exists>k'. (k', x) \<in> set (hmap_nodes h) \<and> hmap_bucket h k' = hmap_bucket h k)"
proof -
  have "p \<in> set (buckets h ! hmap_bucket h k) \<longleftrightarrow>
      p \<in> set (hmap_nodes h) \<and> hmap_bucket h (fst p) = hmap_bucket h k" for p
    using hmap_node_bucket [OF assms, of p] hmap_bucket_less [OF assms, of k] assms
    by (auto simp: hmap_wf_def)
  then show ?thesis by (force simp: HMAP_FOR_EACH_IN_BUCKET_def hmap_first_in_bucket_def)
qed

lemma hmap_contains_from_iff: "hmap_contains_from c x \<longleftrightarrow> x \<in> snd ` set c"
  by (induction c) auto

lemma hmap_contains_iff:
  assumes "hmap_wf h" and "\<And>k'. (k', x) \<in> set (hmap_nodes h) \<Longrightarrow> k' = k"
  shows "hmap_contains h (k, x) \<longleftrightarrow> (k, x) \<in> set (hmap_nodes h)"
  using HMAP_FOR_EACH_IN_BUCKET_set [OF assms(1), of x k] assms(2)
  by (auto simp: hmap_contains_def hmap_contains_from_iff HMAP_FOR_EACH_IN_BUCKET_def)

text \<open>The nodes an iteration that stands at a node pointer has yet to visit.\<close>

definition nodes_from :: "'a hmap \<Rightarrow> 'a hmap_node list \<Rightarrow> 'a hmap_node list" where
  "nodes_from h node =
     (case node of [] \<Rightarrow> []
      | p # ps \<Rightarrow> node @ concat (drop (hmap_bucket h (fst p) + 1) (buckets h)))"

definition one_bucket :: "'a hmap \<Rightarrow> 'a hmap_node list \<Rightarrow> bool" where
  "one_bucket h node \<longleftrightarrow> (\<exists>i. \<forall>p \<in> set node. hmap_bucket h (fst p) = i)"

lemma nodes_from_Cons:
  "nodes_from h (p # ps) = p # ps @ concat (drop (Suc (hmap_bucket h (fst p))) (buckets h))"
  by (simp add: nodes_from_def)

lemma concat_drop_step:
  "i < length xs \<Longrightarrow> concat (drop i xs) = xs ! i @ concat (drop (Suc i) xs)"
  by (metis Cons_nth_drop_Suc concat.simps(2))

lemma hmap_next_from_rest:
  assumes "hmap_wf h"
  shows "nodes_from h (hmap_next_from h i) = concat (drop i (buckets h)) \<and>
    one_bucket h (hmap_next_from h i)"
proof (induction "length (buckets h) - i" arbitrary: i)
  case 0
  then have "\<not> i \<le> unat (hmask h)" using assms by (simp add: hmap_wf_def)
  then show ?case using 0 by (simp add: hmap_next_from.simps [of h i] nodes_from_def one_bucket_def)
next
  case (Suc n)
  then have i: "i < length (buckets h)" "i \<le> unat (hmask h)" using assms by (simp_all add: hmap_wf_def)
  show ?case
  proof (cases "buckets h ! i")
    case Nil
    then show ?thesis
      using Suc.hyps(1) [of "Suc i"] Suc.hyps(2) i
      by (simp add: hmap_next_from.simps [of h i] concat_drop_step)
  next
    case (Cons p ps)
    have "\<forall>q \<in> set (buckets h ! i). hmap_bucket h (fst q) = i" using assms i(1) by (simp add: hmap_wf_def)
    then show ?thesis
      using i Cons by (simp add: hmap_next_from.simps [of h i] concat_drop_step nodes_from_def one_bucket_def)
  qed
qed

lemma hmap_next_rest:
  assumes "hmap_wf h" and "node \<noteq> []" and "one_bucket h node"
  shows "nodes_from h (hmap_next h node) = tl (nodes_from h node) \<and>
    one_bucket h (hmap_next h node)"
proof (cases node)
  case (Cons p ps)
  have "nodes_from h node = p # nodes_from h ps" if "ps \<noteq> []"
    using assms(3) that unfolding Cons one_bucket_def by (cases ps) (auto simp: nodes_from_def)
  moreover have "one_bucket h ps" using assms(3) unfolding Cons one_bucket_def by auto
  ultimately show ?thesis
    using hmap_next_from_rest [OF assms(1), of "hmap_bucket h (fst p) + 1"] by (simp add: Cons nodes_from_Cons)
qed (use assms(2) in simp)

lemma for_each_rest:
  assumes "hmap_wf h" and "one_bucket h node"
  shows "for_each h node = Some (map snd (nodes_from h node))"
  using assms(2)
proof (induction "length (nodes_from h node)" arbitrary: node)
  case 0
  then have "node = []" by (cases node) (simp_all add: nodes_from_def)
  then show ?case by (simp add: for_each.simps [of h "[]"] nodes_from_def)
next
  case (Suc n)
  then obtain p ps where node: "node = p # ps" by (cases node) (simp_all add: nodes_from_def)
  have rest: "nodes_from h (hmap_next h node) = tl (nodes_from h node)" "one_bucket h (hmap_next h node)"
    using hmap_next_rest [OF assms(1) _ Suc.prems] node by simp_all
  have hd: "nodes_from h node = p # tl (nodes_from h node)" by (simp add: node nodes_from_def)
  have "for_each h (hmap_next h node) = Some (map snd (tl (nodes_from h node)))"
    using Suc.hyps(1) [OF _ rest(2)] Suc.hyps(2) rest(1) by simp
  then show ?case using hd by (subst for_each.simps) (simp add: node, metis list.simps(9) node)
qed

lemma for_each_eq:
  assumes "hmap_wf h"
  shows "for_each h (hmap_first h) = Some (map snd (hmap_nodes h))"
  using for_each_rest [OF assms, of "hmap_first h"] hmap_next_from_rest [OF assms, of 0]
  by (simp add: hmap_first_def hmap_nodes_def)

lemma HMAP_FOR_EACH_eq: "hmap_wf h \<Longrightarrow> HMAP_FOR_EACH h = map snd (hmap_nodes h)"
  by (simp add: HMAP_FOR_EACH_def for_each_eq)

text \<open>The same for a position of \<^verbatim>\<open>hmap_at_position\<close>.\<close>

definition nodes_at :: "'a hmap \<Rightarrow> nat \<Rightarrow> nat \<Rightarrow> 'a hmap_node list" where
  "nodes_at h b_idx offset =
     (if b_idx < length (buckets h)
      then drop offset (buckets h ! b_idx) @ concat (drop (Suc b_idx) (buckets h))
      else [])"

lemma nodes_at_0: "nodes_at h i 0 = concat (drop i (buckets h))"
  by (simp add: nodes_at_def concat_drop_step)

lemma unat_word_of_nat_32: "n < 2 ^ 32 \<Longrightarrow> unat (word_of_nat n :: u32) = n"
  by (simp add: unat_of_nat)

lemma length_nth_concat: "i < length xs \<Longrightarrow> length (xs ! i) \<le> length (concat xs)"
  using elem_le_sum_list [of i "map length xs"] by (simp add: length_concat)

lemma hmap_at_position_rest:
  assumes "hmap_wf h" and "unat (hmask h) + 1 < 2 ^ 32" and "hn h < 2 ^ 32"
    and "hmap_at_position_from h i ofs = (r, b', o')"
  shows "case r of
      None \<Rightarrow> nodes_at h i ofs = []
    | Some x \<Rightarrow> nodes_at h i ofs \<noteq> [] \<and> x = snd (hd (nodes_at h i ofs)) \<and>
        nodes_at h (unat b') (unat o') = tl (nodes_at h i ofs)"
  using assms(4)
proof (induction "length (buckets h) - i" arbitrary: i ofs)
  case 0
  then have "\<not> i \<le> unat (hmask h)" using assms(1) by (simp add: hmap_wf_def)
  then show ?case using 0 by (simp add: hmap_at_position_from.simps [of h i] nodes_at_def)
next
  case (Suc n)
  then have i: "i < length (buckets h)" "i \<le> unat (hmask h)" using assms(1) by (simp_all add: hmap_wf_def)
  let ?c = "buckets h ! i"
  show ?case
  proof (cases "ofs < length ?c")
    case False
    then have "nodes_at h i ofs = nodes_at h (Suc i) 0"
      using i unfolding nodes_at_0 by (simp add: nodes_at_def)
    moreover have "n = length (buckets h) - Suc i" using Suc.hyps(2) by simp
    moreover have "hmap_at_position_from h (Suc i) 0 = (r, b', o')"
      using Suc.prems False i(2) by (simp add: hmap_at_position_from.simps [of h i] Let_def)
    ultimately show ?thesis using Suc.hyps(1) [of "Suc i" 0] by (cases r) simp_all
  next
    case True
    have b: "hmap_bucket h (fst (?c ! ofs)) = i" using assms(1) i(1) True by (simp add: hmap_wf_def)
    have "length ?c \<le> length (hmap_nodes h)"
      unfolding hmap_nodes_def by (rule length_nth_concat) (rule i(1))
    then have bound: "ofs + 1 < 2 ^ 32" "i + 1 < 2 ^ 32"
      using True assms(1-3) i(2) by (simp_all add: hmap_wf_def)
    have c: "drop ofs ?c = ?c ! ofs # drop (Suc ofs) ?c" using True by (simp add: Cons_nth_drop_Suc)
    have r: "r = Some (snd (?c ! ofs))"
      and b': "(b', o') = (if ofs + 1 < length ?c then (word_of_nat i, word_of_nat (ofs + 1))
                       else (word_of_nat (i + 1), 0))"
      using Suc.prems True i(2) b by (auto simp: hmap_at_position_from.simps [of h i] Let_def split: if_splits)
    have "nodes_at h (unat b') (unat o') = drop (Suc ofs) ?c @ concat (drop (Suc i) (buckets h))"
    proof (cases "ofs + 1 < length ?c")
      case True
      then have "unat b' = i" "unat o' = ofs + 1"
        using b' bound unat_word_of_nat_32 [of i] unat_word_of_nat_32 [of "ofs + 1"] by simp_all
      then show ?thesis using i(1) by (simp add: nodes_at_def)
    next
      case False
      then have "unat b' = i + 1" "unat o' = 0"
        using b' bound unat_word_of_nat_32 [of "i + 1"] by simp_all
      then show ?thesis using False by (simp add: nodes_at_0)
    qed
    then show ?thesis using i(1) c by (simp add: r nodes_at_def)
  qed
qed

lemma hmap_at_position_step:
  assumes "hmap_wf h" and "unat (hmask h) + 1 < 2 ^ 32" and "hn h < 2 ^ 32"
    and "hmap_at_position h (b, ofs) = (r, b', ofs')"
  shows "case r of
      None \<Rightarrow> nodes_at h (unat b) (unat ofs) = []
    | Some x \<Rightarrow> nodes_at h (unat b) (unat ofs) \<noteq> [] \<and> x = snd (hd (nodes_at h (unat b) (unat ofs))) \<and>
        nodes_at h (unat b') (unat ofs') = tl (nodes_at h (unat b) (unat ofs))"
  using hmap_at_position_rest [OF assms(1-3)] assms(4) by (simp add: hmap_at_position_def)

section \<open>The load of the table\<close>

lemma word_bits_le:
  fixes a b :: "'a::len word"
  assumes "\<And>i. bit a i \<Longrightarrow> bit b i"
  shows "unat a \<le> unat b"
proof -
  have "a = a AND b" using assms by (intro bit_word_eqI) (auto simp: bit_and_iff)
  then show ?thesis using unat_and_mask_le [of a b] by simp
qed

lemma calc_mask_ge: "unat c div 2 \<le> unat (calc_mask c)"
proof -
  have "unat (drop_bit 1 c) \<le> unat (calc_mask c)"
    by (rule word_bits_le) (simp add: calc_mask_def Let_def bit_or_iff)
  moreover have "unat (drop_bit 1 c) = unat c div 2"
    unfolding unat_drop_bit_eq by (simp add: drop_bit_eq_div)
  ultimately show ?thesis by simp
qed

lemma resize_hmask:
  assumes "hmap_wf h"
  shows "hmask (resize h (calc_mask c)) = calc_mask c"
proof -
  obtain k where "k < 64" "calc_mask c = mask k" using calc_mask_mask by blast
  with resize_correct [OF assms this] show ?thesis by simp
qed

lemma hmap_expand_load:
  assumes "hmap_wf h" and "hn h < 2 ^ 64"
  shows "hn (hmap_expand h) div 2 \<le> unat (hmask (hmap_expand h))"
proof -
  let ?c = "word_of_nat (hn h) :: u64"
  have "hn (hmap_expand h) = hn h"
    using hmap_expand_correct [OF assms(1)] assms(1) mset_eq_length unfolding hmap_wf_def by metis
  moreover have "hn h div 2 \<le> unat (calc_mask ?c)"
    using calc_mask_ge [of ?c] assms(2) by (simp add: unat_of_nat)
  ultimately show ?thesis
    using resize_hmask [OF assms(1), of ?c]
    by (cases "calc_mask ?c > hmask h") (simp_all add: hmap_expand_def Let_def word_less_nat_alt)
qed

section \<open>The interface\<close>

text \<open>
  What the rest of the program relies on: a set of objects, each under the hash it was inserted
  with. An object is inserted only while it is not in the map, and removed only while it is.
\<close>

locale hash_bag =
  fixes invar :: "'m \<Rightarrow> bool" and nodes :: "'m \<Rightarrow> (u64 \<times> 'a) set" and empty :: 'm
    and insert_obj :: "'m \<Rightarrow> 'a \<Rightarrow> u64 \<Rightarrow> 'm" and remove_node :: "'m \<Rightarrow> u64 \<times> 'a \<Rightarrow> 'm"
    and with_hash :: "'m \<Rightarrow> u64 \<Rightarrow> 'a list" and in_bucket :: "'m \<Rightarrow> u64 \<Rightarrow> 'a list"
    and count :: "'m \<Rightarrow> nat"
  assumes invar_empty: "invar empty"
    and nodes_empty: "nodes empty = {}"
    and invar_insert: "invar m \<Longrightarrow> x \<notin> snd ` nodes m \<Longrightarrow> invar (insert_obj m x k)"
    and nodes_insert: "invar m \<Longrightarrow> x \<notin> snd ` nodes m \<Longrightarrow> nodes (insert_obj m x k) = insert (k, x) (nodes m)"
    and invar_remove: "invar m \<Longrightarrow> p \<in> nodes m \<Longrightarrow> invar (remove_node m p)"
    and nodes_removed: "invar m \<Longrightarrow> p \<in> nodes m \<Longrightarrow> nodes (remove_node m p) = nodes m - {p}"
    and set_with_hash: "invar m \<Longrightarrow> set (with_hash m k) = {x. (k, x) \<in> nodes m}"
    and in_bucket_hash: "invar m \<Longrightarrow> {x. (k, x) \<in> nodes m} \<subseteq> set (in_bucket m k)"
    and in_bucket_nodes: "invar m \<Longrightarrow> set (in_bucket m k) \<subseteq> snd ` nodes m"
    and one_node: "invar m \<Longrightarrow> inj_on snd (nodes m)"
    and finite_nodes: "invar m \<Longrightarrow> finite (nodes m)"
    and count_nodes: "invar m \<Longrightarrow> count m = card (nodes m)"
begin

lemma insert_remove:
  assumes "invar m" and "x \<notin> snd ` nodes m"
  shows "nodes (remove_node (insert_obj m x k) (k, x)) = nodes m"
proof -
  have "(k, x) \<notin> nodes m" using assms(2) by force
  then show ?thesis using assms by (simp add: nodes_removed nodes_insert invar_insert)
qed

lemma count_insert:
  assumes "invar m" and "x \<notin> snd ` nodes m"
  shows "count (insert_obj m x k) = count m + 1"
proof -
  have "(k, x) \<notin> nodes m" using assms(2) by force
  then show ?thesis using assms by (simp add: count_nodes invar_insert nodes_insert finite_nodes)
qed

lemma count_remove: "invar m \<Longrightarrow> p \<in> nodes m \<Longrightarrow> count (remove_node m p) = count m - 1"
  by (simp add: count_nodes invar_remove nodes_removed finite_nodes)

lemma removed_notin: "invar m \<Longrightarrow> (k, x) \<in> nodes m \<Longrightarrow> x \<notin> snd ` nodes (remove_node m (k, x))"
  using inj_onD [OF one_node, of m "(k, x)"] by (auto simp: nodes_removed)

end

text \<open>
  The usual client: objects have a key, the hash of an object is a function of its key, and a
  search goes through the objects of a hash and compares keys.
\<close>

locale keyed_hash_bag = hash_bag invar nodes empty insert_obj remove_node with_hash in_bucket count
  for invar :: "'m \<Rightarrow> bool" and nodes :: "'m \<Rightarrow> (u64 \<times> 'a) set" and empty :: 'm
    and insert_obj :: "'m \<Rightarrow> 'a \<Rightarrow> u64 \<Rightarrow> 'm" and remove_node :: "'m \<Rightarrow> u64 \<times> 'a \<Rightarrow> 'm"
    and with_hash :: "'m \<Rightarrow> u64 \<Rightarrow> 'a list" and in_bucket :: "'m \<Rightarrow> u64 \<Rightarrow> 'a list"
    and count :: "'m \<Rightarrow> nat" +
  fixes key :: "'a \<Rightarrow> 'k" and key_hash :: "'k \<Rightarrow> u64"
begin

text \<open>
  Both loops find an object exactly where there is one with the key: \<open>xs\<close> stands for what the
  loop visits.
\<close>

lemma find_key:
  assumes "\<forall>(k, x) \<in> nodes m. k = key_hash (key x)" and "inj_on key (snd ` nodes m)"
    and "{x. (key_hash q, x) \<in> nodes m} \<subseteq> set xs" and "set xs \<subseteq> snd ` nodes m"
  shows "List.find (\<lambda>x. key x = q) xs = Some x \<longleftrightarrow> x \<in> snd ` nodes m \<and> key x = q"
proof
  assume "List.find (\<lambda>x. key x = q) xs = Some x"
  then have "x \<in> set xs" "key x = q" by (auto simp: find_Some_iff)
  with assms(4) show "x \<in> snd ` nodes m \<and> key x = q" by auto
next
  assume x: "x \<in> snd ` nodes m \<and> key x = q"
  then have "x \<in> set xs" using assms(1,3) by fastforce
  then have "List.find (\<lambda>x. key x = q) xs \<noteq> None" using x by (auto simp: find_None_iff)
  then obtain y where y: "List.find (\<lambda>x. key x = q) xs = Some y" by blast
  then have "y \<in> set xs" "key y = q" by (auto simp: find_Some_iff)
  with x assms(2,4) have "y = x" by (blast dest: inj_onD)
  with y show "List.find (\<lambda>x. key x = q) xs = Some x" by simp
qed

lemma find_with_hash:
  assumes "invar m" and "\<forall>(k, x) \<in> nodes m. k = key_hash (key x)" and "inj_on key (snd ` nodes m)"
  shows "List.find (\<lambda>x. key x = q) (with_hash m (key_hash q)) = Some x \<longleftrightarrow> x \<in> snd ` nodes m \<and> key x = q"
  using assms by (intro find_key) (auto simp: set_with_hash intro: rev_image_eqI)

lemma find_in_bucket:
  assumes "invar m" and "\<forall>(k, x) \<in> nodes m. k = key_hash (key x)" and "inj_on key (snd ` nodes m)"
  shows "List.find (\<lambda>x. key x = q) (in_bucket m (key_hash q)) = Some x \<longleftrightarrow> x \<in> snd ` nodes m \<and> key x = q"
  using assms in_bucket_hash in_bucket_nodes by (intro find_key) auto

end


lemma hmap_wf_distinct: "hmap_wf h \<Longrightarrow> distinct (hmap_nodes h)"
  by (simp add: hmap_wf_def distinct_map)

interpretation hmap_bag: hash_bag hmap_wf hmap_node_set hmap_init hmap_insert hmap_remove
  HMAP_FOR_EACH_WITH_HASH HMAP_FOR_EACH_IN_BUCKET hmap_count
proof unfold_locales
  fix m :: "'a hmap" and x :: 'a and k :: u64 and p
  show "hmap_wf (hmap_init :: 'a hmap)" by (rule hmap_wf_init)
  show "hmap_node_set (hmap_init :: 'a hmap) = {}" by (simp add: hmap_node_set_def hmap_nodes_init)
  assume wf: "hmap_wf m"
  show "hmap_wf (hmap_insert m x k)" if "x \<notin> snd ` hmap_node_set m"
    using hmap_insert_correct [OF wf] that by (simp add: hmap_node_set_def)
  show "hmap_node_set (hmap_insert m x k) = insert (k, x) (hmap_node_set m)" if "x \<notin> snd ` hmap_node_set m"
    using hmap_insert_correct [OF wf, of x k] that mset_eq_setD [of "hmap_nodes (hmap_insert m x k)" "(k, x) # hmap_nodes m"]
    by (simp add: hmap_node_set_def)
  show "hmap_wf (hmap_remove m p)" if "p \<in> hmap_node_set m"
    using wf_remove [OF wf] that by (simp add: hmap_node_set_def)
  show "hmap_node_set (hmap_remove m p) = hmap_node_set m - {p}" if "p \<in> hmap_node_set m"
  proof -
    have p: "p \<in> set (hmap_nodes m)" using that by (simp add: hmap_node_set_def)
    then obtain as bs where ab: "hmap_nodes m = as @ p # bs" by (meson split_list)
    then have "mset (hmap_nodes (hmap_remove m p)) = mset (as @ bs)" using nodes_remove [OF wf p] by simp
    then have "hmap_node_set (hmap_remove m p) = set (as @ bs)"
      unfolding hmap_node_set_def by (rule mset_eq_setD)
    moreover have "p \<notin> set (as @ bs)" using hmap_wf_distinct [OF wf] by (simp add: ab)
    ultimately show ?thesis by (auto simp: hmap_node_set_def ab)
  qed
  show "set (HMAP_FOR_EACH_WITH_HASH m k) = {x. (k, x) \<in> hmap_node_set m}"
    using HMAP_FOR_EACH_WITH_HASH_set [OF wf] by (auto simp: hmap_node_set_def)
  show "{x. (k, x) \<in> hmap_node_set m} \<subseteq> set (HMAP_FOR_EACH_IN_BUCKET m k)"
    using HMAP_FOR_EACH_IN_BUCKET_set [OF wf] by (auto simp: hmap_node_set_def)
  show "set (HMAP_FOR_EACH_IN_BUCKET m k) \<subseteq> snd ` hmap_node_set m"
    using HMAP_FOR_EACH_IN_BUCKET_set [OF wf] by (force simp: hmap_node_set_def)
  show "inj_on snd (hmap_node_set m)" using wf by (simp add: hmap_wf_def hmap_node_set_def distinct_map)
  show "finite (hmap_node_set m)" by (simp add: hmap_node_set_def)
  show "hmap_count m = card (hmap_node_set m)"
    using wf hmap_wf_distinct [OF wf]
    by (simp add: hmap_count_def hmap_node_set_def hmap_wf_def distinct_card)
qed

text \<open>
  Replacement by value: the new object takes the place of the old one under the same hash. The
  same holds of an update in place of an object that is in the map.
\<close>

lemma hmap_replace_set:
  assumes "hmap_wf h" and "(k, x) \<in> hmap_node_set h" and "y \<notin> snd ` hmap_node_set h"
  shows "hmap_wf (hmap_replace h (k, x) y) \<and>
    hmap_node_set (hmap_replace h (k, x) y) = insert (k, y) (hmap_node_set h - {(k, x)})"
proof -
  have x: "(k, x) \<in> set (hmap_nodes h)" using assms(2) by (simp add: hmap_node_set_def)
  then obtain as bs where ab: "hmap_nodes h = as @ (k, x) # bs" by (meson split_list)
  then have "mset (hmap_nodes (hmap_replace h (k, x) y)) = mset ((k, y) # as @ bs)"
    using nodes_replace [OF assms(1) x, of y] by simp
  then have "hmap_node_set (hmap_replace h (k, x) y) = set ((k, y) # as @ bs)"
    unfolding hmap_node_set_def by (rule mset_eq_setD)
  moreover have "(k, x) \<notin> set (as @ bs)" using hmap_wf_distinct [OF assms(1)] by (simp add: ab)
  ultimately show ?thesis
    using wf_replace [OF assms(1) x] assms(3) by (auto simp: hmap_node_set_def ab)
qed

section \<open>Properties\<close>

text \<open>
  C10. Every operation of the map keeps it well formed and changes the bag of its (hash, object)
  nodes in the way it promises: insertion adds the node, removal takes out exactly the given
  node, replacement substitutes the new object under the old hash, and growing, shrinking,
  reserving keep the bag, whatever the masks of the old and the new table.
\<close>

theorem hmap_operations:
  assumes "hmap_wf h" and "(k, x) \<in> set (hmap_nodes h)" and "y \<notin> snd ` set (hmap_nodes h)"
  shows "hmap_wf (hmap_insert h y j) \<and>
      mset (hmap_nodes (hmap_insert h y j)) = add_mset (j, y) (mset (hmap_nodes h)) \<and>
    hmap_wf (hmap_remove h (k, x)) \<and>
      add_mset (k, x) (mset (hmap_nodes (hmap_remove h (k, x)))) = mset (hmap_nodes h) \<and>
    hmap_wf (hmap_replace h (k, x) y) \<and>
      mset (hmap_nodes (hmap_replace h (k, x) y)) = add_mset (k, y) (mset (hmap_nodes (hmap_remove h (k, x)))) \<and>
    hmap_wf (hmap_expand h) \<and> mset (hmap_nodes (hmap_expand h)) = mset (hmap_nodes h) \<and>
    hmap_wf (hmap_shrink h) \<and> mset (hmap_nodes (hmap_shrink h)) = mset (hmap_nodes h) \<and>
    hmap_wf (hmap_reserve h c) \<and> mset (hmap_nodes (hmap_reserve h c)) = mset (hmap_nodes h) \<and>
    hmap_wf (hmap_clear h) \<and> hmap_nodes (hmap_clear h) = []"
  using hmap_insert_correct [OF assms(1,3)] hmap_expand_correct [OF assms(1)]
    hmap_shrink_correct [OF assms(1)] hmap_reserve_correct [OF assms(1)] hmap_clear_correct [OF assms(1)]
    wf_remove [OF assms(1,2)] nodes_remove [OF assms(1,2)]
    wf_replace [OF assms] nodes_replace [OF assms(1,2)] assms(2)
  by simp

lemma hmap_example_wf:
  "hmap_wf \<lparr>buckets = [[(4, 10 :: nat)], [(9, 20), (5, 30)], [], []], hmask = 3, hn = 3\<rparr>"
  unfolding hmap_wf_def
  by (intro conjI exI [of _ 2])
    (auto simp: hmap_nodes_def hmap_bucket_def less_Suc_eq mask_eq_exp_minus_1)

theorem hmap_operations_witness:
  "mset (hmap_nodes (hmap_remove \<lparr>buckets = [[(4, 10 :: nat)], [(9, 20), (5, 30)], [], []], hmask = 3, hn = 3\<rparr> (5, 30)))
     = {#(4, 10), (9, 20)#}"
  using hmap_operations [OF hmap_example_wf, of 5 30 40] by (simp add: hmap_nodes_def)

text \<open>
  C14. The loops over the map. Iteration over all nodes, which nothing bounds but the links it
  follows, ends after it has visited every object of the map exactly once; the loop over the nodes of a hash visits exactly the objects stored under
  that hash, each once; the loop over a bucket visits no object that is not in the map and
  misses none stored under the hash.
\<close>

theorem hmap_search:
  assumes "hmap_wf h"
  shows "for_each h (hmap_first h) = Some (HMAP_FOR_EACH h) \<and>
    HMAP_FOR_EACH h = map snd (hmap_nodes h) \<and> distinct (HMAP_FOR_EACH h) \<and>
    set (HMAP_FOR_EACH_WITH_HASH h k) = {x. (k, x) \<in> set (hmap_nodes h)} \<and>
    distinct (HMAP_FOR_EACH_WITH_HASH h k) \<and>
    set (HMAP_FOR_EACH_WITH_HASH h k) \<subseteq> set (HMAP_FOR_EACH_IN_BUCKET h k) \<and>
    set (HMAP_FOR_EACH_IN_BUCKET h k) \<subseteq> set (HMAP_FOR_EACH h)"
proof -
  have f: "HMAP_FOR_EACH h = map snd (hmap_nodes h)" by (rule HMAP_FOR_EACH_eq [OF assms])
  then have "distinct (HMAP_FOR_EACH h)" using assms by (simp add: hmap_wf_def)
  moreover have "set (HMAP_FOR_EACH_WITH_HASH h k) = {x. (k, x) \<in> set (hmap_nodes h)}"
    using HMAP_FOR_EACH_WITH_HASH_set [OF assms] by auto
  moreover have "set (HMAP_FOR_EACH_WITH_HASH h k) \<subseteq> set (HMAP_FOR_EACH_IN_BUCKET h k)"
    using HMAP_FOR_EACH_WITH_HASH_set [OF assms] HMAP_FOR_EACH_IN_BUCKET_set [OF assms] by blast
  moreover have "set (HMAP_FOR_EACH_IN_BUCKET h k) \<subseteq> set (HMAP_FOR_EACH h)"
    using HMAP_FOR_EACH_IN_BUCKET_set [OF assms] f by force
  ultimately show ?thesis using f for_each_eq [OF assms] HMAP_FOR_EACH_WITH_HASH_distinct [OF assms, of k] by simp
qed

theorem hmap_search_witness:
  "HMAP_FOR_EACH \<lparr>buckets = [[(4, 10 :: nat)], [(9, 20), (5, 30)], [], []], hmask = 3, hn = 3\<rparr> = [10, 20, 30]"
  using hmap_search [OF hmap_example_wf] by (simp add: hmap_nodes_def)

text \<open>The loop of a caller of \<^verbatim>\<open>hmap_at_position\<close>, from the initial position on.\<close>

fun at_positions :: "nat \<Rightarrow> 'a hmap \<Rightarrow> u32 \<times> u32 \<Rightarrow> 'a list" where
  "at_positions 0 h pos = []"
| "at_positions (Suc fuel) h pos =
     (case hmap_at_position h pos of
        (None, pos') \<Rightarrow> []
      | (Some x, pos') \<Rightarrow> x # at_positions fuel h pos')"

lemma at_positions_eq:
  assumes "hmap_wf h" and "unat (hmask h) + 1 < 2 ^ 32" and "hn h < 2 ^ 32"
  shows "at_positions fuel h (b, ofs) = take fuel (map snd (nodes_at h (unat b) (unat ofs)))"
proof (induction fuel arbitrary: b ofs)
  case (Suc fuel)
  obtain r b' ofs' where r: "hmap_at_position h (b, ofs) = (r, b', ofs')" by (metis prod.exhaust)
  show ?case
  proof (cases r)
    case None
    then show ?thesis using hmap_at_position_step [OF assms r] by (simp add: r)
  next
    case (Some x)
    then have "nodes_at h (unat b) (unat ofs) \<noteq> []" "x = snd (hd (nodes_at h (unat b) (unat ofs)))"
      "nodes_at h (unat b') (unat ofs') = tl (nodes_at h (unat b) (unat ofs))"
      using hmap_at_position_step [OF assms r] by simp_all
    then show ?thesis
      by (cases "nodes_at h (unat b) (unat ofs)") (simp_all add: r Some Suc.IH)
  qed
qed simp

text \<open>
  Stepping through a map with \<^verbatim>\<open>hmap_at_position\<close> from position (0, 0) returns every object
  exactly once and then the null pointer, as long as bucket indexes and offsets fit the 32-bit
  integers of a position (\<open>fuel\<close> bounds the number of calls; one more than the nodes suffices).
\<close>

theorem hmap_positions:
  assumes "hmap_wf h" and "unat (hmask h) + 1 < 2 ^ 32" and "hn h < 2 ^ 32" and "hn h < fuel"
  shows "at_positions fuel h (0, 0) = map snd (hmap_nodes h)"
  using at_positions_eq [OF assms(1-3), of fuel 0 0] assms(1,4)
  by (simp add: nodes_at_0 hmap_wf_def hmap_nodes_def)

theorem hmap_positions_witness:
  "at_positions 4 \<lparr>buckets = [[(4, 10 :: nat)], [(9, 20), (5, 30)], [], []], hmask = 3, hn = 3\<rparr> (0, 0) = [10, 20, 30]"
  using hmap_positions [OF hmap_example_wf, of 4] by (simp add: hmap_nodes_def)

text \<open>
  The table sizes. The assertion in \<^verbatim>\<open>resize\<close> holds for every mask the code computes, so no
  call of it aborts the process; and an insertion leaves at most two nodes per bucket on
  average (rounded down) if the map had that before.
\<close>

theorem hmap_load:
  assumes "hmap_wf h" and "x \<notin> snd ` set (hmap_nodes h)" and "hn h + 1 < 2 ^ 64"
    and "hn h div 2 \<le> unat (hmask h)"
  shows "resize_assert (calc_mask c) \<and>
    hn (hmap_insert h x k) div 2 \<le> unat (hmask (hmap_insert h x k))"
proof -
  obtain j where j: "j < 64" "calc_mask c = mask j" using calc_mask_mask by blast
  have "mask j + 1 = (2 ^ j :: u64)" by (simp add: mask_eq_exp_minus_1)
  then have "resize_assert (calc_mask c)" using j by (auto simp: resize_assert_def is_pow2_iff)
  moreover have "hn (hmap_insert_fast h x k) < 2 ^ 64"
    using assms(3) by (simp add: hmap_insert_fast_def Let_def)
  then have "hn (hmap_insert h x k) div 2 \<le> unat (hmask (hmap_insert h x k))"
    using hmap_expand_load [OF wf_insert_fast [OF assms(1,2)]] by (simp add: hmap_insert_def Let_def not_less)
  ultimately show ?thesis ..
qed

theorem hmap_load_witness:
  "hn (hmap_insert \<lparr>buckets = [[(4, 10 :: nat)], [(9, 20), (5, 30)], [], []], hmask = 3, hn = 3\<rparr> 40 7) div 2
     \<le> unat (hmask (hmap_insert \<lparr>buckets = [[(4, 10 :: nat)], [(9, 20), (5, 30)], [], []], hmask = 3, hn = 3\<rparr> 40 7))"
  using hmap_load [OF hmap_example_wf, of 40] by (simp add: hmap_nodes_def)

end
