(* ===== verification/Hash.thy ===== *)
theory Hash
  imports Prelude
begin

text \<open>
  The hash functions of \<^verbatim>\<open>lib/hash.h\<close> and \<^verbatim>\<open>lib/hash.c\<close> (MurmurHash3) on 32-bit words. The
  arithmetic is that of \<^verbatim>\<open>uint32_t\<close>: it wraps around.
\<close>

section \<open>Definitions\<close>

definition hash_rot :: "u32 \<Rightarrow> nat \<Rightarrow> u32" where
  "hash_rot x k = push_bit k x OR drop_bit (32 - k) x"

definition mhash_add_raw :: "u32 \<Rightarrow> u32 \<Rightarrow> u32" where
  "mhash_add_raw hash data0 =
     (let data1 = data0 * 0xcc9e2d51;
          data2 = hash_rot data1 15;
          data3 = data2 * 0x1b873593
      in hash XOR data3)"

definition mhash_add :: "u32 \<Rightarrow> u32 \<Rightarrow> u32" where
  "mhash_add hash0 data0 =
     (let hash1 = mhash_add_raw hash0 data0;
          hash2 = hash_rot hash1 13
      in hash2 * 5 + 0xe6546b64)"

definition mhash_finish :: "u32 \<Rightarrow> u32 \<Rightarrow> u32" where
  "mhash_finish hash0 n_bytes =
     (let h1 = hash0 XOR n_bytes;
          h2 = h1 XOR drop_bit 16 h1;
          h3 = h2 * 0x85ebca6b;
          h4 = h3 XOR drop_bit 13 h3;
          h5 = h4 * 0xc2b2ae35
      in h5 XOR drop_bit 16 h5)"

definition hash_2words :: "u32 \<Rightarrow> u32 \<Rightarrow> u32" where
  "hash_2words x y = mhash_finish (mhash_add (mhash_add x 0) y) 4"

definition hash_3words :: "u32 \<Rightarrow> u32 \<Rightarrow> u32 \<Rightarrow> u32" where
  "hash_3words a b c = mhash_finish (mhash_add (mhash_add (mhash_add a 0) b) c) 12"

definition hash_int :: "u32 \<Rightarrow> u32 \<Rightarrow> u32" where
  "hash_int x basis = hash_2words x basis"

definition hash_boolean :: "bool \<Rightarrow> u32 \<Rightarrow> u32" where
  "hash_boolean x basis =
     (let P0 = 0xc2b73583; P1 = 0xe90f1258
      in (if x then P0 else P1) XOR hash_rot basis 1)"

text \<open>
  \<^verbatim>\<open>hash_words\<close> folds \<^verbatim>\<open>mhash_add\<close> over the first \<open>n_words\<close> words at \<open>p\<close> and finishes with
  the number of bytes.
\<close>

definition hash_words :: "u32 list \<Rightarrow> nat \<Rightarrow> u32 \<Rightarrow> u32" where
  "hash_words p n_words basis =
     mhash_finish (foldl (\<lambda>hash i. mhash_add hash (p ! i)) basis [0..<n_words])
       (word_of_nat (n_words * 4))"

text \<open>
  \<^verbatim>\<open>hash_bytes\<close> reads whole 32-bit words while four bytes are left, then the rest zero-extended
  to a word. How four bytes in memory make a word is the host's byte order: the parameter
  \<open>host_u32\<close>.
\<close>

fun hash_bytes_loop :: "(u8 list \<Rightarrow> u32) \<Rightarrow> u32 \<Rightarrow> u8 list \<Rightarrow> u32" where
  "hash_bytes_loop host_u32 hash (a # b # c # d # p) =
     hash_bytes_loop host_u32 (mhash_add hash (host_u32 [a, b, c, d])) p"
| "hash_bytes_loop host_u32 hash p =
     (if p \<noteq> [] then mhash_add_raw hash (host_u32 (p @ replicate (4 - length p) 0)) else hash)"

definition hash_bytes :: "(u8 list \<Rightarrow> u32) \<Rightarrow> u8 list \<Rightarrow> nat \<Rightarrow> u32 \<Rightarrow> u32" where
  "hash_bytes host_u32 p n basis =
     mhash_finish (hash_bytes_loop host_u32 basis (take n p)) (word_of_nat n)"

section \<open>Every mixing step is injective\<close>

lemma mult_left_inverse_inj:
  fixes c c' :: "'a::comm_ring_1"
  assumes "c * c' = 1"
  shows "x * c = y * c \<longleftrightarrow> x = y"
proof
  assume "x * c = y * c"
  then have "x * c * c' = y * c * c'" by simp
  with assms show "x = y" by (simp add: mult.assoc)
qed simp

lemma xor_drop_bit_inj:
  fixes x y :: "'a::len word"
  assumes "x XOR drop_bit k x = y XOR drop_bit k y" and "0 < k"
  shows "x = y"
proof (rule bit_word_eqI)
  fix i
  have step: "bit x j = bit y j" if "bit x (j + k) = bit y (j + k)" for j
  proof -
    have "bit (x XOR drop_bit k x) j = bit (y XOR drop_bit k y) j" using assms(1) by simp
    then show ?thesis using that by (simp add: bit_xor_iff bit_drop_bit_eq add.commute) blast
  qed
  have "bit x j = bit y j" if "LENGTH('a) \<le> j + m" for j m
    using that
  proof (induction m arbitrary: j)
    case 0
    then show ?case by (auto dest: word_bit_bound)
  next
    case (Suc m)
    then have "bit x (j + k) = bit y (j + k)" using assms(2) by (intro Suc.IH) simp
    then show ?case by (rule step)
  qed
  from this [of i "LENGTH('a)"] show "bit x i = bit y i" by simp
qed

lemma hash_rot_bit:
  assumes "0 < k" and "k < 32" and "i < 32"
  shows "bit (hash_rot x k) i = bit x (if k \<le> i then i - k else i + 32 - k)"
  using assms word_bit_bound [of x "i + (32 - k)"]
  by (auto simp: hash_rot_def bit_or_iff bit_push_bit_iff bit_drop_bit_eq add.commute)

lemma hash_rot_inj:
  assumes "hash_rot x k = hash_rot y k" and "0 < k" and "k < 32"
  shows "x = y"
proof (rule bit_word_eqI)
  fix j assume "j < LENGTH(32)"
  then have j: "j < 32" by simp
  define i where "i = (if j + k < 32 then j + k else j + k - 32)"
  have i: "i < 32" "(if k \<le> i then i - k else i + 32 - k) = j"
    using j assms(2,3) by (auto simp: i_def)
  have "bit (hash_rot x k) i = bit (hash_rot y k) i" using assms(1) by simp
  then show "bit x j = bit y j" using hash_rot_bit [OF assms(2,3) i(1)] i(2) by simp
qed

lemma xor_left_inj: "(a :: 'a::len word) XOR x = a XOR y \<longleftrightarrow> x = y"
  by (auto simp: word_eq_iff_bits bit_xor_iff)

lemma xor_right_inj: "(x :: 'a::len word) XOR a = y XOR a \<longleftrightarrow> x = y"
  by (auto simp: word_eq_iff_bits bit_xor_iff)

lemma mhash_add_inj_hash: "mhash_add h d = mhash_add h' d \<longleftrightarrow> h = h'"
proof
  assume "mhash_add h d = mhash_add h' d"
  then have "hash_rot (mhash_add_raw h d) 13 * 5 = hash_rot (mhash_add_raw h' d) 13 * 5"
    by (simp add: mhash_add_def Let_def)
  moreover have "(5 :: u32) * 0xcccccccd = 1" by simp
  ultimately have "hash_rot (mhash_add_raw h d) 13 = hash_rot (mhash_add_raw h' d) 13"
    by (simp only: mult_left_inverse_inj)
  then have "mhash_add_raw h d = mhash_add_raw h' d" by (rule hash_rot_inj) simp_all
  then show "h = h'" by (simp add: mhash_add_raw_def Let_def xor_right_inj)
qed simp

lemma mhash_add_inj_data: "mhash_add h d = mhash_add h d' \<longleftrightarrow> d = d'"
proof
  assume "mhash_add h d = mhash_add h d'"
  then have "hash_rot (mhash_add_raw h d) 13 * 5 = hash_rot (mhash_add_raw h d') 13 * 5"
    by (simp add: mhash_add_def Let_def)
  moreover have "(5 :: u32) * 0xcccccccd = 1" by simp
  ultimately have "hash_rot (mhash_add_raw h d) 13 = hash_rot (mhash_add_raw h d') 13"
    by (simp only: mult_left_inverse_inj)
  then have "mhash_add_raw h d = mhash_add_raw h d'" by (rule hash_rot_inj) simp_all
  then have "hash_rot (d * 0xcc9e2d51) 15 * 0x1b873593 = hash_rot (d' * 0xcc9e2d51) 15 * 0x1b873593"
    by (simp add: mhash_add_raw_def Let_def xor_left_inj)
  moreover have "(0x1b873593 :: u32) * 0x56ed309b = 1" by simp
  ultimately have "hash_rot (d * 0xcc9e2d51) 15 = hash_rot (d' * 0xcc9e2d51) 15"
    by (simp only: mult_left_inverse_inj)
  then have "d * 0xcc9e2d51 = d' * 0xcc9e2d51" by (rule hash_rot_inj) simp_all
  moreover have "(0xcc9e2d51 :: u32) * 0xdee13bb1 = 1" by simp
  ultimately show "d = d'" by (simp only: mult_left_inverse_inj)
qed simp

lemma mhash_finish_inj: "mhash_finish h n = mhash_finish h' n \<longleftrightarrow> h = h'"
proof
  assume eq: "mhash_finish h n = mhash_finish h' n"
  define a a' where "a = h XOR n" and "a' = h' XOR n"
  define b b' where "b = a XOR drop_bit 16 a" and "b' = a' XOR drop_bit 16 a'"
  define c c' where "c = b * 0x85ebca6b" and "c' = b' * 0x85ebca6b"
  define d d' where "d = c XOR drop_bit 13 c" and "d' = c' XOR drop_bit 13 c'"
  have "d * 0xc2b2ae35 XOR drop_bit 16 (d * 0xc2b2ae35) = d' * 0xc2b2ae35 XOR drop_bit 16 (d' * 0xc2b2ae35)"
    using eq by (simp add: mhash_finish_def Let_def a_def a'_def b_def b'_def c_def c'_def d_def d'_def)
  then have "d * 0xc2b2ae35 = d' * 0xc2b2ae35" by (rule xor_drop_bit_inj) simp
  moreover have "(0xc2b2ae35 :: u32) * 0x7ed1b41d = 1" by simp
  ultimately have "d = d'" by (simp only: mult_left_inverse_inj)
  then have "c = c'" unfolding d_def d'_def by (rule xor_drop_bit_inj) simp
  moreover have "(0x85ebca6b :: u32) * 0xa5cb9243 = 1" by simp
  ultimately have "b = b'" unfolding c_def c'_def by (simp only: mult_left_inverse_inj)
  then have "a = a'" unfolding b_def b'_def by (rule xor_drop_bit_inj) simp
  then show "h = h'" by (simp add: a_def a'_def xor_right_inj)
qed simp

section \<open>Properties\<close>

text \<open>
  C40. The hash of a single integer never collides: for a fixed basis
  distinct values have distinct hashes, and for a fixed value distinct bases do too.
\<close>

theorem hash_words_no_collision:
  "(hash_int x basis = hash_int y basis \<longleftrightarrow> x = y) \<and>
   (hash_int x basis = hash_int x basis' \<longleftrightarrow> basis = basis')"
  by (simp add: hash_int_def hash_2words_def mhash_finish_inj mhash_add_inj_hash mhash_add_inj_data)

text \<open>
  The two constants of \<^verbatim>\<open>hash_boolean\<close> are not the hashes of 1 and 2 that
  its comment says they are; they still make the two hashes differ for every basis.
\<close>

theorem hash_boolean_constants:
  "hash_int 1 0 = 0xefc9a1d9 \<and> hash_int 2 0 = 0x89d3451e \<and>
   hash_boolean True 0 = 0xc2b73583 \<and> hash_boolean False 0 = 0xe90f1258 \<and>
   hash_boolean True basis \<noteq> hash_boolean False basis"
proof -
  have "hash_int 1 0 = 0xefc9a1d9" "hash_int 2 0 = 0x89d3451e"
    "hash_boolean True 0 = 0xc2b73583" "hash_boolean False 0 = 0xe90f1258"
    by (simp_all add: hash_int_def hash_2words_def hash_boolean_def mhash_finish_def mhash_add_def
        mhash_add_raw_def hash_rot_def Let_def)
  moreover have "hash_boolean True basis \<noteq> hash_boolean False basis"
    by (simp add: hash_boolean_def Let_def xor_right_inj)
  ultimately show ?thesis by simp
qed

end
