(* ===== verification/Token_Bucket.thy ===== *)
theory Token_Bucket
  imports Prelude
begin

text \<open>
  Saturating arithmetic (\<^verbatim>\<open>lib/sat-math.h\<close>) and token buckets (\<^verbatim>\<open>lib/token-bucket.c\<close>), which limit the rate of
  log messages and of packets sent to controllers. \<^verbatim>\<open>unsigned int\<close> is a 32-bit word; the time is an argument.
\<close>

section \<open>Saturating arithmetic\<close>

definition sat_add :: "u32 \<Rightarrow> u32 \<Rightarrow> u32" where
  "sat_add x y = (if x + y \<ge> x then x + y else UINT_MAX)"

definition sat_sub :: "u32 \<Rightarrow> u32 \<Rightarrow> u32" where
  "sat_sub x y = (if x \<ge> y then x - y else 0)"

definition SAT_MUL :: "u32 \<Rightarrow> u32 \<Rightarrow> u32" where
  "SAT_MUL x y = (if y = 0 then 0 else if x \<le> UINT_MAX div y then x * y else UINT_MAX)"

definition sat_mul :: "u32 \<Rightarrow> u32 \<Rightarrow> u32" where
  "sat_mul x y = SAT_MUL x y"

lemma unat_UINT_MAX: "unat UINT_MAX = 2 ^ 32 - 1"
  by (simp add: UINT_MAX_def unsigned_minus_1_eq_mask mask_eq_exp_minus_1)

lemma word_bound32: "unat (x :: u32) < 2 ^ 32"
proof -
  have "unat x < 2 ^ LENGTH(32)" by (rule unsigned_less)
  then show ?thesis by simp
qed

lemma unat_sat_add: "unat (sat_add x y) = min (2 ^ 32 - 1) (unat x + unat y)"
proof (cases "unat x + unat y < 2 ^ 32")
  case True
  then have "unat (x + y) = unat x + unat y" by (simp add: unat_word_ariths)
  then show ?thesis using True by (simp add: sat_add_def word_le_nat_alt)
next
  case False
  then have "unat (x + y) = unat x + unat y - 2 ^ 32"
    using word_bound32 [of x] word_bound32 [of y] by (simp add: unat_word_ariths mod_if)
  then have "\<not> x \<le> x + y" using False word_bound32 [of y] by (simp add: word_le_nat_alt)
  then show ?thesis using False by (simp add: sat_add_def unat_UINT_MAX)
qed

lemma unat_sat_sub: "unat (sat_sub x y) = unat x - unat y"
  by (auto simp: sat_sub_def word_le_nat_alt unat_sub)

lemma unat_sat_mul: "unat (sat_mul x y) = min (2 ^ 32 - 1) (unat x * unat y)"
proof (cases "y = 0")
  case False
  then have y: "0 < unat y" by (simp add: unat_gt_0)
  have "x \<le> UINT_MAX div y \<longleftrightarrow> unat x \<le> (2 ^ 32 - 1) div unat y"
    by (simp add: word_le_nat_alt unat_div unat_UINT_MAX)
  also have "\<dots> \<longleftrightarrow> unat x * unat y \<le> 2 ^ 32 - 1" by (rule less_eq_div_iff_mult_less_eq [OF y])
  finally have le: "x \<le> UINT_MAX div y \<longleftrightarrow> unat x * unat y \<le> 2 ^ 32 - 1" .
  then have "unat (x * y) = unat x * unat y" if "x \<le> UINT_MAX div y" using that by (simp add: unat_word_ariths)
  then show ?thesis using False le by (simp add: sat_mul_def SAT_MUL_def unat_UINT_MAX min_def)
qed (simp add: sat_mul_def SAT_MUL_def)

section \<open>Token buckets\<close>

record token_bucket =
  rate :: u32
  burst :: u32
  tokens :: u32
  last_fill :: int

definition token_bucket_init :: "u32 \<Rightarrow> u32 \<Rightarrow> token_bucket" where
  "token_bucket_init r b = \<lparr>rate = r, burst = b, tokens = 0, last_fill = LLONG_MIN\<rparr>"

definition token_bucket_set :: "token_bucket \<Rightarrow> u32 \<Rightarrow> u32 \<Rightarrow> token_bucket" where
  "token_bucket_set tb r b =
     (let tb = tb\<lparr>rate := r, burst := b\<rparr> in if b > tokens tb then tb\<lparr>tokens := b\<rparr> else tb)"

text \<open>The part of \<^verbatim>\<open>token_bucket_withdraw\<close> that fills the bucket.\<close>

definition token_bucket_fill :: "int \<Rightarrow> token_bucket \<Rightarrow> token_bucket" where
  "token_bucket_fill now tb =
     (if now > last_fill tb then
        let elapsed_ull = (word_of_int now :: u64) - word_of_int (last_fill tb);
            elapsed = (ucast (min (ucast UINT_MAX) elapsed_ull) :: u32);
            add = sat_mul (rate tb) elapsed;
            toks = sat_add (tokens tb) add
        in tb\<lparr>tokens := min toks (burst tb), last_fill := now\<rparr>
      else tb)"

definition token_bucket_withdraw :: "int \<Rightarrow> token_bucket \<Rightarrow> u32 \<Rightarrow> bool \<times> token_bucket" where
  "token_bucket_withdraw now tb n =
     (let tb = (if tokens tb < n then token_bucket_fill now tb else tb)
      in if tokens tb < n then (False, tb) else (True, tb\<lparr>tokens := tokens tb - n\<rparr>))"

text \<open>\<open>None\<close> is the division by a rate of zero.\<close>

definition token_bucket_wait :: "token_bucket \<Rightarrow> u32 \<Rightarrow> wakeup option" where
  "token_bucket_wait tb n =
     (if tokens tb \<ge> n then Some Immediate_wake
      else if rate tb = 0 then None
      else let need = n - tokens tb in Some (Timer_wait_until (last_fill tb + uint (need div rate tb) + 1)))"

section \<open>Filling a bucket\<close>

lemma elapsed_ms:
  assumes "- (2 ^ 63) \<le> lf" and "lf < now" and "now < 2 ^ 63"
  shows "unat (ucast (min (ucast UINT_MAX) ((word_of_int now :: u64) - word_of_int lf)) :: u32) = min (2 ^ 32 - 1) (nat (now - lf))"
proof -
  define e where "e = (word_of_int now :: u64) - word_of_int lf"
  have e: "e = word_of_int (now - lf)" by (simp add: e_def)
  have "uint e = (now - lf) mod 2 ^ LENGTH(64)" unfolding e by (rule uint_word_of_int)
  then have "uint e = now - lf" using assms by simp
  then have ue: "unat e = nat (now - lf)" by (simp flip: nat_uint_eq)
  have max: "unat (ucast UINT_MAX :: u64) = 2 ^ 32 - 1"
    by (simp add: unsigned_ucast_eq unat_UINT_MAX take_bit_nat_eq_self)
  have "unat (min (ucast UINT_MAX) e) = min (2 ^ 32 - 1) (nat (now - lf))"
    unfolding min_def word_le_nat_alt max ue by (simp add: max ue)
  then have "unat (ucast (min (ucast UINT_MAX) e) :: u32) = take_bit 32 (min (2 ^ 32 - 1) (nat (now - lf)))"
    by (simp only: unsigned_ucast_eq) simp
  also have "\<dots> = min (2 ^ 32 - 1) (nat (now - lf))" by (rule take_bit_nat_eq_self) simp
  finally show ?thesis by (simp add: e_def)
qed

lemma min_mult: "min m (r * min m e) = min m (r * e)" for m r e :: nat
proof (cases "m \<le> e \<and> r \<noteq> 0")
  case True
  then have "m \<le> r * m" "e \<le> r * e" by simp_all
  then show ?thesis using True by (simp add: min_absorb1 order_trans [of m e])
qed (auto simp: min_absorb2)

lemma fill_tokens:
  assumes "- (2 ^ 63) \<le> last_fill tb" and "last_fill tb < now" and "now < 2 ^ 63"
  shows "unat (tokens (token_bucket_fill now tb)) =
    min (unat (burst tb)) (unat (tokens tb) + unat (rate tb) * nat (now - last_fill tb))"
proof -
  let ?e = "nat (now - last_fill tb)" and ?r = "unat (rate tb)"
  have "min (2 ^ 32 - 1) (?r * min (2 ^ 32 - 1) ?e) = min (2 ^ 32 - 1) (?r * ?e)" by (rule min_mult)
  moreover have "unat (min x y) = min (unat x) (unat y)" for x y :: u32 by (simp add: min_def word_le_nat_alt)
  ultimately show ?thesis
    using assms(2) word_bound32 [of "burst tb"] elapsed_ms [OF assms]
    by (simp add: token_bucket_fill_def Let_def unat_sat_add unat_sat_mul min_def)
qed

section \<open>Many withdrawals\<close>

fun withdraw_all :: "token_bucket \<Rightarrow> (int \<times> u32) list \<Rightarrow> nat \<times> token_bucket" where
  "withdraw_all tb [] = (0, tb)"
| "withdraw_all tb ((now, n) # reqs) =
     (let (ok, tb1) = token_bucket_withdraw now tb n; (k, tb2) = withdraw_all tb1 reqs
      in ((if ok then unat n else 0) + k, tb2))"

text \<open>What a bucket can give between \<open>t0\<close> and \<open>t1\<close>: until it is filled in that time, its tokens and once more a full bucket.\<close>

definition credit :: "int \<Rightarrow> int \<Rightarrow> token_bucket \<Rightarrow> int" where
  "credit t0 t1 tb = int (unat (tokens tb)) +
     (if last_fill tb < t0 then int (unat (burst tb)) + int (unat (rate tb)) * (t1 - t0) else int (unat (rate tb)) * (t1 - last_fill tb))"

lemma fill_credit:
  assumes "- (2 ^ 63) \<le> last_fill tb" and "t0 \<le> now" and "now \<le> t1" and "t1 < 2 ^ 63"
  shows "credit t0 t1 (token_bucket_fill now tb) \<le> credit t0 t1 tb"
proof (cases "last_fill tb < now")
  case True
  have f: "unat (tokens (token_bucket_fill now tb)) = min (unat (burst tb)) (unat (tokens tb) + unat (rate tb) * nat (now - last_fill tb))"
    by (rule fill_tokens) (use assms True in simp_all)
  have sel: "last_fill (token_bucket_fill now tb) = now" "rate (token_bucket_fill now tb) = rate tb"
    using True by (simp_all add: token_bucket_fill_def Let_def)
  have c': "credit t0 t1 (token_bucket_fill now tb) =
      int (unat (tokens (token_bucket_fill now tb))) + int (unat (rate tb)) * (t1 - now)"
    using assms(2) by (simp add: credit_def sel)
  show ?thesis
  proof (cases "last_fill tb < t0")
    case True
    have "int (unat (rate tb)) * (t1 - now) \<le> int (unat (rate tb)) * (t1 - t0)" using assms(2) by (intro mult_left_mono) simp_all
    moreover have "int (unat (tokens (token_bucket_fill now tb))) \<le> int (unat (burst tb))"
      unfolding f by (intro of_nat_mono min.cobounded1)
    moreover have "credit t0 t1 tb = int (unat (tokens tb)) + int (unat (burst tb)) + int (unat (rate tb)) * (t1 - t0)"
      using True by (simp add: credit_def)
    ultimately show ?thesis unfolding c' by linarith
  next
    case False
    have "int (unat (rate tb)) * (t1 - last_fill tb) = int (unat (rate tb)) * (now - last_fill tb) + int (unat (rate tb)) * (t1 - now)"
      by (simp add: algebra_simps)
    moreover have "int (unat (tokens (token_bucket_fill now tb))) \<le> int (unat (tokens tb)) + int (unat (rate tb)) * (now - last_fill tb)"
    proof -
      have "int (unat (tokens (token_bucket_fill now tb))) \<le> int (unat (tokens tb) + unat (rate tb) * nat (now - last_fill tb))"
        unfolding f by (intro of_nat_mono min.cobounded2)
      then show ?thesis using \<open>last_fill tb < now\<close> by simp
    qed
    moreover have "credit t0 t1 tb = int (unat (tokens tb)) + int (unat (rate tb)) * (t1 - last_fill tb)"
      using False by (simp add: credit_def)
    ultimately show ?thesis unfolding c' by linarith
  qed
qed (simp add: token_bucket_fill_def)

lemma withdraw_credit:
  assumes "- (2 ^ 63) \<le> last_fill tb" and "t0 \<le> now" and "now \<le> t1" and "t1 < 2 ^ 63" and "token_bucket_withdraw now tb n = (ok, tb')"
  shows "(if ok then int (unat n) else 0) + credit t0 t1 tb' \<le> credit t0 t1 tb" and "- (2 ^ 63) \<le> last_fill tb'"
    and "last_fill tb \<le> t1 \<Longrightarrow> last_fill tb' \<le> t1"
proof -
  define tb1 where "tb1 = (if tokens tb < n then token_bucket_fill now tb else tb)"
  have c: "credit t0 t1 tb1 \<le> credit t0 t1 tb" using fill_credit [OF assms(1-4)] by (simp add: tb1_def)
  have sel: "- (2 ^ 63) \<le> last_fill tb1" "last_fill tb \<le> t1 \<Longrightarrow> last_fill tb1 \<le> t1"
    using assms(1,3) by (simp_all add: tb1_def token_bucket_fill_def Let_def)
  have w: "(ok, tb') = (if tokens tb1 < n then (False, tb1) else (True, tb1\<lparr>tokens := tokens tb1 - n\<rparr>))"
    unfolding assms(5) [symmetric] token_bucket_withdraw_def Let_def tb1_def by (rule refl)
  have "int (unat (tokens tb1 - n)) = int (unat (tokens tb1)) - int (unat n)" if "\<not> tokens tb1 < n"
    using that by (simp add: unat_sub word_le_nat_alt not_less of_nat_diff)
  then show "(if ok then int (unat n) else 0) + credit t0 t1 tb' \<le> credit t0 t1 tb"
    using c w by (auto simp: credit_def split: if_splits)
  show "- (2 ^ 63) \<le> last_fill tb'" "last_fill tb \<le> t1 \<Longrightarrow> last_fill tb' \<le> t1" using w sel by (auto split: if_splits)
qed

lemma withdraw_all_credit:
  assumes "- (2 ^ 63) \<le> last_fill tb" and "t1 < 2 ^ 63" and "\<And>now n. (now, n) \<in> set reqs \<Longrightarrow> t0 \<le> now \<and> now \<le> t1"
    and "withdraw_all tb reqs = (k, tb')" and "last_fill tb \<le> t1"
  shows "int k + credit t0 t1 tb' \<le> credit t0 t1 tb \<and> last_fill tb' \<le> t1"
  using assms
proof (induction tb reqs arbitrary: k tb' rule: withdraw_all.induct)
  case (2 tb now n reqs)
  obtain ok tb1 where w: "token_bucket_withdraw now tb n = (ok, tb1)" by fastforce
  obtain k1 where k1: "withdraw_all tb1 reqs = (k1, tb')" "k = (if ok then unat n else 0) + k1"
    using "2.prems"(4) w by (auto simp: split: prod.splits)
  have now: "t0 \<le> now" "now \<le> t1" using "2.prems"(3) by auto
  note c = withdraw_credit [OF "2.prems"(1) now "2.prems"(2) w]
  have "int k1 + credit t0 t1 tb' \<le> credit t0 t1 tb1 \<and> last_fill tb' \<le> t1"
    by (rule "2.IH" [OF w [symmetric] refl c(2) "2.prems"(2) _ k1(1) c(3) [OF "2.prems"(5)]]) (use "2.prems"(3) in auto)
  then show ?case using c(1) k1(2) by auto
qed simp

lemma withdraw_ok:
  assumes "- (2 ^ 63) \<le> last_fill tb" and "last_fill tb < now" and "now < 2 ^ 63" and "tokens tb < n"
  shows "fst (token_bucket_withdraw now tb n) \<longleftrightarrow>
    n \<le> burst tb \<and> unat n \<le> unat (tokens tb) + unat (rate tb) * nat (now - last_fill tb)"
proof -
  have "fst (token_bucket_withdraw now tb n) \<longleftrightarrow> unat n \<le> unat (tokens (token_bucket_fill now tb))"
    using assms(4) unfolding token_bucket_withdraw_def Let_def by (simp add: word_less_nat_alt not_less)
  then show ?thesis unfolding fill_tokens [OF assms(1-3)] by (simp add: word_le_nat_alt)
qed

lemma wait_time:
  assumes "tokens tb < n" and "token_bucket_wait tb n = Some (Timer_wait_until t)"
  shows "t = last_fill tb + int ((unat n - unat (tokens tb)) div unat (rate tb)) + 1" and "0 < unat (rate tb)"
proof -
  have r: "rate tb \<noteq> 0" and t: "t = last_fill tb + uint ((n - tokens tb) div rate tb) + 1"
    using assms by (auto simp: token_bucket_wait_def Let_def not_le split: if_splits)
  have "unat (n - tokens tb) = unat n - unat (tokens tb)" using assms(1) by (simp add: unat_sub)
  then have "uint ((n - tokens tb) div rate tb) = int ((unat n - unat (tokens tb)) div unat (rate tb))"
    by (metis unat_div int_nat_eq nat_uint_eq uint_ge_0)
  then show "t = last_fill tb + int ((unat n - unat (tokens tb)) div unat (rate tb)) + 1" using t by simp
  show "0 < unat (rate tb)" using r by (simp add: unat_gt_0)
qed

lemma wait_withdraw:
  assumes "- (2 ^ 63) \<le> last_fill tb" and "tokens tb < n" and "n \<le> burst tb" and "token_bucket_wait tb n = Some (Timer_wait_until t)"
    and "now < 2 ^ 63"
  shows "t \<le> now \<Longrightarrow> fst (token_bucket_withdraw now tb n)"
    and "last_fill tb < now \<Longrightarrow> now < t - 1 \<Longrightarrow> \<not> fst (token_bucket_withdraw now tb n)"
proof -
  define r need d where "r = unat (rate tb)" and "need = unat n - unat (tokens tb)" and "d = need div r"
  have t: "t = last_fill tb + int d + 1" and r: "0 < r"
    using wait_time [OF assms(2,4)] by (simp_all add: r_def need_def d_def)
  have tok: "unat (tokens tb) < unat n" using assms(2) by (simp add: word_less_nat_alt)
  have need: "need = r * d + need mod r" "need mod r < r" using r by (simp_all add: d_def)
  show "fst (token_bucket_withdraw now tb n)" if "t \<le> now"
  proof -
    have "d + 1 \<le> nat (now - last_fill tb)" using that t by linarith
    then have "r * (d + 1) \<le> r * nat (now - last_fill tb)" by (rule mult_le_mono2)
    then have "need \<le> r * nat (now - last_fill tb)" using need by simp
    then have "unat n \<le> unat (tokens tb) + r * nat (now - last_fill tb)" using tok by (simp add: need_def)
    moreover have "last_fill tb < now" using that t by linarith
    ultimately show ?thesis using withdraw_ok [OF assms(1) _ assms(5,2)] assms(3) by (simp add: r_def)
  qed
  show "\<not> fst (token_bucket_withdraw now tb n)" if "last_fill tb < now" "now < t - 1"
  proof -
    have "nat (now - last_fill tb) + 1 \<le> d" using that t by linarith
    then have "r * (nat (now - last_fill tb) + 1) \<le> r * d" by (rule mult_le_mono2)
    then have "r * nat (now - last_fill tb) < need" using need r by simp
    then have "\<not> unat n \<le> unat (tokens tb) + r * nat (now - last_fill tb)" using tok by (simp add: need_def)
    then show ?thesis using withdraw_ok [OF assms(1) that(1) assms(5,2)] by (simp add: r_def)
  qed
qed

lemma credit_bounds:
  assumes "t0 \<le> t1"
  shows "last_fill tb \<le> t1 \<Longrightarrow> 0 \<le> credit t0 t1 tb"
    and "tokens tb \<le> burst tb \<Longrightarrow> credit t0 t1 tb \<le> 2 * int (unat (burst tb)) + int (unat (rate tb)) * (t1 - t0)"
proof -
  show "0 \<le> credit t0 t1 tb" if "last_fill tb \<le> t1" using assms that by (simp add: credit_def)
  assume "tokens tb \<le> burst tb"
  then have b: "int (unat (tokens tb)) \<le> int (unat (burst tb))" by (simp only: word_le_nat_alt of_nat_le_iff)
  show "credit t0 t1 tb \<le> 2 * int (unat (burst tb)) + int (unat (rate tb)) * (t1 - t0)"
  proof (cases "last_fill tb < t0")
    case True
    then have "credit t0 t1 tb = int (unat (tokens tb)) + int (unat (burst tb)) + int (unat (rate tb)) * (t1 - t0)" by (simp add: credit_def)
    then show ?thesis using b by linarith
  next
    case False
    then have "int (unat (rate tb)) * (t1 - last_fill tb) \<le> int (unat (rate tb)) * (t1 - t0)" by (intro mult_left_mono) simp_all
    moreover have "credit t0 t1 tb = int (unat (tokens tb)) + int (unat (rate tb)) * (t1 - last_fill tb)" using False by (simp add: credit_def)
    ultimately show ?thesis using b by linarith
  qed
qed

section \<open>Properties\<close>



text \<open>
  C39. The bound is nearly reached: time before a withdrawal that needed no filling is counted
  once more, so that a bucket of 1000 tokens gives 1999 at one instant. And \<^verbatim>\<open>token_bucket_set\<close> leaves more tokens in a bucket
  than its new size, while it fills a bucket that has fewer.
\<close>

theorem token_bucket_bugs:
  "fst (withdraw_all (token_bucket_init 1 1000) [(0, 1), (10000, 999), (10000, 1000)]) = 2000 \<and>
   (b < tokens tb \<longrightarrow> burst (token_bucket_set tb r b) < tokens (token_bucket_set tb r b)) \<and>
   (tokens tb < b \<longrightarrow> tokens (token_bucket_set tb r b) = b)"
proof (intro conjI)
  show "fst (withdraw_all (token_bucket_init 1 1000) [(0, 1), (10000, 999), (10000, 1000)]) = 2000"
    by code_simp
qed (auto simp: token_bucket_set_def Let_def)

theorem token_bucket_bugs_witness:
  "let tb = \<lparr>rate = 1, burst = 2000, tokens = 2000, last_fill = 0\<rparr> in
     burst (token_bucket_set tb 1 1000) < tokens (token_bucket_set tb 1 1000)"
  using token_bucket_bugs [of 1000 "\<lparr>rate = 1, burst = 2000, tokens = 2000, last_fill = 0\<rparr>" 1] by simp

end
