(* ===== verification/Pinsched.thy ===== *)
theory Pinsched
  imports Hmap Hash Token_Bucket
begin

text \<open>
  \<^verbatim>\<open>ofproto/pinsched.c\<close>: the scheduler that limits the rate of packets to a controller. It keeps one queue
  per port in a hash map, drops a packet of a longest queue when there is no room, and sends in
  round-robin order as tokens become available. Queues live at addresses; packets are numbers. Following the address of a
  queue that does not exist, or taking a packet from an empty list, is \<open>None\<close>. The time and the outcomes of
  \<^verbatim>\<open>random_range\<close> are arguments.
\<close>

section \<open>State\<close>

record pinqueue =
  port_no :: u16
  packets :: "nat list"
  q_n :: int

record pinsched =
  ps_bucket :: token_bucket
  queues :: "nat hmap"
  pinqueues :: "nat \<rightharpoonup> pinqueue"
  n_queued :: int
  next_txq :: "nat option"
  n_txq :: int
  n_normal :: u64
  n_limited :: u64
  n_queue_dropped :: u64

section \<open>Operations\<close>

definition hash_ofp_port :: "u16 \<Rightarrow> u32" where
  "hash_ofp_port p = hash_int (ucast p) 0"

definition queue_hash :: "pinsched \<Rightarrow> nat \<Rightarrow> u64" where
  "queue_hash ps q = ucast (hash_ofp_port (port_no (the (pinqueues ps q))))"

text \<open>The node of the queue \<open>q\<close> in its hash chain, as a pointer into the chain.\<close>

definition queue_node :: "pinsched \<Rightarrow> nat \<Rightarrow> nat hmap_node list" where
  "queue_node ps q = dropWhile (\<lambda>p. snd p \<noteq> q) (hmap_first_in_bucket (queues ps) (queue_hash ps q))"

definition advance_txq :: "pinsched \<Rightarrow> pinsched option" where
  "advance_txq ps =
     (case (case next_txq ps of
              Some q \<Rightarrow> if pinqueues ps q = None then None else Some (hmap_next (queues ps) (queue_node ps q))
            | None \<Rightarrow> Some (hmap_first (queues ps))) of
        None \<Rightarrow> None
      | Some next \<Rightarrow> Some (ps\<lparr>next_txq := (case next of [] \<Rightarrow> None | p # _ \<Rightarrow> Some (snd p))\<rparr>))"

definition dequeue_packet :: "pinsched \<Rightarrow> nat \<Rightarrow> (nat \<times> pinsched) option" where
  "dequeue_packet ps q =
     (case pinqueues ps q of
        None \<Rightarrow> None
      | Some pq \<Rightarrow>
          (case packets pq of
             [] \<Rightarrow> None
           | packet # rest \<Rightarrow>
               Some (packet, ps\<lparr>pinqueues := (pinqueues ps)(q \<mapsto> pq\<lparr>packets := rest, q_n := q_n pq - 1\<rparr>),
                 n_queued := n_queued ps - 1\<rparr>)))"

definition adjust_limits :: "int \<times> int \<Rightarrow> int \<times> int" where
  "adjust_limits = (\<lambda>(rate_limit, burst_limit).
     let rate_limit = (if rate_limit \<le> 0 then 1000 else rate_limit);
         burst_limit = (if burst_limit \<le> 0 then rate_limit div 4 else burst_limit)
     in (rate_limit, if burst_limit < 1 then 1 else burst_limit))"

definition pinqueue_destroy :: "pinsched \<Rightarrow> nat \<Rightarrow> pinsched" where
  "pinqueue_destroy ps q =
     ps\<lparr>queues := hmap_remove (queues ps) (queue_hash ps q, q), pinqueues := (pinqueues ps)(q := None)\<rparr>"

text \<open>\<open>new\<close> is the address \<^verbatim>\<open>xmalloc\<close> would return.\<close>

definition pinqueue_get :: "pinsched \<Rightarrow> nat \<Rightarrow> u16 \<Rightarrow> nat \<times> pinsched" where
  "pinqueue_get ps new port =
     (let hash = hash_ofp_port port
      in case List.find (\<lambda>q. port_no (the (pinqueues ps q)) = port) (HMAP_FOR_EACH_IN_BUCKET (queues ps) (ucast hash)) of
           Some q \<Rightarrow> (q, ps)
         | None \<Rightarrow> (new, ps\<lparr>queues := hmap_insert (queues ps) new (ucast hash),
                           pinqueues := (pinqueues ps)(new \<mapsto> \<lparr>port_no = port, packets = [], q_n = 0\<rparr>)\<rparr>))"

text \<open>The loop of \<^verbatim>\<open>drop_packet\<close>; \<open>zero i\<close> says whether \<^verbatim>\<open>random_range\<close> returns 0 at the \<open>i\<close>th queue.\<close>

fun find_longest :: "pinsched \<Rightarrow> (nat \<Rightarrow> bool) \<Rightarrow> nat \<Rightarrow> nat list \<Rightarrow> nat option \<Rightarrow> int \<Rightarrow> nat option" where
  "find_longest ps zero i [] longest n_longest = longest"
| "find_longest ps zero i (q # qs) longest n_longest =
     (let len = (\<lambda>q. q_n (the (pinqueues ps q)))
      in case longest of
           None \<Rightarrow> find_longest ps zero (Suc i) qs (Some q) 1
         | Some l \<Rightarrow>
             if len l < len q then find_longest ps zero (Suc i) qs (Some q) 1
             else if len l = len q then
               find_longest ps zero (Suc i) qs (if zero i then Some q else Some l) (n_longest + 1)
             else find_longest ps zero (Suc i) qs (Some l) n_longest)"

definition drop_packet :: "(nat \<Rightarrow> bool) \<Rightarrow> pinsched \<Rightarrow> pinsched option" where
  "drop_packet zero ps =
     (let ps = ps\<lparr>n_queue_dropped := n_queue_dropped ps + 1\<rparr>
      in case find_longest ps zero 0 (HMAP_FOR_EACH (queues ps)) None 0 of
           None \<Rightarrow> None
         | Some q \<Rightarrow>
             (case dequeue_packet ps q of
                None \<Rightarrow> None
              | Some (packet, ps) \<Rightarrow>
                  Some (if q_n (the (pinqueues ps q)) = 0 then pinqueue_destroy ps q else ps)))"

definition get_tx_packet :: "pinsched \<Rightarrow> (nat \<times> pinsched) option" where
  "get_tx_packet ps =
     (case (if next_txq ps = None then advance_txq ps else Some ps) of
        None \<Rightarrow> None
      | Some ps \<Rightarrow>
          (case next_txq ps of
             None \<Rightarrow> None
           | Some q \<Rightarrow>
               (case dequeue_packet ps q of
                  None \<Rightarrow> None
                | Some (packet, ps) \<Rightarrow>
                    (case advance_txq ps of
                       None \<Rightarrow> None
                     | Some ps \<Rightarrow>
                         Some (packet, if q_n (the (pinqueues ps q)) = 0 then pinqueue_destroy ps q else ps)))))"

definition get_token :: "int \<Rightarrow> pinsched \<Rightarrow> bool \<times> pinsched" where
  "get_token now ps =
     (let (ok, tb) = token_bucket_withdraw now (ps_bucket ps) 1000 in (ok, ps\<lparr>ps_bucket := tb\<rparr>))"

text \<open>The packets sent at once, and the scheduler. \<^verbatim>\<open>n_queued * 1000\<close> is an \<^verbatim>\<open>int\<close> that is compared as an \<^verbatim>\<open>unsigned int\<close>.\<close>

definition queue_packet :: "(nat \<Rightarrow> bool) \<Rightarrow> pinsched \<Rightarrow> nat \<Rightarrow> u16 \<Rightarrow> nat \<Rightarrow> pinsched option" where
  "queue_packet zero ps new port packet =
     (case (if (word_of_int (n_queued ps * 1000) :: u32) \<ge> burst (ps_bucket ps) then drop_packet zero ps else Some ps) of
        None \<Rightarrow> None
      | Some ps \<Rightarrow>
          let (q, ps) = pinqueue_get ps new port; pq = the (pinqueues ps q)
          in Some (ps\<lparr>pinqueues := (pinqueues ps)(q \<mapsto> pq\<lparr>packets := packets pq @ [packet], q_n := q_n pq + 1\<rparr>),
                      n_queued := n_queued ps + 1, n_limited := n_limited ps + 1\<rparr>))"

definition pinsched_send ::
  "int \<Rightarrow> (nat \<Rightarrow> bool) \<Rightarrow> pinsched option \<Rightarrow> nat \<Rightarrow> u16 \<Rightarrow> nat \<Rightarrow> (nat list \<times> pinsched option) option" where
  "pinsched_send now zero psp new port packet =
     (case psp of
        None \<Rightarrow> Some ([packet], None)
      | Some ps \<Rightarrow>
          let (ok, ps) = (if n_queued ps = 0 then get_token now ps else (False, ps))
          in if ok then Some ([packet], Some (ps\<lparr>n_normal := n_normal ps + 1\<rparr>))
             else map_option (\<lambda>ps. ([], Some ps)) (queue_packet zero ps new port packet))"

text \<open>The loop of \<^verbatim>\<open>pinsched_run\<close> with \<open>k = 50 - i\<close>; the token is taken before the counter is looked at.\<close>

fun run_txq :: "int \<Rightarrow> nat \<Rightarrow> pinsched \<Rightarrow> (nat list \<times> pinsched) option" where
  "run_txq now k ps =
     (if n_queued ps = 0 then Some ([], ps)
      else let (ok, ps) = get_token now ps
           in if \<not> ok then Some ([], ps)
              else (case k of
                      0 \<Rightarrow> Some ([], ps)
                    | Suc k \<Rightarrow>
                        (case get_tx_packet ps of
                           None \<Rightarrow> None
                         | Some (packet, ps) \<Rightarrow> map_option (\<lambda>(sent, ps). (packet # sent, ps)) (run_txq now k ps))))"

declare run_txq.simps [simp del]

definition pinsched_run :: "int \<Rightarrow> pinsched \<Rightarrow> (nat list \<times> pinsched) option" where
  "pinsched_run now ps = run_txq now 50 ps"

definition pinsched_wait :: "pinsched \<Rightarrow> wakeup option" where
  "pinsched_wait ps = (if n_queued ps \<noteq> 0 then token_bucket_wait (ps_bucket ps) 1000 else Some No_wakeup)"

definition pinsched_create :: "int \<Rightarrow> int \<Rightarrow> pinsched" where
  "pinsched_create rate_limit burst_limit =
     (let (rate_limit, burst_limit) = adjust_limits (rate_limit, burst_limit)
      in \<lparr>ps_bucket = token_bucket_init (word_of_int rate_limit) (sat_mul (word_of_int burst_limit) 1000),
          queues = hmap_init, pinqueues = Map.empty, n_queued = 0, next_txq = None, n_txq = 0,
          n_normal = 0, n_limited = 0, n_queue_dropped = 0\<rparr>)"

definition pinsched_get_limits :: "pinsched \<Rightarrow> int \<times> int" where
  "pinsched_get_limits ps = (sint (rate (ps_bucket ps)), sint (burst (ps_bucket ps) div 1000))"

lemma drop_packet_n: "drop_packet zero ps = Some ps' \<Longrightarrow> n_queued ps' = n_queued ps - 1"
  by (auto simp: drop_packet_def dequeue_packet_def pinqueue_destroy_def Let_def split: option.splits list.splits)

function drop_excess :: "(nat \<Rightarrow> nat \<Rightarrow> bool) \<Rightarrow> nat \<Rightarrow> int \<Rightarrow> pinsched \<Rightarrow> pinsched option" where
  "drop_excess zero k burst_limit ps =
     (if n_queued ps > burst_limit then
        (case drop_packet (zero k) ps of None \<Rightarrow> None | Some ps' \<Rightarrow> drop_excess zero (Suc k) burst_limit ps')
      else Some ps)"
  by pat_completeness auto
termination
  by (relation "measure (\<lambda>(zero, k, burst_limit, ps). nat (n_queued ps - burst_limit))") (auto dest: drop_packet_n)

declare drop_excess.simps [simp del]

definition pinsched_set_limits :: "(nat \<Rightarrow> nat \<Rightarrow> bool) \<Rightarrow> pinsched \<Rightarrow> int \<Rightarrow> int \<Rightarrow> pinsched option" where
  "pinsched_set_limits zero ps rate_limit burst_limit =
     (let (rate_limit, burst_limit) = adjust_limits (rate_limit, burst_limit)
      in drop_excess zero 0 burst_limit
           (ps\<lparr>ps_bucket := token_bucket_set (ps_bucket ps) (word_of_int rate_limit) (sat_mul (word_of_int burst_limit) 1000)\<rparr>))"

definition pinsched_count_txqlen :: "pinsched option \<Rightarrow> u32" where
  "pinsched_count_txqlen psp = (case psp of None \<Rightarrow> 0 | Some ps \<Rightarrow> word_of_int (n_txq ps))"

text \<open>The packets that \<^verbatim>\<open>pinsched_destroy\<close> deletes, and what is left before the scheduler itself is freed.\<close>

fun destroy_queues :: "pinsched \<Rightarrow> nat list \<Rightarrow> nat list \<times> pinsched" where
  "destroy_queues ps [] = ([], ps)"
| "destroy_queues ps (q # qs) =
     (let deleted = packets (the (pinqueues ps q)); (more, ps) = destroy_queues (pinqueue_destroy ps q) qs
      in (deleted @ more, ps))"

definition pinsched_destroy :: "pinsched option \<Rightarrow> nat list \<times> pinsched option" where
  "pinsched_destroy psp =
     (case psp of
        None \<Rightarrow> ([], None)
      | Some ps \<Rightarrow>
          let (deleted, ps) = destroy_queues ps (HMAP_FOR_EACH (queues ps))
          in (deleted, Some (ps\<lparr>queues := hmap_init\<rparr>)))"

section \<open>Invariant\<close>

definition queue_port :: "pinsched \<Rightarrow> nat \<Rightarrow> u16" where
  "queue_port ps q = port_no (the (pinqueues ps q))"

definition port_hash :: "u16 \<Rightarrow> u64" where
  "port_hash port = ucast (hash_ofp_port port)"

definition pin_shape :: "pinsched \<Rightarrow> bool" where
  "pin_shape ps \<longleftrightarrow> hmap_wf (queues ps) \<and>
     hmap_node_set (queues ps) = (\<lambda>q. (port_hash (queue_port ps q), q)) ` dom (pinqueues ps) \<and>
     inj_on (queue_port ps) (dom (pinqueues ps)) \<and>
     (\<forall>q pq. pinqueues ps q = Some pq \<longrightarrow> q_n pq = int (length (packets pq))) \<and>
     n_queued ps = (\<Sum>q \<in> dom (pinqueues ps). q_n (the (pinqueues ps q)))"

definition pinsched_inv :: "pinsched \<Rightarrow> bool" where
  "pinsched_inv ps \<longleftrightarrow> pin_shape ps \<and> (\<forall>q pq. pinqueues ps q = Some pq \<longrightarrow> packets pq \<noteq> [])"

definition txq_ok :: "pinsched \<Rightarrow> bool" where
  "txq_ok ps \<longleftrightarrow> (case next_txq ps of None \<Rightarrow> True | Some q \<Rightarrow> pinqueues ps q \<noteq> None)"

text \<open>What waits for each port.\<close>

definition port_queue :: "pinsched \<Rightarrow> u16 \<Rightarrow> nat list" where
  "port_queue ps port =
     (case List.find (\<lambda>q. queue_port ps q = port) (HMAP_FOR_EACH_IN_BUCKET (queues ps) (port_hash port)) of
        None \<Rightarrow> []
      | Some q \<Rightarrow> packets (the (pinqueues ps q)))"

interpretation pin_search: keyed_hash_bag hmap_wf hmap_node_set hmap_init hmap_insert hmap_remove
  HMAP_FOR_EACH_WITH_HASH HMAP_FOR_EACH_IN_BUCKET hmap_count "queue_port ps" port_hash for ps
  by unfold_locales

lemma queue_hash_port: "queue_hash ps q = port_hash (queue_port ps q)"
  by (simp add: queue_hash_def port_hash_def queue_port_def)

lemma pin_shapeD:
  assumes "pin_shape ps"
  shows "hmap_wf (queues ps)"
    and "hmap_node_set (queues ps) = (\<lambda>q. (port_hash (queue_port ps q), q)) ` dom (pinqueues ps)"
    and "inj_on (queue_port ps) (dom (pinqueues ps))"
    and "\<And>q pq. pinqueues ps q = Some pq \<Longrightarrow> q_n pq = int (length (packets pq))"
    and "n_queued ps = (\<Sum>q \<in> dom (pinqueues ps). q_n (the (pinqueues ps q)))"
  using assms by (simp_all add: pin_shape_def)

lemma queue_objects: "pin_shape ps \<Longrightarrow> snd ` hmap_node_set (queues ps) = dom (pinqueues ps)"
  by (simp add: pin_shapeD(2) image_image)

lemma finite_queues:
  assumes "pin_shape ps"
  shows "finite (dom (pinqueues ps))"
  using finite_imageI [OF hmap_bag.finite_nodes [OF pin_shapeD(1) [OF assms]], of snd] by (simp add: queue_objects [OF assms])

lemma find_queue:
  assumes "pin_shape ps"
  shows "List.find (\<lambda>q. queue_port ps q = port) (HMAP_FOR_EACH_IN_BUCKET (queues ps) (port_hash port)) = Some q \<longleftrightarrow>
    q \<in> dom (pinqueues ps) \<and> queue_port ps q = port"
proof -
  have k: "\<forall>(k, q) \<in> hmap_node_set (queues ps). k = port_hash (queue_port ps q)"
    unfolding pin_shapeD(2) [OF assms] by auto
  have i: "inj_on (queue_port ps) (snd ` hmap_node_set (queues ps))"
    unfolding queue_objects [OF assms] by (rule pin_shapeD(3) [OF assms])
  show ?thesis
    using pin_search.find_in_bucket [OF pin_shapeD(1) [OF assms] k i, of port q] unfolding queue_objects [OF assms] .
qed

lemma port_queue_eq:
  assumes "pin_shape ps" and "pinqueues ps q = Some pq" and "port_no pq = port"
  shows "port_queue ps port = packets pq"
proof -
  have "List.find (\<lambda>q. queue_port ps q = port) (HMAP_FOR_EACH_IN_BUCKET (queues ps) (port_hash port)) = Some q"
    unfolding find_queue [OF assms(1)] using assms(2,3) by (auto simp: queue_port_def)
  then show ?thesis using assms(2) by (simp add: port_queue_def)
qed

lemma port_queue_none:
  assumes "pin_shape ps" and "\<And>q pq. pinqueues ps q = Some pq \<Longrightarrow> port_no pq \<noteq> port"
  shows "port_queue ps port = []"
proof -
  have "List.find (\<lambda>q. queue_port ps q = port) (HMAP_FOR_EACH_IN_BUCKET (queues ps) (port_hash port)) = None"
  proof (rule ccontr)
    assume "List.find (\<lambda>q. queue_port ps q = port) (HMAP_FOR_EACH_IN_BUCKET (queues ps) (port_hash port)) \<noteq> None"
    then obtain q where "q \<in> dom (pinqueues ps)" "queue_port ps q = port" using find_queue [OF assms(1)] by blast
    then obtain pq where "pinqueues ps q = Some pq" "port_no pq = port" by (auto simp: queue_port_def)
    then show False using assms(2) by blast
  qed
  then show ?thesis by (simp add: port_queue_def)
qed

text \<open>The queues of two schedulers agree when every nonempty queue of one is a queue of the other.\<close>

definition covers :: "pinsched \<Rightarrow> pinsched \<Rightarrow> bool" where
  "covers a b \<longleftrightarrow> (\<forall>q pq. pinqueues a q = Some pq \<and> packets pq \<noteq> [] \<longrightarrow>
     (\<exists>q' pq'. pinqueues b q' = Some pq' \<and> port_no pq' = port_no pq \<and> packets pq' = packets pq))"

lemma covers_port_queue:
  assumes "pin_shape a" and "pin_shape b" and "covers a b" and "port_queue a port \<noteq> []"
  shows "port_queue b port = port_queue a port"
proof -
  obtain q pq where q: "pinqueues a q = Some pq" "port_no pq = port" using port_queue_none [OF assms(1)] assms(4) by blast
  then have p: "port_queue a port = packets pq" by (rule port_queue_eq [OF assms(1)])
  then obtain q' pq' where "pinqueues b q' = Some pq'" "port_no pq' = port" "packets pq' = packets pq"
    using assms(3,4) q unfolding covers_def by metis
  then show ?thesis using port_queue_eq [OF assms(2)] p by metis
qed

lemma port_queue_cong:
  assumes "pin_shape a" and "pin_shape b" and "covers a b" and "covers b a"
  shows "port_queue b = port_queue a"
proof
  fix port
  show "port_queue b port = port_queue a port"
    using covers_port_queue [OF assms(1,2,3), of port] covers_port_queue [OF assms(2,1,4), of port] by metis
qed

section \<open>The operations on queues\<close>

lemma sum_update:
  assumes "finite A" and "q \<in> A"
  shows "(\<Sum>x \<in> A. if x = q then y else f x) = (\<Sum>x \<in> A. f x) - f q + (y :: int)"
  using assms by (simp add: sum.remove)

lemma set_packets:
  assumes "pin_shape ps" and "pinqueues ps q = Some pq" and "queues ps' = queues ps"
    and "pinqueues ps' = (pinqueues ps)(q \<mapsto> pq\<lparr>packets := xs, q_n := int (length xs)\<rparr>)"
    and "n_queued ps' = n_queued ps - int (length (packets pq)) + int (length xs)"
  shows "pin_shape ps'" and "port_queue ps' = (port_queue ps)(port_no pq := xs)"
proof -
  have d: "dom (pinqueues ps') = dom (pinqueues ps)" using assms(2,4) by auto
  have port: "queue_port ps' = queue_port ps" using assms(2,4) by (auto simp: queue_port_def)
  have len: "q_n (the (pinqueues ps q)) = int (length (packets pq))" using pin_shapeD(4) [OF assms(1,2)] assms(2) by simp
  have "q_n (the (pinqueues ps' x)) = (if x = q then int (length xs) else q_n (the (pinqueues ps x)))" for x
    using assms(4) by simp
  then have "(\<Sum>x \<in> dom (pinqueues ps). q_n (the (pinqueues ps' x))) = n_queued ps'"
    using sum_update [OF finite_queues [OF assms(1)], of q "int (length xs)" "\<lambda>x. q_n (the (pinqueues ps x))"]
      assms(2,5) pin_shapeD(5) [OF assms(1)] len by auto
  then show shape: "pin_shape ps'"
    using assms(3,4) pin_shapeD [OF assms(1)] unfolding pin_shape_def d port by simp
  show "port_queue ps' = (port_queue ps)(port_no pq := xs)"
  proof
    fix port'
    show "port_queue ps' port' = ((port_queue ps)(port_no pq := xs)) port'"
    proof (cases "port' = port_no pq")
      case True
      then show ?thesis using port_queue_eq [OF shape, of q] assms(4) by simp
    next
      case False
      show ?thesis
      proof (cases "\<exists>q' pq'. pinqueues ps q' = Some pq' \<and> port_no pq' = port'")
        case True
        then obtain q' pq' where q': "pinqueues ps q' = Some pq'" "port_no pq' = port'" by blast
        then have "pinqueues ps' q' = Some pq'" using assms(2,4) False by auto
        then show ?thesis using port_queue_eq [OF shape _ q'(2)] port_queue_eq [OF assms(1) q'] False by simp
      next
        case none: False
        have "port_no pq' \<noteq> port'" if "pinqueues ps' q' = Some pq'" for q' pq'
          using that none False assms(4) by (auto split: if_splits)
        then show ?thesis using port_queue_none [OF shape] port_queue_none [OF assms(1)] none False by auto
      qed
    qed
  qed
qed

lemma pinqueue_destroy_sel [simp]:
  "pinqueues (pinqueue_destroy ps q) = (pinqueues ps)(q := None)"
  "queues (pinqueue_destroy ps q) = hmap_remove (queues ps) (port_hash (queue_port ps q), q)"
  "n_queued (pinqueue_destroy ps q) = n_queued ps" "next_txq (pinqueue_destroy ps q) = next_txq ps"
  "ps_bucket (pinqueue_destroy ps q) = ps_bucket ps"
  by (simp_all add: pinqueue_destroy_def queue_hash_port)

lemma destroy_shape:
  assumes "pin_shape ps" and "pinqueues ps q = Some pq" and "packets pq = []"
  shows "pin_shape (pinqueue_destroy ps q)" and "port_queue (pinqueue_destroy ps q) = port_queue ps"
proof -
  let ?ps = "pinqueue_destroy ps q" and ?node = "\<lambda>q. (port_hash (queue_port ps q), q)"
  have q: "q \<in> dom (pinqueues ps)" using assms(2) by blast
  have d: "dom (pinqueues ?ps) = dom (pinqueues ps) - {q}" by auto
  have port: "queue_port ?ps x = queue_port ps x" if "x \<noteq> q" for x using that by (simp add: queue_port_def)
  have node: "?node q \<in> hmap_node_set (queues ps)" unfolding pin_shapeD(2) [OF assms(1)] using q by (rule imageI)
  have "hmap_node_set (queues ?ps) = hmap_node_set (queues ps) - {?node q}"
    using hmap_bag.nodes_removed [OF pin_shapeD(1) [OF assms(1)] node] by simp
  also have "\<dots> = ?node ` (dom (pinqueues ps) - {q})" unfolding pin_shapeD(2) [OF assms(1)] by auto
  also have "\<dots> = (\<lambda>x. (port_hash (queue_port ?ps x), x)) ` dom (pinqueues ?ps)"
    unfolding d by (intro image_cong refl) (simp add: port)
  finally have nodes: "hmap_node_set (queues ?ps) = (\<lambda>x. (port_hash (queue_port ?ps x), x)) ` dom (pinqueues ?ps)" .
  have inj: "inj_on (queue_port ?ps) (dom (pinqueues ?ps))"
    using inj_on_subset [OF pin_shapeD(3) [OF assms(1)], of "dom (pinqueues ps) - {q}"]
    unfolding d by (subst inj_on_cong [where g = "queue_port ps"]) (auto simp: port)
  have "(\<Sum>x \<in> dom (pinqueues ps) - {q}. q_n (the (pinqueues ps x))) = n_queued ps"
    using sum.remove [OF finite_queues [OF assms(1)] q, of "\<lambda>x. q_n (the (pinqueues ps x))"]
      pin_shapeD(5) [OF assms(1)] pin_shapeD(4) [OF assms(1,2)] assms(2,3) by simp
  moreover have "(\<Sum>x \<in> dom (pinqueues ps) - {q}. q_n (the (pinqueues ?ps x))) =
      (\<Sum>x \<in> dom (pinqueues ps) - {q}. q_n (the (pinqueues ps x)))"
    by (rule sum.cong) auto
  ultimately have n: "n_queued ?ps = (\<Sum>x \<in> dom (pinqueues ?ps). q_n (the (pinqueues ?ps x)))" unfolding d by simp
  have "hmap_wf (queues ?ps)" using hmap_bag.invar_remove [OF pin_shapeD(1) [OF assms(1)] node] by simp
  then show shape: "pin_shape ?ps"
    using nodes inj n pin_shapeD(4) [OF assms(1)] unfolding pin_shape_def by (auto split: if_splits)
  have "covers ps ?ps" unfolding covers_def
  proof (intro allI impI)
    fix x px
    assume x: "pinqueues ps x = Some px \<and> packets px \<noteq> []"
    then have "x \<noteq> q" using assms(2,3) by auto
    with x show "\<exists>q' pq'. pinqueues ?ps q' = Some pq' \<and> port_no pq' = port_no px \<and> packets pq' = packets px"
      by (intro exI [of _ x] exI [of _ px]) simp
  qed
  moreover have "covers ?ps ps" unfolding covers_def by (auto split: if_splits)
  ultimately show "port_queue ?ps = port_queue ps" by (rule port_queue_cong [OF assms(1) shape])
qed

lemma new_queue:
  assumes "pin_shape ps" and "pinqueues ps new = None" and "\<And>q pq. pinqueues ps q = Some pq \<Longrightarrow> port_no pq \<noteq> port"
    and "ps' = ps\<lparr>queues := hmap_insert (queues ps) new (port_hash port),
      pinqueues := (pinqueues ps)(new \<mapsto> \<lparr>port_no = port, packets = [], q_n = 0\<rparr>)\<rparr>"
  shows "pin_shape ps'" and "port_queue ps' = port_queue ps"
proof -
  have new: "new \<notin> snd ` hmap_node_set (queues ps)" unfolding queue_objects [OF assms(1)] using assms(2) by auto
  have d: "dom (pinqueues ps') = insert new (dom (pinqueues ps))" unfolding assms(4) by auto
  have port: "queue_port ps' x = (if x = new then port else queue_port ps x)" for x unfolding assms(4) by (simp add: queue_port_def)
  have same: "queue_port ps' x = queue_port ps x" if "x \<in> dom (pinqueues ps)" for x using that assms(2) port by auto
  have "hmap_node_set (queues ps') = insert (port_hash port, new) (hmap_node_set (queues ps))"
    using hmap_bag.nodes_insert [OF pin_shapeD(1) [OF assms(1)] new] unfolding assms(4) by simp
  also have "\<dots> = insert (port_hash port, new) ((\<lambda>x. (port_hash (queue_port ps' x), x)) ` dom (pinqueues ps))"
    unfolding pin_shapeD(2) [OF assms(1)] by (intro arg_cong [where f = "insert _"] image_cong refl) (simp add: same)
  also have "\<dots> = (\<lambda>x. (port_hash (queue_port ps' x), x)) ` dom (pinqueues ps')" unfolding d by (simp add: port)
  finally have nodes: "hmap_node_set (queues ps') = (\<lambda>x. (port_hash (queue_port ps' x), x)) ` dom (pinqueues ps')" .
  have "inj_on (queue_port ps') (dom (pinqueues ps))"
    using pin_shapeD(3) [OF assms(1)] by (subst inj_on_cong [where g = "queue_port ps"]) (auto simp: same)
  moreover have "queue_port ps' new \<notin> queue_port ps' ` dom (pinqueues ps)"
    using assms(2,3) by (auto simp: port) (auto simp: queue_port_def)
  ultimately have inj: "inj_on (queue_port ps') (dom (pinqueues ps'))" unfolding d by auto
  have "(\<Sum>x \<in> dom (pinqueues ps). q_n (the (pinqueues ps' x))) = (\<Sum>x \<in> dom (pinqueues ps). q_n (the (pinqueues ps x)))"
    using assms(2) unfolding assms(4) by (intro sum.cong) auto
  then have n: "n_queued ps' = (\<Sum>x \<in> dom (pinqueues ps'). q_n (the (pinqueues ps' x)))"
    unfolding d using finite_queues [OF assms(1)] assms(2) pin_shapeD(5) [OF assms(1)]
    by (subst sum.insert) (auto simp: assms(4))
  have "hmap_wf (queues ps')" using hmap_bag.invar_insert [OF pin_shapeD(1) [OF assms(1)] new] unfolding assms(4) by simp
  moreover have "\<forall>q pq. pinqueues ps' q = Some pq \<longrightarrow> q_n pq = int (length (packets pq))"
    using pin_shapeD(4) [OF assms(1)] unfolding assms(4) by auto
  ultimately show shape: "pin_shape ps'" using nodes inj n unfolding pin_shape_def by blast
  have "covers ps ps'" unfolding covers_def
  proof (intro allI impI)
    fix x px
    assume "pinqueues ps x = Some px \<and> packets px \<noteq> []"
    then show "\<exists>q' pq'. pinqueues ps' q' = Some pq' \<and> port_no pq' = port_no px \<and> packets pq' = packets px"
      using assms(2) unfolding assms(4) by (intro exI [of _ x] exI [of _ px]) auto
  qed
  moreover have "covers ps' ps" unfolding covers_def assms(4) by (auto split: if_splits)
  ultimately show "port_queue ps' = port_queue ps" by (rule port_queue_cong [OF assms(1) shape])
qed

lemma pinqueue_get_correct:
  assumes "pin_shape ps" and "pinqueues ps new = None" and "pinqueue_get ps new port = (q, ps')"
  shows "pin_shape ps'" and "port_queue ps' = port_queue ps"
    and "n_queued ps' = n_queued ps" and "next_txq ps' = next_txq ps" and "ps_bucket ps' = ps_bucket ps"
    and "\<exists>pq. pinqueues ps' q = Some pq \<and> port_no pq = port"
    and "\<And>x. x \<noteq> q \<Longrightarrow> pinqueues ps' x = pinqueues ps x"
    and "pinqueues ps x \<noteq> None \<Longrightarrow> pinqueues ps' x \<noteq> None"
proof -
  have f: "List.find (\<lambda>q. queue_port ps q = port) (HMAP_FOR_EACH_IN_BUCKET (queues ps) (port_hash port)) =
      List.find (\<lambda>q. port_no (the (pinqueues ps q)) = port) (HMAP_FOR_EACH_IN_BUCKET (queues ps) (ucast (hash_ofp_port port)))"
    by (simp add: queue_port_def port_hash_def)
  consider (found) "q \<in> dom (pinqueues ps)" "queue_port ps q = port" "ps' = ps"
    | (fresh) "\<And>q pq. pinqueues ps q = Some pq \<Longrightarrow> port_no pq \<noteq> port" "q = new"
        "ps' = ps\<lparr>queues := hmap_insert (queues ps) new (port_hash port),
          pinqueues := (pinqueues ps)(new \<mapsto> \<lparr>port_no = port, packets = [], q_n = 0\<rparr>)\<rparr>"
  proof (cases "List.find (\<lambda>q. queue_port ps q = port) (HMAP_FOR_EACH_IN_BUCKET (queues ps) (port_hash port))")
    case None
    then have free: "port_no pq \<noteq> port" if "pinqueues ps x = Some pq" for x pq
      using find_queue [OF assms(1), of port x] that by (auto simp: queue_port_def)
    have "q = new" "ps' = ps\<lparr>queues := hmap_insert (queues ps) new (port_hash port),
        pinqueues := (pinqueues ps)(new \<mapsto> \<lparr>port_no = port, packets = [], q_n = 0\<rparr>)\<rparr>"
      using None assms(3) unfolding f by (auto simp: pinqueue_get_def Let_def port_hash_def)
    from fresh [OF free this] show ?thesis .
  next
    case (Some x)
    then have "q = x" "ps' = ps" using assms(3) unfolding f by (simp_all add: pinqueue_get_def Let_def)
    then show ?thesis using find_queue [OF assms(1), of port x] Some found by blast
  qed
  note c = this
  have "pin_shape ps' \<and> port_queue ps' = port_queue ps"
    using c
  proof cases
    case found
    then show ?thesis using assms(1) by simp
  next
    case fresh
    then show ?thesis using new_queue [OF assms(1,2) fresh(1,3)] by simp
  qed
  then show "pin_shape ps'" "port_queue ps' = port_queue ps" by simp_all
  show "n_queued ps' = n_queued ps" "next_txq ps' = next_txq ps" "ps_bucket ps' = ps_bucket ps"
    using c by (cases; simp)+
  show "\<exists>pq. pinqueues ps' q = Some pq \<and> port_no pq = port" using c by cases (auto simp: queue_port_def)
  show "pinqueues ps' x = pinqueues ps x" if "x \<noteq> q" for x using c that by cases auto
  show "pinqueues ps' x \<noteq> None" if "pinqueues ps x \<noteq> None" using c that by cases auto
qed

lemma dequeue_correct:
  assumes "pin_shape ps" and "pinqueues ps q = Some pq" and "packets pq = packet # rest"
  obtains ps' where "dequeue_packet ps q = Some (packet, ps')" and "pin_shape ps'"
    and "port_queue ps' = (port_queue ps)(port_no pq := rest)"
    and "pinqueues ps' = (pinqueues ps)(q \<mapsto> pq\<lparr>packets := rest, q_n := int (length rest)\<rparr>)"
    and "ps' = ps\<lparr>pinqueues := pinqueues ps', n_queued := n_queued ps - 1\<rparr>"
proof -
  let ?ps = "ps\<lparr>pinqueues := (pinqueues ps)(q \<mapsto> pq\<lparr>packets := rest, q_n := int (length rest)\<rparr>), n_queued := n_queued ps - 1\<rparr>"
  have n: "q_n pq - 1 = int (length rest)" using pin_shapeD(4) [OF assms(1,2)] assms(3) by simp
  have "dequeue_packet ps q = Some (packet, ?ps)" using assms(2,3) n by (simp add: dequeue_packet_def)
  moreover have "pin_shape ?ps" "port_queue ?ps = (port_queue ps)(port_no pq := rest)"
    using set_packets [OF assms(1,2), of ?ps rest] assms(3) by simp_all
  ultimately show ?thesis by (rule that) simp_all
qed

lemma cleanup_correct:
  assumes "pin_shape ps" and "pinqueues ps q = Some pq" and "\<forall>x px. pinqueues ps x = Some px \<and> x \<noteq> q \<longrightarrow> packets px \<noteq> []"
    and "ps' = (if q_n (the (pinqueues ps q)) = 0 then pinqueue_destroy ps q else ps)"
  shows "pinsched_inv ps'" and "port_queue ps' = port_queue ps" and "n_queued ps' = n_queued ps"
    and "next_txq ps' = next_txq ps" and "ps_bucket ps' = ps_bucket ps"
    and "\<And>x. x \<noteq> q \<Longrightarrow> pinqueues ps' x = pinqueues ps x"
proof -
  have e: "q_n (the (pinqueues ps q)) = 0 \<longleftrightarrow> packets pq = []" using pin_shapeD(4) [OF assms(1,2)] assms(2) by simp
  show "n_queued ps' = n_queued ps" "next_txq ps' = next_txq ps" "ps_bucket ps' = ps_bucket ps"
    using assms(4) by simp_all
  show "pinqueues ps' x = pinqueues ps x" if "x \<noteq> q" for x using assms(4) that by simp
  have "pinsched_inv ps' \<and> port_queue ps' = port_queue ps"
  proof (cases "packets pq = []")
    case True
    then have ps': "ps' = pinqueue_destroy ps q" using e assms(4) by simp
    have "packets px \<noteq> []" if "pinqueues ps' x = Some px" for x px using that assms(3) unfolding ps' by (simp split: if_splits)
    then show ?thesis using destroy_shape [OF assms(1,2) True] unfolding pinsched_inv_def ps' by blast
  next
    case False
    then have ps': "ps' = ps" using e assms(4) by simp
    have "packets px \<noteq> []" if "pinqueues ps x = Some px" for x px
      using that assms(2,3) False by (cases "x = q") auto
    then show ?thesis using assms(1) unfolding pinsched_inv_def ps' by blast
  qed
  then show "pinsched_inv ps'" "port_queue ps' = port_queue ps" by simp_all
qed

subsection \<open>The longest queue\<close>

lemma find_longest_max:
  "\<exists>l'. find_longest ps zero i qs (Some l) n = Some l' \<and> l' \<in> insert l (set qs) \<and>
     (\<forall>q \<in> insert l (set qs). q_n (the (pinqueues ps q)) \<le> q_n (the (pinqueues ps l')))"
proof (induction qs arbitrary: i l n)
  case (Cons q qs)
  let ?len = "\<lambda>q. q_n (the (pinqueues ps q))"
  have "\<exists>m n'. find_longest ps zero i (q # qs) (Some l) n = find_longest ps zero (Suc i) qs (Some m) n' \<and>
      m \<in> {l, q} \<and> ?len l \<le> ?len m \<and> ?len q \<le> ?len m"
  proof (cases "?len l" "?len q" rule: linorder_cases)
    case less
    then show ?thesis by (intro exI [of _ q] exI [of _ 1]) (simp add: Let_def)
  next
    case equal
    then show ?thesis by (intro exI [of _ "if zero i then q else l"] exI [of _ "n + 1"]) (simp add: Let_def)
  next
    case greater
    then show ?thesis by (intro exI [of _ l] exI [of _ n]) (simp add: Let_def)
  qed
  then obtain m n' where m: "find_longest ps zero i (q # qs) (Some l) n = find_longest ps zero (Suc i) qs (Some m) n'"
    "m \<in> {l, q}" "?len l \<le> ?len m" "?len q \<le> ?len m" by blast
  obtain l' where l': "find_longest ps zero (Suc i) qs (Some m) n' = Some l'" "l' \<in> insert m (set qs)"
    "\<And>x. x \<in> insert m (set qs) \<Longrightarrow> ?len x \<le> ?len l'"
    using Cons.IH [of "Suc i" m n'] by blast
  have "?len m \<le> ?len l'" by (rule l'(3)) simp
  then have "?len x \<le> ?len l'" if "x \<in> insert l (set (q # qs))" for x
    using that l'(3) [of x] m(3,4) by auto
  moreover have "l' \<in> insert l (set (q # qs))" using l'(2) m(2) by auto
  ultimately show ?case unfolding m(1) l'(1) by blast
qed simp

lemma find_longest_None: "find_longest ps zero i (q # qs) None n = find_longest ps zero (Suc i) qs (Some q) 1"
  by (simp add: Let_def)

definition drops_longest :: "(u16 \<Rightarrow> nat list) \<Rightarrow> (u16 \<Rightarrow> nat list) \<Rightarrow> bool" where
  "drops_longest s s' \<longleftrightarrow> (\<exists>port. s port \<noteq> [] \<and> (\<forall>p. length (s p) \<le> length (s port)) \<and> s' = s(port := tl (s port)))"

lemma queues_nonempty:
  assumes "pinsched_inv ps"
  shows "pinqueues ps = Map.empty \<longleftrightarrow> n_queued ps = 0" and "0 \<le> n_queued ps"
proof -
  have shape: "pin_shape ps" and ne: "\<And>q pq. pinqueues ps q = Some pq \<Longrightarrow> packets pq \<noteq> []"
    using assms by (auto simp: pinsched_inv_def)
  have pos: "0 < q_n (the (pinqueues ps q))" if "q \<in> dom (pinqueues ps)" for q
    using that ne pin_shapeD(4) [OF shape] by auto
  show "0 \<le> n_queued ps" unfolding pin_shapeD(5) [OF shape] using pos by (intro sum_nonneg) (simp add: order_less_imp_le)
  have "dom (pinqueues ps) = {} \<longleftrightarrow> n_queued ps = 0"
  proof
    assume "n_queued ps = 0"
    then have "\<forall>q \<in> dom (pinqueues ps). q_n (the (pinqueues ps q)) = 0"
      unfolding pin_shapeD(5) [OF shape] using pos finite_queues [OF shape]
      by (subst (asm) sum_nonneg_eq_0_iff) (auto simp: order_less_imp_le)
    then show "dom (pinqueues ps) = {}" using pos by force
  qed (simp add: pin_shapeD(5) [OF shape])
  then show "pinqueues ps = Map.empty \<longleftrightarrow> n_queued ps = 0" by simp
qed

lemma pinsched_invD:
  assumes "pinsched_inv ps"
  shows "pin_shape ps" and "\<And>q pq. pinqueues ps q = Some pq \<Longrightarrow> packets pq \<noteq> []"
  using assms by (simp_all add: pinsched_inv_def)

lemma pinsched_inv_cong:
  assumes "queues ps' = queues ps" and "pinqueues ps' = pinqueues ps" and "n_queued ps' = n_queued ps"
  shows "pinsched_inv ps' \<longleftrightarrow> pinsched_inv ps" and "port_queue ps' = port_queue ps" and "pin_shape ps' \<longleftrightarrow> pin_shape ps"
proof -
  have port: "queue_port ps' = queue_port ps" using assms(2) by (simp add: fun_eq_iff queue_port_def)
  then show "pin_shape ps' \<longleftrightarrow> pin_shape ps" using assms by (simp add: pin_shape_def)
  then show "pinsched_inv ps' \<longleftrightarrow> pinsched_inv ps" using assms(2) by (simp add: pinsched_inv_def)
  show "port_queue ps' = port_queue ps" unfolding port_queue_def [abs_def] assms port ..
qed

lemma all_queues:
  assumes "pin_shape ps"
  shows "set (HMAP_FOR_EACH (queues ps)) = dom (pinqueues ps)"
  using queue_objects [OF assms] by (simp add: HMAP_FOR_EACH_eq [OF pin_shapeD(1) [OF assms]] hmap_node_set_def)

lemma longest_queue:
  assumes "pinsched_inv ps" and "n_queued ps \<noteq> 0"
  obtains q pq where "find_longest ps zero 0 (HMAP_FOR_EACH (queues ps)) None 0 = Some q" and "pinqueues ps q = Some pq"
    and "\<And>port. length (port_queue ps port) \<le> length (packets pq)"
proof -
  note shape = pinsched_invD(1) [OF assms(1)]
  have "dom (pinqueues ps) \<noteq> {}" using queues_nonempty(1) [OF assms(1)] assms(2) by simp
  then obtain x xs where xs: "HMAP_FOR_EACH (queues ps) = x # xs" using all_queues [OF shape] by (cases "HMAP_FOR_EACH (queues ps)") auto
  then have set: "insert x (set xs) = dom (pinqueues ps)" using all_queues [OF shape] by simp
  obtain q where q: "find_longest ps zero 0 (HMAP_FOR_EACH (queues ps)) None 0 = Some q" "q \<in> dom (pinqueues ps)"
    "\<And>x. x \<in> dom (pinqueues ps) \<Longrightarrow> q_n (the (pinqueues ps x)) \<le> q_n (the (pinqueues ps q))"
    using find_longest_max [of ps zero "Suc 0" xs x 1] unfolding xs find_longest_None set by blast
  then obtain pq where pq: "pinqueues ps q = Some pq" by blast
  have "length (port_queue ps port) \<le> length (packets pq)" for port
  proof (cases "\<exists>x px. pinqueues ps x = Some px \<and> port_no px = port")
    case True
    then obtain x px where x: "pinqueues ps x = Some px" "port_no px = port" by blast
    then have "q_n px \<le> q_n pq" using q(3) [of x] pq by auto
    then show ?thesis using port_queue_eq [OF shape x] pin_shapeD(4) [OF shape x(1)] pin_shapeD(4) [OF shape pq] by simp
  next
    case False
    then show ?thesis using port_queue_none [OF shape, of port] by auto
  qed
  then show ?thesis using that q(1) pq by blast
qed

lemma drop_packet_correct:
  assumes "pinsched_inv ps" and "n_queued ps \<noteq> 0"
  obtains ps' where "drop_packet zero ps = Some ps'" and "pinsched_inv ps'" and "drops_longest (port_queue ps) (port_queue ps')"
    and "next_txq ps' = next_txq ps" and "ps_bucket ps' = ps_bucket ps" and "\<And>q. pinqueues ps q = None \<Longrightarrow> pinqueues ps' q = None"
proof -
  define ps0 where "ps0 = ps\<lparr>n_queue_dropped := n_queue_dropped ps + 1\<rparr>"
  have same: "pinsched_inv ps0" "port_queue ps0 = port_queue ps" "n_queued ps0 \<noteq> 0"
    using assms pinsched_inv_cong [of ps0 ps] by (simp_all add: ps0_def)
  note shape = pinsched_invD(1) [OF same(1)]
  obtain q pq where q: "find_longest ps0 zero 0 (HMAP_FOR_EACH (queues ps0)) None 0 = Some q" "pinqueues ps0 q = Some pq"
    "\<And>port. length (port_queue ps0 port) \<le> length (packets pq)" using longest_queue [OF same(1,3)] by metis
  obtain packet rest where p: "packets pq = packet # rest" using pinsched_invD(2) [OF same(1) q(2)] by (cases "packets pq") auto
  obtain ps1 where ps1: "dequeue_packet ps0 q = Some (packet, ps1)" "pin_shape ps1"
    "port_queue ps1 = (port_queue ps0)(port_no pq := rest)"
    "pinqueues ps1 = (pinqueues ps0)(q \<mapsto> pq\<lparr>packets := rest, q_n := int (length rest)\<rparr>)"
    "ps1 = ps0\<lparr>pinqueues := pinqueues ps1, n_queued := n_queued ps0 - 1\<rparr>"
    using dequeue_correct [OF shape q(2) p] by metis
  define ps' where "ps' = (if q_n (the (pinqueues ps1 q)) = 0 then pinqueue_destroy ps1 q else ps1)"
  have some: "pinqueues ps1 q = Some (pq\<lparr>packets := rest, q_n := int (length rest)\<rparr>)" using ps1(4) by simp
  have ne: "\<forall>x px. pinqueues ps1 x = Some px \<and> x \<noteq> q \<longrightarrow> packets px \<noteq> []"
    using ps1(4) pinsched_invD(2) [OF same(1)] by simp
  note c = cleanup_correct [OF ps1(2) some ne ps'_def]
  have eq: "port_queue ps0 (port_no pq) = packets pq" by (rule port_queue_eq [OF shape q(2) refl])
  show ?thesis
  proof (rule that [OF _ c(1)])
    show "drop_packet zero ps = Some ps'"
      unfolding drop_packet_def Let_def ps0_def [symmetric] by (simp add: q(1) ps1(1) ps'_def)
    show "drops_longest (port_queue ps) (port_queue ps')"
      unfolding drops_longest_def same(2) [symmetric]
      using q(3) by (intro exI [of _ "port_no pq"]) (simp add: eq p c(2) ps1(3))
    have "next_txq ps1 = next_txq ps0" "ps_bucket ps1 = ps_bucket ps0" by (subst ps1(5), simp)+
    then show "next_txq ps' = next_txq ps" "ps_bucket ps' = ps_bucket ps" using c(4,5) by (simp_all add: ps0_def)
    show "pinqueues ps' x = None" if "pinqueues ps x = None" for x
      using that q(2) c(6) [of x] ps1(4) by (cases "x = q") (simp_all add: ps0_def)
  qed
qed

subsection \<open>Round robin\<close>

lemma hmap_next_node:
  assumes "hmap_wf h" and "(k, q) \<in> hmap_node_set h" and "p # ps = hmap_next h (dropWhile (\<lambda>p. snd p \<noteq> q) (hmap_first_in_bucket h k))"
  shows "p \<in> hmap_node_set h" and "snd p \<noteq> q"
proof -
  let ?b = "hmap_first_in_bucket h k"
  have b: "?b = buckets h ! hmap_bucket h k" by (simp add: hmap_first_in_bucket_def)
  have "(k, q) \<in> set ?b" using hmap_node_bucket [OF assms(1), of "(k, q)"] assms(2) by (simp add: b hmap_node_set_def)
  then obtain as bs where ab: "?b = as @ (k, q) # bs" by (meson split_list)
  have d: "distinct (map snd ?b)" unfolding b by (rule hmap_bucket_distinct [OF assms(1)])
  have "\<forall>x \<in> set as. snd x \<noteq> q" using d unfolding ab by force
  then have node: "dropWhile (\<lambda>p. snd p \<noteq> q) ?b = (k, q) # bs" unfolding ab by (subst dropWhile_append2) auto
  have sub: "set ?b \<subseteq> hmap_node_set h"
    using nth_mem [OF hmap_bucket_less [OF assms(1), of k]] by (auto simp: b hmap_node_set_def hmap_nodes_def)
  have "p \<in> hmap_node_set h \<and> snd p \<noteq> q"
  proof (cases "bs = []")
    case False
    then have "p \<in> set bs" using assms(3) unfolding node by (metis hmap_next.simps(2) list.set_intros(1))
    then show ?thesis using sub d unfolding ab by force
  next
    case True
    then have nx: "p # ps = hmap_next_from h (Suc (hmap_bucket h k))" using assms(3) unfolding node by simp
    have "concat (drop (Suc (hmap_bucket h k)) (buckets h)) = nodes_from h (p # ps)"
      unfolding nx using hmap_next_from_rest [OF assms(1)] by simp
    then have "p \<in> set (concat (drop (Suc (hmap_bucket h k)) (buckets h)))" by (simp add: nodes_from_Cons)
    then obtain i where i: "Suc (hmap_bucket h k) + i < length (buckets h)" "p \<in> set (buckets h ! (Suc (hmap_bucket h k) + i))"
      by (force simp: set_conv_nth [of "drop _ _"])
    then have bucket: "hmap_bucket h (fst p) = Suc (hmap_bucket h k) + i" using assms(1) by (auto simp: hmap_wf_def)
    have p: "p \<in> hmap_node_set h" using i by (auto simp: hmap_node_set_def hmap_nodes_def)
    have "snd p \<noteq> q"
    proof
      assume "snd p = q"
      then have "p = (k, q)" using hmap_bag.one_node [OF assms(1)] p assms(2) by (metis inj_onD snd_conv)
      then show False using bucket by simp
    qed
    with p show ?thesis by simp
  qed
  then show "p \<in> hmap_node_set h" "snd p \<noteq> q" by simp_all
qed

lemma hmap_first_node:
  assumes "hmap_wf h"
  shows "case hmap_first h of [] \<Rightarrow> hmap_node_set h = {} | p # ps \<Rightarrow> p \<in> hmap_node_set h"
proof -
  have "nodes_from h (hmap_first h) = hmap_nodes h"
    using hmap_next_from_rest [OF assms, of 0] by (simp add: hmap_first_def hmap_nodes_def)
  then show ?thesis
    by (cases "hmap_first h") (auto simp: nodes_from_def hmap_node_set_def dest: sym)
qed

lemma advance_correct:
  assumes "pin_shape ps" and "txq_ok ps"
  obtains nx where "advance_txq ps = Some (ps\<lparr>next_txq := nx\<rparr>)" and "\<And>q. nx = Some q \<Longrightarrow> q \<in> dom (pinqueues ps)"
    and "\<And>q. nx = Some q \<Longrightarrow> next_txq ps \<noteq> Some q" and "next_txq ps = None \<Longrightarrow> pinqueues ps \<noteq> Map.empty \<Longrightarrow> nx \<noteq> None"
proof -
  note wf = pin_shapeD(1) [OF assms(1)]
  have obj: "snd p \<in> dom (pinqueues ps)" if "p \<in> hmap_node_set (queues ps)" for p
    using that queue_objects [OF assms(1)] by force
  show ?thesis
  proof (cases "next_txq ps")
    case None
    let ?nx = "case hmap_first (queues ps) of [] \<Rightarrow> None | p # _ \<Rightarrow> Some (snd p)"
    have "advance_txq ps = Some (ps\<lparr>next_txq := ?nx\<rparr>)" by (simp add: advance_txq_def None)
    moreover have "q \<in> dom (pinqueues ps)" if "?nx = Some q" for q
      using that hmap_first_node [OF wf] obj by (auto split: list.splits)
    moreover have "?nx \<noteq> None" if "pinqueues ps \<noteq> Map.empty"
    proof -
      have "hmap_node_set (queues ps) \<noteq> {}" using that unfolding pin_shapeD(2) [OF assms(1)] by simp
      then show ?thesis using hmap_first_node [OF wf] by (auto split: list.splits)
    qed
    ultimately show ?thesis using that None by simp
  next
    case (Some q)
    define c where "c = hmap_next (queues ps) (dropWhile (\<lambda>p. snd p \<noteq> q) (hmap_first_in_bucket (queues ps) (port_hash (queue_port ps q))))"
    define nx where "nx = (case c of [] \<Rightarrow> None | p # _ \<Rightarrow> Some (snd p))"
    have q: "q \<in> dom (pinqueues ps)" using assms(2) Some by (auto simp: txq_ok_def)
    then have node: "(port_hash (queue_port ps q), q) \<in> hmap_node_set (queues ps)" unfolding pin_shapeD(2) [OF assms(1)] by auto
    have adv: "advance_txq ps = Some (ps\<lparr>next_txq := nx\<rparr>)"
      using q by (auto simp: advance_txq_def Some queue_node_def queue_hash_port nx_def c_def)
    have nx: "x \<in> dom (pinqueues ps) \<and> x \<noteq> q" if x: "nx = Some x" for x
    proof (cases c)
      case (Cons p ps')
      then have "x = snd p" using x by (simp add: nx_def)
      then show ?thesis using hmap_next_node [OF wf node, of p ps'] obj Cons by (simp add: c_def)
    qed (use x in \<open>simp add: nx_def\<close>)
    show ?thesis
    proof (rule that [OF adv])
      show "x \<in> dom (pinqueues ps)" "next_txq ps \<noteq> Some x" if "nx = Some x" for x using nx [OF that] Some by auto
    qed (simp add: Some)
  qed
qed

lemma next_queue:
  assumes "pinsched_inv ps" and "txq_ok ps" and "n_queued ps \<noteq> 0"
  obtains q where "(if next_txq ps = None then advance_txq ps else Some ps) = Some (ps\<lparr>next_txq := Some q\<rparr>)"
    and "q \<in> dom (pinqueues ps)"
proof (cases "next_txq ps")
  case None
  obtain nx where nx: "advance_txq ps = Some (ps\<lparr>next_txq := nx\<rparr>)" "\<And>q. nx = Some q \<Longrightarrow> q \<in> dom (pinqueues ps)"
    "pinqueues ps \<noteq> Map.empty \<Longrightarrow> nx \<noteq> None"
    using advance_correct [OF pinsched_invD(1) [OF assms(1)] assms(2)] None by metis
  then obtain q where "nx = Some q" using queues_nonempty(1) [OF assms(1)] assms(3) by auto
  then show ?thesis using that [of q] nx None by simp
next
  case (Some q)
  then show ?thesis using that [of q] assms(2) by (auto simp: txq_ok_def)
qed

lemma get_tx_correct:
  assumes "pinsched_inv ps" and "txq_ok ps" and "n_queued ps \<noteq> 0"
  obtains packet ps' port rest where "get_tx_packet ps = Some (packet, ps')" and "pinsched_inv ps'" and "txq_ok ps'"
    and "port_queue ps port = packet # rest" and "port_queue ps' = (port_queue ps)(port := rest)"
    and "ps_bucket ps' = ps_bucket ps" and "n_queued ps' = n_queued ps - 1"
proof -
  obtain q where adv: "(if next_txq ps = None then advance_txq ps else Some ps) = Some (ps\<lparr>next_txq := Some q\<rparr>)"
    and q: "q \<in> dom (pinqueues ps)" using next_queue [OF assms] by metis
  define ps0 where "ps0 = ps\<lparr>next_txq := Some q\<rparr>"
  have same: "pinsched_inv ps0" "port_queue ps0 = port_queue ps" using assms(1) pinsched_inv_cong [of ps0 ps] by (simp_all add: ps0_def)
  note shape = pinsched_invD(1) [OF same(1)]
  obtain pq where pq: "pinqueues ps0 q = Some pq" using q by (auto simp: ps0_def)
  obtain packet rest where p: "packets pq = packet # rest" using pinsched_invD(2) [OF same(1) pq] by (cases "packets pq") auto
  obtain ps1 where ps1: "dequeue_packet ps0 q = Some (packet, ps1)" "pin_shape ps1"
    "port_queue ps1 = (port_queue ps0)(port_no pq := rest)"
    "pinqueues ps1 = (pinqueues ps0)(q \<mapsto> pq\<lparr>packets := rest, q_n := int (length rest)\<rparr>)"
    "ps1 = ps0\<lparr>pinqueues := pinqueues ps1, n_queued := n_queued ps0 - 1\<rparr>"
    using dequeue_correct [OF shape pq p] by metis
  have sel1: "next_txq ps1 = Some q" "ps_bucket ps1 = ps_bucket ps" "n_queued ps1 = n_queued ps - 1"
    by (subst ps1(5), simp add: ps0_def)+
  have "txq_ok ps1" using ps1(4) by (simp add: txq_ok_def sel1)
  then obtain nx where nx: "advance_txq ps1 = Some (ps1\<lparr>next_txq := nx\<rparr>)"
    "\<And>x. nx = Some x \<Longrightarrow> x \<in> dom (pinqueues ps1)" "\<And>x. nx = Some x \<Longrightarrow> x \<noteq> q"
    using advance_correct [OF ps1(2)] sel1(1) by metis
  define ps2 where "ps2 = ps1\<lparr>next_txq := nx\<rparr>"
  have shape2: "pin_shape ps2" and pq2: "port_queue ps2 = port_queue ps1"
    using ps1(2) pinsched_inv_cong [of ps2 ps1] by (simp_all add: ps2_def)
  have some: "pinqueues ps2 q = Some (pq\<lparr>packets := rest, q_n := int (length rest)\<rparr>)" using ps1(4) by (simp add: ps2_def)
  have ne: "\<forall>x px. pinqueues ps2 x = Some px \<and> x \<noteq> q \<longrightarrow> packets px \<noteq> []"
    using ps1(4) pinsched_invD(2) [OF same(1)] by (simp add: ps2_def)
  define ps' where "ps' = (if q_n (the (pinqueues ps2 q)) = 0 then pinqueue_destroy ps2 q else ps2)"
  note c = cleanup_correct [OF shape2 some ne ps'_def]
  have get: "get_tx_packet ps = Some (packet, ps')"
    unfolding get_tx_packet_def adv ps0_def [symmetric] by (simp add: ps0_def ps1(1) [unfolded ps0_def] nx(1) ps'_def ps2_def)
  have ok: "txq_ok ps'"
    using c(4) c(6) nx(2,3) by (auto simp: txq_ok_def ps2_def split: option.splits)
  show ?thesis
  proof (rule that [OF get c(1) ok])
    show "port_queue ps (port_no pq) = packet # rest" using port_queue_eq [OF shape pq refl] p same(2) by simp
    show "port_queue ps' = (port_queue ps)(port_no pq := rest)" using c(2) pq2 ps1(3) same(2) by simp
    show "ps_bucket ps' = ps_bucket ps" "n_queued ps' = n_queued ps - 1" using c(3,5) sel1 by (simp_all add: ps2_def)
  qed
qed

lemma get_tx_dangling: "\<not> txq_ok ps \<Longrightarrow> get_tx_packet ps = None"
  by (auto simp: txq_ok_def get_tx_packet_def dequeue_packet_def split: option.splits)

section \<open>Sending and running\<close>

fun sends_heads :: "(u16 \<Rightarrow> nat list) \<Rightarrow> nat list \<Rightarrow> (u16 \<Rightarrow> nat list) \<Rightarrow> bool" where
  "sends_heads s [] s' \<longleftrightarrow> s' = s"
| "sends_heads s (x # xs) s' \<longleftrightarrow> (\<exists>port. s port \<noteq> [] \<and> hd (s port) = x \<and> sends_heads (s(port := tl (s port))) xs s')"

lemma get_token_sel:
  assumes "get_token now ps = (ok, ps')"
  shows "pinsched_inv ps' \<longleftrightarrow> pinsched_inv ps" and "port_queue ps' = port_queue ps" and "txq_ok ps' \<longleftrightarrow> txq_ok ps"
    and "n_queued ps' = n_queued ps" and "pinqueues ps' = pinqueues ps"
    and "token_bucket_withdraw now (ps_bucket ps) 1000 = (ok, ps_bucket ps')"
proof -
  obtain tb where ps': "ps' = ps\<lparr>ps_bucket := tb\<rparr>" and tb: "token_bucket_withdraw now (ps_bucket ps) 1000 = (ok, tb)"
    using assms by (auto simp: get_token_def split: prod.splits)
  show "pinsched_inv ps' \<longleftrightarrow> pinsched_inv ps" "port_queue ps' = port_queue ps" "txq_ok ps' \<longleftrightarrow> txq_ok ps"
    "n_queued ps' = n_queued ps" "pinqueues ps' = pinqueues ps"
    "token_bucket_withdraw now (ps_bucket ps) 1000 = (ok, ps_bucket ps')"
    using pinsched_inv_cong [of ps' ps] tb by (simp_all add: ps' txq_ok_def split: option.split)
qed

lemma queue_packet_correct:
  assumes "pinsched_inv ps" and "pinqueues ps new = None" and "burst (ps_bucket ps) \<noteq> 0"
  obtains ps' s where "queue_packet zero ps new port packet = Some ps'" and "pinsched_inv ps'"
    and "if burst (ps_bucket ps) \<le> word_of_int (n_queued ps * 1000) then drops_longest (port_queue ps) s else s = port_queue ps"
    and "port_queue ps' = s(port := s port @ [packet])" and "ps_bucket ps' = ps_bucket ps"
    and "txq_ok ps \<Longrightarrow> word_of_int (n_queued ps * 1000) < burst (ps_bucket ps) \<Longrightarrow> txq_ok ps'"
proof -
  define full where "full \<longleftrightarrow> burst (ps_bucket ps) \<le> word_of_int (n_queued ps * 1000)"
  have "n_queued ps \<noteq> 0" if full using that assms(3) by (auto simp: full_def)
  then obtain ps1 where ps1: "(if full then drop_packet zero ps else Some ps) = Some ps1" "pinsched_inv ps1"
    "if full then drops_longest (port_queue ps) (port_queue ps1) else ps1 = ps"
    "next_txq ps1 = next_txq ps" "ps_bucket ps1 = ps_bucket ps" "pinqueues ps1 new = None"
    using drop_packet_correct [OF assms(1), of zero] assms(1,2) by (cases full) (simp, metis, simp)
  obtain q ps2 where g: "pinqueue_get ps1 new port = (q, ps2)" by fastforce
  note get = pinqueue_get_correct [OF pinsched_invD(1) [OF ps1(2)] ps1(6) g]
  obtain pq where pq: "pinqueues ps2 q = Some pq" "port_no pq = port" using get(6) by blast
  define ps' where "ps' = ps2\<lparr>pinqueues := (pinqueues ps2)(q \<mapsto> pq\<lparr>packets := packets pq @ [packet], q_n := q_n pq + 1\<rparr>),
    n_queued := n_queued ps2 + 1, n_limited := n_limited ps2 + 1\<rparr>"
  have n: "q_n pq + 1 = int (length (packets pq @ [packet]))" using pin_shapeD(4) [OF get(1) pq(1)] by simp
  have sel: "queues ps' = queues ps2" "n_queued ps' = n_queued ps2 - int (length (packets pq)) + int (length (packets pq @ [packet]))"
    "pinqueues ps' = (pinqueues ps2)(q \<mapsto> pq\<lparr>packets := packets pq @ [packet], q_n := int (length (packets pq @ [packet]))\<rparr>)"
    unfolding n [symmetric] using pin_shapeD(4) [OF get(1) pq(1)] by (simp_all add: ps'_def)
  note set = set_packets [OF get(1) pq(1) sel(1,3,2)]
  have ne: "packets px \<noteq> []" if "pinqueues ps' x = Some px" for x px
    using that get(7) [of x] pinsched_invD(2) [OF ps1(2), of x] by (auto simp: ps'_def split: if_splits)
  show ?thesis
  proof (rule that [of ps' "port_queue ps1"])
    show "queue_packet zero ps new port packet = Some ps'"
      unfolding queue_packet_def full_def [symmetric] ps1(1) by (simp add: Let_def g pq ps'_def)
    show "pinsched_inv ps'" using set(1) ne unfolding pinsched_inv_def by blast
    show "if burst (ps_bucket ps) \<le> word_of_int (n_queued ps * 1000) then drops_longest (port_queue ps) (port_queue ps1)
        else port_queue ps1 = port_queue ps"
      using ps1(3) by (auto simp: full_def split: if_splits)
    show "port_queue ps' = (port_queue ps1)(port := port_queue ps1 port @ [packet])"
      using set(2) get(2) pq(2) port_queue_eq [OF get(1) pq] by simp
    show "ps_bucket ps' = ps_bucket ps" using ps1(5) get(5) by (simp add: ps'_def)
    show "txq_ok ps'" if "txq_ok ps" "word_of_int (n_queued ps * 1000) < burst (ps_bucket ps)"
    proof -
      have "ps1 = ps" using ps1(3) that(2) by (auto simp: full_def)
      then show ?thesis using that(1) get(4,8) by (auto simp: txq_ok_def ps'_def split: option.splits)
    qed
  qed
qed

lemma send_correct:
  assumes "pinsched_inv ps" and "pinqueues ps new = None" and "burst (ps_bucket ps) \<noteq> 0"
  shows "\<exists>sent ps' s. pinsched_send now zero (Some ps) new port packet = Some (sent, Some ps') \<and> pinsched_inv ps' \<and>
    (txq_ok ps \<and> word_of_int (n_queued ps * 1000) < burst (ps_bucket ps) \<longrightarrow> txq_ok ps') \<and>
    (if sent = [] then
       (if burst (ps_bucket ps) \<le> word_of_int (n_queued ps * 1000) then drops_longest (port_queue ps) s else s = port_queue ps) \<and>
       port_queue ps' = s(port := s port @ [packet])
     else n_queued ps = 0 \<and> sent = [packet] \<and> port_queue ps' = port_queue ps)"
proof -
  obtain ok ps1 where g: "(if n_queued ps = 0 then get_token now ps else (False, ps)) = (ok, ps1)" by fastforce
  have b: "burst tb' = burst tb" if "token_bucket_withdraw now tb 1000 = (ok, tb')" for tb tb' ok
    using that by (auto simp: token_bucket_withdraw_def token_bucket_fill_def Let_def split: if_splits)
  have same: "pinsched_inv ps1" "port_queue ps1 = port_queue ps" "n_queued ps1 = n_queued ps" "pinqueues ps1 = pinqueues ps"
    "burst (ps_bucket ps1) = burst (ps_bucket ps)" "txq_ok ps1 = txq_ok ps"
    using g get_token_sel [of now ps ok ps1] assms(1) b by (auto split: if_splits)
  show ?thesis
  proof (cases ok)
    case True
    let ?ps = "ps1\<lparr>n_normal := n_normal ps1 + 1\<rparr>"
    have "pinsched_inv ?ps" "port_queue ?ps = port_queue ps" using same pinsched_inv_cong [of ?ps ps1] by simp_all
    moreover have "txq_ok ?ps = txq_ok ps" unfolding same(6) [symmetric] by (simp add: txq_ok_def split: option.split)
    moreover have "n_queued ps = 0" using g True by (auto split: if_splits)
    moreover have "pinsched_send now zero (Some ps) new port packet = Some ([packet], Some ?ps)"
      using True by (simp only: pinsched_send_def option.case g Let_def) simp
    ultimately show ?thesis by (intro exI [of _ "[packet]"] exI [of _ ?ps]) simp
  next
    case False
    obtain ps' s where q: "queue_packet zero ps1 new port packet = Some ps'" "pinsched_inv ps'"
      "if burst (ps_bucket ps1) \<le> word_of_int (n_queued ps1 * 1000) then drops_longest (port_queue ps1) s else s = port_queue ps1"
      "port_queue ps' = s(port := s port @ [packet])"
      "txq_ok ps1 \<Longrightarrow> word_of_int (n_queued ps1 * 1000) < burst (ps_bucket ps1) \<Longrightarrow> txq_ok ps'"
      using queue_packet_correct [OF same(1), of new zero port packet] assms(2,3) same(4,5) by metis
    have "pinsched_send now zero (Some ps) new port packet = Some ([], Some ps')"
      using False q(1) by (simp only: pinsched_send_def option.case g Let_def) simp
    then show ?thesis using q(2,4) q(3,5) [unfolded same(2,3,5,6)] by (intro exI [of _ "[]"] exI [of _ ps'] exI [of _ s]) simp
  qed
qed

lemma withdraw_have:
  assumes "n \<le> tokens tb"
  shows "token_bucket_withdraw now tb n = (True, tb\<lparr>tokens := tokens tb - n\<rparr>)" and "unat (tokens tb - n) = unat (tokens tb) - unat n"
  using assms by (auto simp: token_bucket_withdraw_def Let_def unat_sub not_less)

lemma run_txq_correct:
  assumes "pinsched_inv ps" and "txq_ok ps"
  shows "\<exists>sent ps'. run_txq now k ps = Some (sent, ps') \<and> pinsched_inv ps' \<and> txq_ok ps' \<and>
    sends_heads (port_queue ps) sent (port_queue ps') \<and> length sent \<le> k \<and>
    (\<forall>m \<le> k. int m \<le> n_queued ps \<and> 1000 * m \<le> unat (tokens (ps_bucket ps)) \<longrightarrow> m \<le> length sent)"
  using assms
proof (induction k arbitrary: ps)
  case 0
  obtain ok ps1 where g: "get_token now ps = (ok, ps1)" by fastforce
  show ?case using get_token_sel [OF g] 0 by (auto simp: run_txq.simps [of now 0 ps] g)
next
  case (Suc k)
  obtain ok ps1 where g: "get_token now ps = (ok, ps1)" by fastforce
  note t = get_token_sel [OF g]
  consider (none) "n_queued ps = 0" | (poor) "n_queued ps \<noteq> 0" "\<not> ok" | (sends) "n_queued ps \<noteq> 0" "ok" by blast
  then show ?case
  proof cases
    case none
    then have "run_txq now (Suc k) ps = Some ([], ps)" by (simp add: run_txq.simps [of now "Suc k"])
    then show ?thesis using Suc.prems none by auto
  next
    case poor
    then have r: "run_txq now (Suc k) ps = Some ([], ps1)" by (simp add: run_txq.simps [of now "Suc k"] g)
    have "tokens (ps_bucket ps) < 1000"
      using withdraw_have(1) [of 1000 "ps_bucket ps" now] t(6) poor(2) by (cases "1000 \<le> tokens (ps_bucket ps)") auto
    then have "unat (tokens (ps_bucket ps)) < 1000" by (simp add: word_less_nat_alt)
    then have "m \<le> 0" if "1000 * m \<le> unat (tokens (ps_bucket ps))" for m :: nat using that by linarith
    then show ?thesis using Suc.prems t(1-3) r by auto
  next
    case sends
    have ok1: "pinsched_inv ps1" "txq_ok ps1" "n_queued ps1 \<noteq> 0" using Suc.prems sends t by auto
    obtain packet ps2 port rest where x: "get_tx_packet ps1 = Some (packet, ps2)" "pinsched_inv ps2" "txq_ok ps2"
      "port_queue ps1 port = packet # rest" "port_queue ps2 = (port_queue ps1)(port := rest)"
      "ps_bucket ps2 = ps_bucket ps1" "n_queued ps2 = n_queued ps1 - 1"
      using get_tx_correct [OF ok1] by metis
    obtain sent ps' where ih: "run_txq now k ps2 = Some (sent, ps')" "pinsched_inv ps'" "txq_ok ps'"
      "sends_heads (port_queue ps2) sent (port_queue ps')" "length sent \<le> k"
      "\<And>m. m \<le> k \<Longrightarrow> int m \<le> n_queued ps2 \<Longrightarrow> 1000 * m \<le> unat (tokens (ps_bucket ps2)) \<Longrightarrow> m \<le> length sent"
      using Suc.IH [OF x(2,3)] by blast
    have "run_txq now (Suc k) ps = Some (packet # sent, ps')"
      using sends x(1) ih(1) by (simp add: run_txq.simps [of now "Suc k"] g)
    moreover have "sends_heads (port_queue ps) (packet # sent) (port_queue ps')"
      using ih(4) x(4,5) t(2) by (auto intro: exI [of _ port])
    moreover have "m \<le> length (packet # sent)"
      if m: "m \<le> Suc k" "int m \<le> n_queued ps" "1000 * m \<le> unat (tokens (ps_bucket ps))" for m
    proof (cases m)
      case (Suc m')
      have b: "(1000 :: u32) \<le> tokens (ps_bucket ps)" using m(3) Suc by (simp add: word_le_nat_alt)
      have "unat (tokens (ps_bucket ps2)) = unat (tokens (ps_bucket ps)) - 1000"
        using withdraw_have(1) [OF b, of now] withdraw_have(2) [OF b] t(6) x(6) by auto
      then show ?thesis using ih(6) [of m'] m x(7) t(4) Suc by simp
    qed simp
    ultimately show ?thesis using ih(2,3,5) by simp
  qed
qed

lemma drop_excess_correct:
  assumes "pinsched_inv ps" and "0 \<le> limit"
  shows "\<exists>ps'. drop_excess zero k limit ps = Some ps' \<and> pinsched_inv ps' \<and> n_queued ps' \<le> limit"
  using assms
proof (induction zero k limit ps rule: drop_excess.induct)
  case (1 zero k limit ps)
  show ?case
  proof (cases "limit < n_queued ps")
    case True
    then have "n_queued ps \<noteq> 0" using "1.prems"(2) by simp
    then obtain ps1 where d: "drop_packet (zero k) ps = Some ps1" "pinsched_inv ps1"
      using drop_packet_correct [OF "1.prems"(1), of "zero k"] by metis
    show ?thesis using "1.IH" [OF True d(1) d(2) "1.prems"(2)] True d(1) by (simp add: drop_excess.simps [of zero k])
  next
    case False
    then show ?thesis using "1.prems" by (simp add: drop_excess.simps [of zero k])
  qed
qed

lemma pin_create_inv: "pinsched_inv (pinsched_create r b)" and create_txq: "txq_ok (pinsched_create r b)"
  by (simp_all add: pinsched_create_def adjust_limits_def Let_def pinsched_inv_def pin_shape_def txq_ok_def
      hmap_bag.invar_empty hmap_bag.nodes_empty)

lemma adjust_limits_pos: "1 \<le> fst (adjust_limits (r, b))" "1 \<le> snd (adjust_limits (r, b))"
  by (simp_all add: adjust_limits_def Let_def)

lemma set_limits_correct:
  assumes "pinsched_inv ps"
  shows "\<exists>ps'. pinsched_set_limits zero ps r b = Some ps' \<and> pinsched_inv ps' \<and> n_queued ps' \<le> snd (adjust_limits (r, b))"
proof -
  obtain r' b' where a: "adjust_limits (r, b) = (r', b')" by fastforce
  let ?ps = "ps\<lparr>ps_bucket := token_bucket_set (ps_bucket ps) (word_of_int r') (sat_mul (word_of_int b') 1000)\<rparr>"
  have "pinsched_inv ?ps" using assms pinsched_inv_cong [of ?ps ps] by simp
  moreover have "0 \<le> b'" using adjust_limits_pos(2) [of r b] a by simp
  ultimately show ?thesis using drop_excess_correct [of ?ps b' zero 0] by (simp add: pinsched_set_limits_def a)
qed

section \<open>Runs of the scheduler and their rate\<close>

text \<open>\<open>Pin_send now zero new port packet\<close> and \<open>Pin_run now\<close>; a new queue is never allocated at an address in use.\<close>

datatype pin_event = Pin_send int "nat \<Rightarrow> bool" nat u16 nat | Pin_run int

fun event_time :: "pin_event \<Rightarrow> int" where
  "event_time (Pin_send now zero new port packet) = now"
| "event_time (Pin_run now) = now"

fun pin_step :: "pinsched \<Rightarrow> pin_event \<Rightarrow> (nat list \<times> pinsched) option" where
  "pin_step ps (Pin_send now zero new port packet) =
     (if pinqueues ps new \<noteq> None then None
      else case pinsched_send now zero (Some ps) new port packet of
             Some (sent, Some ps) \<Rightarrow> Some (sent, ps)
           | _ \<Rightarrow> None)"
| "pin_step ps (Pin_run now) = pinsched_run now ps"

fun pin_steps :: "pinsched \<Rightarrow> pin_event list \<Rightarrow> (nat list \<times> pinsched) option" where
  "pin_steps ps [] = Some ([], ps)"
| "pin_steps ps (e # es) =
     (case pin_step ps e of
        None \<Rightarrow> None
      | Some (sent, ps) \<Rightarrow> map_option (\<lambda>(more, ps). (sent @ more, ps)) (pin_steps ps es))"

definition spends :: "int \<Rightarrow> int \<Rightarrow> int \<Rightarrow> token_bucket \<Rightarrow> token_bucket \<Rightarrow> bool" where
  "spends t0 t1 m tb tb' \<longleftrightarrow> rate tb' = rate tb \<and> burst tb' = burst tb \<and> (tokens tb \<le> burst tb \<longrightarrow> tokens tb' \<le> burst tb') \<and>
     (last_fill tb \<le> t1 \<longrightarrow> last_fill tb' \<le> t1) \<and>
     (- (2 ^ 63) \<le> last_fill tb \<longrightarrow> - (2 ^ 63) \<le> last_fill tb' \<and> m + credit t0 t1 tb' \<le> credit t0 t1 tb)"

lemma spends_refl: "m \<le> 0 \<Longrightarrow> spends t0 t1 m tb tb"
  by (simp add: spends_def)

lemma spends_trans: "spends t0 t1 m a b \<Longrightarrow> spends t0 t1 n b c \<Longrightarrow> k \<le> m + n \<Longrightarrow> spends t0 t1 k a c"
  by (auto simp: spends_def)

lemma withdraw_spends:
  assumes "t0 \<le> now" and "now \<le> t1" and "t1 < 2 ^ 63" and "token_bucket_withdraw now tb n = (ok, tb')"
  shows "spends t0 t1 (if ok then int (unat n) else 0) tb tb'"
proof -
  define tb1 where "tb1 = (if tokens tb < n then token_bucket_fill now tb else tb)"
  have w: "(ok, tb') = (if tokens tb1 < n then (False, tb1) else (True, tb1\<lparr>tokens := tokens tb1 - n\<rparr>))"
    unfolding assms(4) [symmetric] token_bucket_withdraw_def Let_def tb1_def by (rule refl)
  have fill: "rate tb1 = rate tb" "burst tb1 = burst tb" "last_fill tb \<le> t1 \<Longrightarrow> last_fill tb1 \<le> t1"
    "tokens tb \<le> burst tb \<Longrightarrow> tokens tb1 \<le> burst tb1"
    using assms(2) by (auto simp: tb1_def token_bucket_fill_def Let_def)
  have "tokens tb1 - n \<le> tokens tb1" if "\<not> tokens tb1 < n" using that by (simp add: word_le_nat_alt unat_sub not_less)
  then have "rate tb' = rate tb \<and> burst tb' = burst tb \<and> (tokens tb \<le> burst tb \<longrightarrow> tokens tb' \<le> burst tb') \<and>
      (last_fill tb \<le> t1 \<longrightarrow> last_fill tb' \<le> t1)"
    using w fill by (auto split: if_splits intro: order_trans)
  then show ?thesis using withdraw_credit(1,2) [OF _ assms(1-3) assms(4)] by (auto simp: spends_def)
qed

lemma get_tx_bucket:
  assumes "get_tx_packet ps = Some (packet, ps')"
  shows "ps_bucket ps' = ps_bucket ps"
proof -
  have adv: "ps_bucket b = ps_bucket a" if "advance_txq a = Some b" for a b
    using that by (auto simp: advance_txq_def split: option.splits if_splits)
  have deq: "ps_bucket b = ps_bucket a" if "dequeue_packet a q = Some (x, b)" for a b q x
    using that by (auto simp: dequeue_packet_def split: option.splits list.splits)
  show ?thesis using assms
    by (auto simp: get_tx_packet_def pinqueue_destroy_def adv deq split: option.splits if_splits dest!: adv deq)
qed

lemma queue_packet_bucket:
  assumes "queue_packet zero ps new port packet = Some ps'"
  shows "ps_bucket ps' = ps_bucket ps"
proof -
  have drop: "ps_bucket b = ps_bucket a" if "drop_packet zero a = Some b" for a b
    using that by (auto simp: drop_packet_def dequeue_packet_def pinqueue_destroy_def Let_def split: option.splits list.splits)
  have get: "ps_bucket b = ps_bucket a" if "pinqueue_get a new port = (q, b)" for a b q
    using that by (auto simp: pinqueue_get_def Let_def split: option.splits)
  obtain ps1 where ps1: "(if burst (ps_bucket ps) \<le> word_of_int (n_queued ps * 1000) then drop_packet zero ps else Some ps) = Some ps1"
    using assms by (auto simp: queue_packet_def split: option.splits)
  obtain q ps2 where g: "pinqueue_get ps1 new port = (q, ps2)" by fastforce
  have "ps_bucket ps1 = ps_bucket ps" using ps1 drop by (auto split: if_splits)
  then show ?thesis using assms get [OF g] unfolding queue_packet_def ps1 option.case by (auto simp: Let_def g)
qed

lemma run_txq_spends:
  assumes "t0 \<le> now" and "now \<le> t1" and "t1 < 2 ^ 63"
  shows "run_txq now k ps = Some (sent, ps') \<Longrightarrow> spends t0 t1 (1000 * int (length sent)) (ps_bucket ps) (ps_bucket ps')"
proof (induction k arbitrary: ps sent)
  case 0
  obtain ok ps1 where g: "get_token now ps = (ok, ps1)" by fastforce
  have w: "spends t0 t1 (if ok then int (unat (1000 :: u32)) else 0) (ps_bucket ps) (ps_bucket ps1)"
    using withdraw_spends [OF assms] get_token_sel(6) [OF g] by blast
  have "sent = [] \<and> ps' \<in> {ps, ps1}" using 0 by (auto simp: run_txq.simps [of now 0] g split: if_splits)
  then show ?case using spends_trans [OF spends_refl [OF order_refl] w] spends_refl by (auto split: if_splits)
next
  case (Suc k)
  obtain ok ps1 where g: "get_token now ps = (ok, ps1)" by fastforce
  have w: "spends t0 t1 (if ok then int (unat (1000 :: u32)) else 0) (ps_bucket ps) (ps_bucket ps1)"
    using withdraw_spends [OF assms] get_token_sel(6) [OF g] by blast
  consider "sent = []" "ps' = ps" | "sent = []" "ps' = ps1" "\<not> ok"
    | packet ps2 more where "ok" "get_tx_packet ps1 = Some (packet, ps2)" "run_txq now k ps2 = Some (more, ps')" "sent = packet # more"
    using Suc.prems by (auto simp: run_txq.simps [of now "Suc k"] g split: if_splits option.splits)
  then show ?case
  proof cases
    case 1
    then show ?thesis by (simp add: spends_refl)
  next
    case 2
    then show ?thesis using w by simp
  next
    case 3
    have "spends t0 t1 (1000 * int (length more)) (ps_bucket ps1) (ps_bucket ps')"
      using Suc.IH [OF 3(3)] get_tx_bucket [OF 3(2)] by simp
    with w show ?thesis by (rule spends_trans) (use 3(1,4) in simp)
  qed
qed

lemma send_spends:
  assumes "t0 \<le> now" and "now \<le> t1" and "t1 < 2 ^ 63" and "pinsched_send now zero (Some ps) new port packet = Some (sent, Some ps')"
  shows "spends t0 t1 (1000 * int (length sent)) (ps_bucket ps) (ps_bucket ps')"
proof -
  obtain ok ps1 where g: "(if n_queued ps = 0 then get_token now ps else (False, ps)) = (ok, ps1)" by fastforce
  have w: "spends t0 t1 (if ok then 1000 else 0) (ps_bucket ps) (ps_bucket ps1)"
  proof (cases "n_queued ps = 0")
    case True
    then have "get_token now ps = (ok, ps1)" using g by simp
    then show ?thesis using withdraw_spends [OF assms(1-3) get_token_sel(6)] by fastforce
  next
    case False
    then show ?thesis using g by (simp add: spends_refl)
  qed
  have send: "(if ok then Some ([packet], Some (ps1\<lparr>n_normal := n_normal ps1 + 1\<rparr>))
      else map_option (\<lambda>ps. ([], Some ps)) (queue_packet zero ps1 new port packet)) = Some (sent, Some ps')"
    using assms(4) unfolding pinsched_send_def option.case g by simp
  show ?thesis
  proof (cases ok)
    case True
    then show ?thesis using w send by auto
  next
    case False
    then have "queue_packet zero ps1 new port packet = Some ps'" "sent = []" using send by auto
    then show ?thesis using w False queue_packet_bucket by simp
  qed
qed

lemma step_spends:
  assumes "t0 \<le> event_time e" and "event_time e \<le> t1" and "t1 < 2 ^ 63" and "pin_step ps e = Some (sent, ps')"
  shows "spends t0 t1 (1000 * int (length sent)) (ps_bucket ps) (ps_bucket ps')"
proof (cases e)
  case (Pin_send now zero new port packet)
  then have "pinsched_send now zero (Some ps) new port packet = Some (sent, Some ps')"
    using assms(4) by (auto split: if_splits option.splits)
  then show ?thesis using send_spends [OF _ _ assms(3), of t0 now] assms(1,2) Pin_send by simp
next
  case (Pin_run now)
  then show ?thesis using run_txq_spends [OF _ _ assms(3), of t0 now] assms(1,2,4) by (simp add: pinsched_run_def)
qed

lemma steps_spends:
  assumes "\<forall>e \<in> set es. t0 \<le> event_time e \<and> event_time e \<le> t1" and "t1 < 2 ^ 63" and "pin_steps ps es = Some (sent, ps')"
  shows "spends t0 t1 (1000 * int (length sent)) (ps_bucket ps) (ps_bucket ps')"
  using assms
proof (induction ps es arbitrary: sent rule: pin_steps.induct)
  case (2 ps e es)
  obtain now ps1 more where s: "pin_step ps e = Some (now, ps1)" "pin_steps ps1 es = Some (more, ps')" "sent = now @ more"
    using "2.prems"(3) by (auto split: option.splits)
  have "spends t0 t1 (1000 * int (length now)) (ps_bucket ps) (ps_bucket ps1)"
    using step_spends [OF _ _ _ s(1)] "2.prems"(1,2) by simp
  moreover have "spends t0 t1 (1000 * int (length more)) (ps_bucket ps1) (ps_bucket ps')"
    using "2.IH" [OF s(1) refl _ _ s(2)] "2.prems"(1,2) by simp
  ultimately show ?case by (rule spends_trans) (simp add: s(3))
qed (simp add: spends_refl)

lemma limit_word: "0 \<le> x \<Longrightarrow> int (unat (word_of_int x :: u32)) \<le> x"
  by (simp add: unsigned_of_int take_bit_int_def flip: nat_mod_distrib) (simp add: zmod_le_nonneg_dividend)

lemma create_bucket:
  "int (unat (rate (ps_bucket (pinsched_create r b)))) \<le> fst (adjust_limits (r, b))"
  "int (unat (burst (ps_bucket (pinsched_create r b)))) \<le> 1000 * snd (adjust_limits (r, b))"
  "tokens (ps_bucket (pinsched_create r b)) = 0" "last_fill (ps_bucket (pinsched_create r b)) = LLONG_MIN"
proof -
  obtain r' b' where a: "adjust_limits (r, b) = (r', b')" by fastforce
  have pos: "0 \<le> r'" "0 \<le> b'" using adjust_limits_pos [of r b] a by simp_all
  have "unat (sat_mul (word_of_int b') 1000) \<le> unat (word_of_int b' :: u32) * 1000" by (simp add: unat_sat_mul)
  then have "int (unat (sat_mul (word_of_int b') 1000)) \<le> int (unat (word_of_int b' :: u32)) * 1000" by linarith
  also have "\<dots> \<le> 1000 * b'" using limit_word [OF pos(2)] by linarith
  finally show "int (unat (burst (ps_bucket (pinsched_create r b)))) \<le> 1000 * snd (adjust_limits (r, b))"
    by (simp add: pinsched_create_def a token_bucket_init_def)
  show "int (unat (rate (ps_bucket (pinsched_create r b)))) \<le> fst (adjust_limits (r, b))"
    using limit_word [OF pos(1)] by (simp add: pinsched_create_def a token_bucket_init_def)
  show "tokens (ps_bucket (pinsched_create r b)) = 0" "last_fill (ps_bucket (pinsched_create r b)) = LLONG_MIN"
    by (simp_all add: pinsched_create_def a token_bucket_init_def)
qed

lemma destroy_queues_left: "pinqueues (snd (destroy_queues ps qs)) = pinqueues ps |` (- set qs)"
  by (induction ps qs rule: destroy_queues.induct) (auto simp: Let_def split_beta restrict_map_def fun_eq_iff)

lemma run_dangling:
  assumes "\<not> txq_ok ps" and "n_queued ps \<noteq> 0" and "1000 \<le> tokens (ps_bucket ps)"
  shows "pinsched_run now ps = None"
proof -
  obtain ok ps1 where g: "get_token now ps = (ok, ps1)" by fastforce
  have "ok" "\<not> txq_ok ps1" using get_token_sel(3,6) [OF g] withdraw_have(1) [OF assms(3), of now] assms(1) by auto
  then show ?thesis using assms(2) get_tx_dangling [of ps1] by (simp add: pinsched_run_def run_txq.simps [of now 50] g)
qed

section \<open>Properties\<close>



text \<open>
  C27. The rate limit holds: however packets arrive and the scheduler runs, between \<open>t0\<close> and \<open>t1\<close> milliseconds at
  most twice the burst limit and the packets of that time at the rate limit, in packets per second, are sent.
\<close>

theorem pinsched_rate:
  assumes "pin_steps (pinsched_create r b) before = Some (earlier, ps)" and "pin_steps ps es = Some (sent, ps')"
    and "\<forall>e \<in> set before. LLONG_MIN \<le> event_time e \<and> event_time e \<le> t0"
    and "\<forall>e \<in> set es. t0 \<le> event_time e \<and> event_time e \<le> t1" and "LLONG_MIN \<le> t0" and "t0 \<le> t1" and "t1 \<le> LLONG_MAX"
  shows "1000 * int (length sent) \<le> 2000 * snd (adjust_limits (r, b)) + fst (adjust_limits (r, b)) * (t1 - t0)"
proof -
  have t: "t1 < 2 ^ 63" "t0 < 2 ^ 63" using assms(6,7) by (simp_all add: LLONG_MAX_def)
  note c = create_bucket [of r b]
  have s0: "spends LLONG_MIN t0 (1000 * int (length earlier)) (ps_bucket (pinsched_create r b)) (ps_bucket ps)"
    by (rule steps_spends [OF assms(3) t(2) assms(1)])
  then have tb: "tokens (ps_bucket ps) \<le> burst (ps_bucket ps)" "last_fill (ps_bucket ps) \<le> t0" "- (2 ^ 63) \<le> last_fill (ps_bucket ps)"
    "rate (ps_bucket ps) = rate (ps_bucket (pinsched_create r b))" "burst (ps_bucket ps) = burst (ps_bucket (pinsched_create r b))"
    using c(3,4) assms(5) by (auto simp: spends_def LLONG_MIN_def)
  have s: "spends t0 t1 (1000 * int (length sent)) (ps_bucket ps) (ps_bucket ps')" by (rule steps_spends [OF assms(4) t(1) assms(2)])
  then have "1000 * int (length sent) + credit t0 t1 (ps_bucket ps') \<le> credit t0 t1 (ps_bucket ps)" "last_fill (ps_bucket ps') \<le> t1"
    using tb(2,3) assms(6) by (auto simp: spends_def)
  then have "1000 * int (length sent) \<le> 2 * int (unat (burst (ps_bucket ps))) + int (unat (rate (ps_bucket ps))) * (t1 - t0)"
    using credit_bounds(1) [OF assms(6), of "ps_bucket ps'"] credit_bounds(2) [OF assms(6) tb(1)] by linarith
  also have "\<dots> \<le> 2000 * snd (adjust_limits (r, b)) + fst (adjust_limits (r, b)) * (t1 - t0)"
    using c(1,2) assms(6) unfolding tb(4,5) by (intro add_mono mult_right_mono) simp_all
  finally show ?thesis .
qed

definition example_events :: "pin_event list" where
  "example_events = [Pin_send 0 (\<lambda>_. False) 0 9 100, Pin_send 0 (\<lambda>_. False) 0 9 101, Pin_send 0 (\<lambda>_. False) 1 1 102,
     Pin_send 0 (\<lambda>_. False) 2 2 103, Pin_run 1, Pin_send 1 (\<lambda>_. False) 3 3 104, Pin_send 1 (\<lambda>_. True) 4 4 105]"

lemma example_run:
  "map_option fst (pin_steps (pinsched_create 1000 2) example_events) = Some [100, 101, 102]"
  by code_simp

theorem pinsched_rate_witness:
  "map_option (length \<circ> fst) (pin_steps (pinsched_create 1000 2) example_events) = Some 3 \<and>
   1000 * int 3 \<le> 2000 * snd (adjust_limits (1000, 2)) + fst (adjust_limits (1000, 2)) * 1"
proof -
  obtain ps where ps: "pin_steps (pinsched_create 1000 2) example_events = Some ([100, 101, 102], ps)" using example_run by auto
  show ?thesis
    using pinsched_rate [of 1000 2 "[]" "[]" _ example_events "[100, 101, 102]" ps 0 1] ps
    by (simp add: example_events_def [symmetric] del: pin_steps.simps) (simp add: example_events_def LLONG_MIN_def LLONG_MAX_def)
qed

text \<open>
  C33. Dropping the only packet of the queue that is next in turn frees the queue, and the pointer to it
  stays: from a new scheduler with a burst limit of two packets, this run sends three packets and the next run follows
  the pointer to the freed queue.
\<close>

theorem pinsched_dangling:
  "\<exists>ps. pin_steps (pinsched_create 1000 2) example_events = Some ([100, 101, 102], ps) \<and> \<not> txq_ok ps \<and> pinsched_run 2 ps = None"
proof -
  have "case pin_steps (pinsched_create 1000 2) example_events of None \<Rightarrow> False
    | Some (sent, ps) \<Rightarrow> sent = [100, 101, 102] \<and> \<not> txq_ok ps \<and> Option.is_none (pinsched_run 2 ps)" by code_simp
  then show ?thesis by (auto simp: Option.is_none_def split: option.splits)
qed

end
