(* ===== verification/Flow.thy ===== *)
theory Flow
  imports Util Hash
begin

text \<open>
  Flows and their compressed form (\<^verbatim>\<open>lib/flow.h\<close>, \<^verbatim>\<open>lib/flow.c\<close>, and the minimatch of
  \<^verbatim>\<open>lib/match.c\<close>). A \<^verbatim>\<open>struct flow\<close> is what the code treats it as here: an array of
  \<^verbatim>\<open>FLOW_U32S\<close> 32-bit words. A miniflow keeps only the nonzero words, with a bitmap that says
  which they are.

  The lemmas show that the compressed operations are the uncompressed ones: \<^verbatim>\<open>miniflow_expand\<close>
  is a bijection from well-formed miniflows to flows under which equality, masked equality, masked
  hashing, combination and comparison of masks all correspond.
\<close>

section \<open>Definitions\<close>

text \<open>
  \<^verbatim>\<open>sizeof(struct flow)\<close> is asserted to be that of \<^verbatim>\<open>struct flow_tnl\<close> (24 bytes) plus 192. The
  members the code below writes by name lie at these word offsets: \<^verbatim>\<open>metadata\<close> at 6,
  \<^verbatim>\<open>regs\<close> at 21 and \<^verbatim>\<open>zeros\<close> at 53.
\<close>

type_synonym flow = "u32 list"

definition FLOW_U32S :: nat where
  "FLOW_U32S = (24 + (160 + 32)) div 4"

definition FLOW_N_REGS :: nat where
  "FLOW_N_REGS = 16"

definition MINI_N_MAPS :: nat where
  "MINI_N_MAPS = 2"

subsection \<open>Flows and wildcards\<close>

definition flow_equal :: "flow \<Rightarrow> flow \<Rightarrow> bool" where
  "flow_equal a b \<longleftrightarrow> a = b"

definition flow_hash :: "flow \<Rightarrow> u32 \<Rightarrow> u32" where
  "flow_hash f basis = hash_words f FLOW_U32S basis"

definition flow_zero_wildcards :: "flow \<Rightarrow> flow \<Rightarrow> flow" where
  "flow_zero_wildcards f wildcards =
     foldl (\<lambda>f i. f[i := f ! i AND wildcards ! i]) f [0..<FLOW_U32S]"

definition flow_wildcards_init_catchall :: flow where
  "flow_wildcards_init_catchall = replicate FLOW_U32S 0"

definition flow_wildcards_init_exact :: flow where
  "flow_wildcards_init_exact = (replicate FLOW_U32S 0xffffffff)[53 := 0]"

definition flow_wildcards_clear_non_packet_fields :: "flow \<Rightarrow> flow" where
  "flow_wildcards_clear_non_packet_fields wc =
     (let wc1 = foldl (\<lambda>wc i. wc[i := 0]) wc [6..<8]
      in foldl (\<lambda>wc i. wc[i := 0]) wc1 [21..<21 + FLOW_N_REGS])"

definition flow_wildcards_is_catchall :: "flow \<Rightarrow> bool" where
  "flow_wildcards_is_catchall wc = list_all (\<lambda>i. \<not> wc ! i \<noteq> 0) [0..<FLOW_U32S]"

definition flow_wildcards_and :: "flow \<Rightarrow> flow \<Rightarrow> flow" where
  "flow_wildcards_and src1 src2 = map (\<lambda>i. src1 ! i AND src2 ! i) [0..<FLOW_U32S]"

definition flow_wildcards_or :: "flow \<Rightarrow> flow \<Rightarrow> flow" where
  "flow_wildcards_or src1 src2 = map (\<lambda>i. src1 ! i OR src2 ! i) [0..<FLOW_U32S]"

definition flow_wildcards_hash :: "flow \<Rightarrow> u32 \<Rightarrow> u32" where
  "flow_wildcards_hash wc basis = flow_hash wc basis"

definition flow_wildcards_equal :: "flow \<Rightarrow> flow \<Rightarrow> bool" where
  "flow_wildcards_equal a b \<longleftrightarrow> flow_equal a b"

definition flow_wildcards_has_extra :: "flow \<Rightarrow> flow \<Rightarrow> bool" where
  "flow_wildcards_has_extra a b = list_ex (\<lambda>i. a ! i AND b ! i \<noteq> b ! i) [0..<FLOW_U32S]"

definition flow_equal_except :: "flow \<Rightarrow> flow \<Rightarrow> flow \<Rightarrow> bool" where
  "flow_equal_except a b wc = list_all (\<lambda>i. \<not> (a ! i XOR b ! i) AND wc ! i \<noteq> 0) [0..<FLOW_U32S]"

definition flow_wildcards_set_reg_mask :: "flow \<Rightarrow> nat \<Rightarrow> u32 \<Rightarrow> flow" where
  "flow_wildcards_set_reg_mask wc idx m = wc[21 + idx := m]"

definition flow_hash_in_wildcards :: "flow \<Rightarrow> flow \<Rightarrow> u32 \<Rightarrow> u32" where
  "flow_hash_in_wildcards f wc basis =
     mhash_finish (foldl (\<lambda>hash i. mhash_add hash (f ! i AND wc ! i)) basis [0..<FLOW_U32S])
       (word_of_nat (4 * FLOW_U32S))"

subsection \<open>Miniflows\<close>

text \<open>
  \<open>values\<close> is the array the member points to; where it lies (inline, on the heap or on the
  caller's stack) makes no difference to its content.
\<close>

record miniflow =
  mvalues :: "u32 list"
  mmap :: "u32 list"

text \<open>
  The values the loop \<^verbatim>\<open>for (map = m; map; map = zero_rightmost_1bit(map))\<close> gives to \<^verbatim>\<open>map\<close>,
  and the pairs of \<^verbatim>\<open>i\<close> and \<^verbatim>\<open>map\<close> of the two nested loops every function below has.
\<close>

lemma zero_rightmost_decreases:
  fixes m :: u32
  assumes "m \<noteq> 0"
  shows "unat (ucast (zero_rightmost_1bit (ucast m)) :: u32) < unat m"
proof -
  obtain z where z: "is_lsb m z" using is_lsb_ex [OF assms] ..
  have eq: "(ucast (zero_rightmost_1bit (ucast m)) :: u32) = m AND (m - 1)"
  proof (rule bit_word_eqI)
    fix i assume i: "i < LENGTH(32)"
    have "is_lsb (ucast m :: u64) z" using z is_lsb_bound [OF z] by (auto simp: is_lsb_def bit_ucast_iff)
    then have "bit (zero_rightmost_1bit (ucast m)) i \<longleftrightarrow> bit (ucast m :: u64) i \<and> i \<noteq> z"
      unfolding zero_rightmost_1bit_def by (rule zero_rightmost_bits)
    then show "bit (ucast (zero_rightmost_1bit (ucast m)) :: u32) i = bit (m AND (m - 1)) i"
      using i zero_rightmost_bits [OF z] by (simp add: bit_ucast_iff)
  qed
  have "m AND (m - 1) \<noteq> m" using z zero_rightmost_bits [OF z, of z] by (auto simp: is_lsb_def)
  then have "unat (m AND (m - 1)) \<noteq> unat m" by (simp add: word_unat_eq_iff)
  moreover have "unat (m AND (m - 1)) \<le> unat m"
    using unat_and_mask_le [of "m - 1" m] by (simp add: and.commute)
  ultimately show ?thesis unfolding eq by simp
qed

function map_iter :: "u32 \<Rightarrow> u32 list" where
  "map_iter m = (if m \<noteq> 0 then m # map_iter (ucast (zero_rightmost_1bit (ucast m))) else [])"
  by pat_completeness auto
termination
  by (relation "measure unat") (auto intro: zero_rightmost_decreases)

declare map_iter.simps [simp del]

definition mini_iter :: "u32 list \<Rightarrow> (nat \<times> u32) list" where
  "mini_iter maps = concat (map (\<lambda>i. map (Pair i) (map_iter (maps ! i))) [0..<MINI_N_MAPS])"

definition mini_ofs :: "nat \<times> u32 \<Rightarrow> nat" where
  "mini_ofs = (\<lambda>(i, m). raw_ctz m + i * 32)"

definition miniflow_n_values :: "miniflow \<Rightarrow> nat" where
  "miniflow_n_values f = foldl (\<lambda>n i. n + popcount (mmap f ! i)) 0 [0..<MINI_N_MAPS]"

text \<open>The first loop of \<^verbatim>\<open>miniflow_init\<close>, over the first \<open>n\<close> words.\<close>

definition miniflow_init_map :: "flow \<Rightarrow> nat \<Rightarrow> u32 list" where
  "miniflow_init_map src n =
     foldl (\<lambda>maps i. if src ! i \<noteq> 0
                    then maps[i div 32 := maps ! (i div 32) OR push_bit (i mod 32) 1]
                    else maps)
       (replicate MINI_N_MAPS 0) [0..<n]"

definition miniflow_init :: "flow \<Rightarrow> miniflow" where
  "miniflow_init src =
     (let maps = miniflow_init_map src FLOW_U32S
      in \<lparr>mvalues = map (\<lambda>p. src ! mini_ofs p) (mini_iter maps), mmap = maps\<rparr>)"

definition miniflow_clone :: "miniflow \<Rightarrow> miniflow" where
  "miniflow_clone src = \<lparr>mvalues = take (miniflow_n_values src) (mvalues src), mmap = mmap src\<rparr>"

definition flow_union_with_miniflow :: "flow \<Rightarrow> miniflow \<Rightarrow> flow" where
  "flow_union_with_miniflow dst src =
     foldl (\<lambda>dst (p, v). dst[mini_ofs p := dst ! mini_ofs p OR v]) dst
       (zip (mini_iter (mmap src)) (mvalues src))"

definition flow_wildcards_fold_minimask :: "flow \<Rightarrow> miniflow \<Rightarrow> flow" where
  "flow_wildcards_fold_minimask wc m = flow_union_with_miniflow wc m"

definition miniflow_expand :: "miniflow \<Rightarrow> flow" where
  "miniflow_expand src = flow_union_with_miniflow (replicate FLOW_U32S 0) src"

definition miniflow_get :: "miniflow \<Rightarrow> nat \<Rightarrow> u32" where
  "miniflow_get f u32_ofs =
     (if \<not> mmap f ! (u32_ofs div 32) AND push_bit (u32_ofs mod 32) 1 \<noteq> 0 then 0
      else mvalues f !
        (if u32_ofs < 32 then popcount (mmap f ! 0 AND (push_bit u32_ofs 1 - 1))
         else popcount (mmap f ! 0) + popcount (mmap f ! 1 AND (push_bit (u32_ofs - 32) 1 - 1))))"

definition miniflow_equal :: "miniflow \<Rightarrow> miniflow \<Rightarrow> bool" where
  "miniflow_equal a b \<longleftrightarrow>
     list_all (\<lambda>i. \<not> mmap a ! i \<noteq> mmap b ! i) [0..<MINI_N_MAPS] \<and>
     take (miniflow_n_values a) (mvalues a) = take (miniflow_n_values a) (mvalues b)"

definition miniflow_hash :: "miniflow \<Rightarrow> u32 \<Rightarrow> u32" where
  "miniflow_hash f basis =
     hash_3words (mmap f ! 0) (mmap f ! 1) (hash_words (mvalues f) (miniflow_n_values f) basis)"

subsection \<open>Minimasks\<close>

text \<open>
  A \<^verbatim>\<open>struct minimask\<close> is a miniflow of masks. In the loops over a mask, the pointer \<^verbatim>\<open>p\<close> into
  its values advances with the loop.
\<close>

type_synonym minimask = miniflow

definition mask_iter :: "minimask \<Rightarrow> (nat \<times> u32) list" where
  "mask_iter m = zip (map mini_ofs (mini_iter (mmap m))) (mvalues m)"

definition miniflow_equal_in_minimask :: "miniflow \<Rightarrow> miniflow \<Rightarrow> minimask \<Rightarrow> bool" where
  "miniflow_equal_in_minimask a b m =
     list_all (\<lambda>(ofs, p). \<not> (miniflow_get a ofs XOR miniflow_get b ofs) AND p \<noteq> 0) (mask_iter m)"

definition miniflow_equal_flow_in_minimask :: "miniflow \<Rightarrow> flow \<Rightarrow> minimask \<Rightarrow> bool" where
  "miniflow_equal_flow_in_minimask a b m =
     list_all (\<lambda>(ofs, p). \<not> (miniflow_get a ofs XOR b ! ofs) AND p \<noteq> 0) (mask_iter m)"

definition miniflow_hash_in_minimask :: "miniflow \<Rightarrow> minimask \<Rightarrow> u32 \<Rightarrow> u32" where
  "miniflow_hash_in_minimask f m basis =
     mhash_finish (foldl (\<lambda>hash (ofs, p). mhash_add hash (miniflow_get f ofs AND p)) basis (mask_iter m))
       (word_of_nat (length (mask_iter m) * 4))"

definition flow_hash_in_minimask :: "flow \<Rightarrow> minimask \<Rightarrow> u32 \<Rightarrow> u32" where
  "flow_hash_in_minimask f m basis =
     mhash_finish (foldl (\<lambda>hash (ofs, p). mhash_add hash (f ! ofs AND p)) basis (mask_iter m))
       (word_of_nat (length (mask_iter m) * 4))"

definition minimask_init :: "flow \<Rightarrow> minimask" where
  "minimask_init wc = miniflow_init wc"

definition minimask_clone :: "minimask \<Rightarrow> minimask" where
  "minimask_clone src = miniflow_clone src"

definition minimask_combine_step :: "minimask \<Rightarrow> minimask \<Rightarrow> minimask \<Rightarrow> nat \<times> u32 \<Rightarrow> minimask" where
  "minimask_combine_step a b dst p =
     (let ofs = mini_ofs p;
          msk = miniflow_get a ofs AND miniflow_get b ofs
      in if msk \<noteq> 0
         then \<lparr>mvalues = mvalues dst @ [msk],
               mmap = (mmap dst)[fst p := mmap dst ! fst p OR ucast (rightmost_1bit (ucast (snd p)))]\<rparr>
         else dst)"

definition minimask_combine :: "minimask \<Rightarrow> minimask \<Rightarrow> minimask" where
  "minimask_combine a b =
     foldl (minimask_combine_step a b) \<lparr>mvalues = [], mmap = replicate MINI_N_MAPS 0\<rparr>
       (mini_iter (map (\<lambda>i. mmap a ! i AND mmap b ! i) [0..<MINI_N_MAPS]))"

definition minimask_expand :: "minimask \<Rightarrow> flow" where
  "minimask_expand m = miniflow_expand m"

definition minimask_get :: "minimask \<Rightarrow> nat \<Rightarrow> u32" where
  "minimask_get m u32_ofs = miniflow_get m u32_ofs"

definition minimask_equal :: "minimask \<Rightarrow> minimask \<Rightarrow> bool" where
  "minimask_equal a b \<longleftrightarrow> miniflow_equal a b"

definition minimask_hash :: "minimask \<Rightarrow> u32 \<Rightarrow> u32" where
  "minimask_hash m basis = miniflow_hash m basis"

definition minimask_has_extra :: "minimask \<Rightarrow> minimask \<Rightarrow> bool" where
  "minimask_has_extra a b =
     list_ex (\<lambda>p. let a_u32 = miniflow_get a (mini_ofs p); b_u32 = miniflow_get b (mini_ofs p)
                  in a_u32 AND b_u32 \<noteq> b_u32)
       (mini_iter (map (\<lambda>i. mmap a ! i OR mmap b ! i) [0..<MINI_N_MAPS]))"

definition minimask_is_catchall :: "minimask \<Rightarrow> bool" where
  "minimask_is_catchall m \<longleftrightarrow> \<not> mmap m ! 0 OR mmap m ! 1 \<noteq> 0"

subsection \<open>Minimatches\<close>

record match =
  match_flow :: flow
  match_wc :: flow

record minimatch =
  mflow :: miniflow
  mmask :: minimask

definition minimatch_init :: "match \<Rightarrow> minimatch" where
  "minimatch_init src = \<lparr>mflow = miniflow_init (match_flow src), mmask = minimask_init (match_wc src)\<rparr>"

definition minimatch_clone :: "minimatch \<Rightarrow> minimatch" where
  "minimatch_clone src = \<lparr>mflow = miniflow_clone (mflow src), mmask = minimask_clone (mmask src)\<rparr>"

definition minimatch_expand :: "minimatch \<Rightarrow> match" where
  "minimatch_expand src =
     \<lparr>match_flow = miniflow_expand (mflow src), match_wc = minimask_expand (mmask src)\<rparr>"

definition minimatch_equal :: "minimatch \<Rightarrow> minimatch \<Rightarrow> bool" where
  "minimatch_equal a b \<longleftrightarrow> miniflow_equal (mflow a) (mflow b) \<and> minimask_equal (mmask a) (mmask b)"

definition minimatch_hash :: "minimatch \<Rightarrow> u32 \<Rightarrow> u32" where
  "minimatch_hash m basis = miniflow_hash (mflow m) (minimask_hash (mmask m) basis)"

subsection \<open>What the routines are specified by\<close>

definition map_has :: "u32 list \<Rightarrow> nat \<Rightarrow> bool" where
  "map_has maps ofs \<longleftrightarrow> bit (maps ! (ofs div 32)) (ofs mod 32)"

definition flow_wf :: "flow \<Rightarrow> bool" where
  "flow_wf f \<longleftrightarrow> length f = FLOW_U32S"

text \<open>The invariant stated at \<^verbatim>\<open>struct miniflow\<close>.\<close>

definition miniflow_wf :: "miniflow \<Rightarrow> bool" where
  "miniflow_wf f \<longleftrightarrow>
     length (mmap f) = MINI_N_MAPS \<and> (\<forall>ofs < 64. map_has (mmap f) ofs \<longrightarrow> ofs < FLOW_U32S) \<and>
     length (mvalues f) = length (filter (map_has (mmap f)) [0..<64]) \<and> 0 \<notin> set (mvalues f)"

section \<open>The loops over a bitmap\<close>

lemma FLOW_U32S_eq: "FLOW_U32S = 54" by (simp add: FLOW_U32S_def)

lemma zero_rightmost_u32_bits:
  fixes m :: u32
  assumes "m \<noteq> 0"
  shows "bit (ucast (zero_rightmost_1bit (ucast m)) :: u32) i \<longleftrightarrow> bit m i \<and> i \<noteq> raw_ctz m"
proof -
  have z: "is_lsb m (raw_ctz m)" using raw_ctz_is_lsb [OF assms] .
  then have "is_lsb (ucast m :: u64) (raw_ctz m)"
    using is_lsb_bound [OF z] by (auto simp: is_lsb_def bit_ucast_iff)
  then have "bit (zero_rightmost_1bit (ucast m)) i \<longleftrightarrow> bit (ucast m :: u64) i \<and> i \<noteq> raw_ctz m"
    unfolding zero_rightmost_1bit_def by (rule zero_rightmost_bits)
  then show ?thesis using word_bit_bound [of m i] by (auto simp: bit_ucast_iff)
qed

lemma filter_upt_first:
  assumes "z < n" and "P z" and "\<And>i. i < z \<Longrightarrow> \<not> P i"
  shows "filter P [0..<n] = z # filter (\<lambda>i. P i \<and> i \<noteq> z) [0..<n]"
proof -
  have split: "[0..<n] = [0..<z] @ z # [Suc z..<n]"
    using assms(1) by (metis le0 less_imp_le_nat upt_add_eq_append upt_conv_Cons le_add_diff_inverse)
  have "filter P [0..<z] = []" "filter (\<lambda>i. P i \<and> i \<noteq> z) [0..<z] = []"
    using assms(3) by (simp_all add: filter_empty_conv)
  moreover have "filter (\<lambda>i. P i \<and> i \<noteq> z) [Suc z..<n] = filter P [Suc z..<n]"
    by (rule filter_cong) auto
  ultimately show ?thesis unfolding split using assms(2) by simp
qed

lemma map_iter_bits: "map raw_ctz (map_iter m) = filter (bit m) [0..<32]"
proof (induction m rule: map_iter.induct)
  case (1 m)
  show ?case
  proof (cases "m = 0")
    case False
    have z: "is_lsb m (raw_ctz m)" using raw_ctz_is_lsb [OF False] .
    have "filter (bit m) [0..<32] = raw_ctz m # filter (\<lambda>i. bit m i \<and> i \<noteq> raw_ctz m) [0..<32]"
      using z is_lsb_bound [OF z] by (intro filter_upt_first) (auto simp: is_lsb_def)
    then show ?thesis
      using 1 [OF False] False zero_rightmost_u32_bits [OF False] by (simp add: map_iter.simps [of m])
  qed (simp add: map_iter.simps)
qed

lemma map_iter_nonzero: "m' \<in> set (map_iter m) \<Longrightarrow> m' \<noteq> 0"
proof (induction m rule: map_iter.induct)
  case (1 m)
  then show ?case
    by (cases "m = 0") (auto simp: map_iter.simps [of 0] map_iter.simps [of m])
qed

lemma upt_64: "[0..<64] = [0..<32] @ map (\<lambda>b. b + 32) [0..<32]"
  using upt_add_eq_append [of 0 32 32] map_add_upt [of 32 32] by simp

lemma mini_iter_ofs: "map mini_ofs (mini_iter maps) = filter (map_has maps) [0..<64]"
proof -
  have "map mini_ofs (mini_iter maps) =
      map raw_ctz (map_iter (maps ! 0)) @ map (\<lambda>b. b + 32) (map raw_ctz (map_iter (maps ! 1)))"
    by (simp add: mini_iter_def MINI_N_MAPS_def numeral_2_eq_2 mini_ofs_def comp_def)
  also have "\<dots> = filter (bit (maps ! 0)) [0..<32] @ map (\<lambda>b. b + 32) (filter (bit (maps ! 1)) [0..<32])"
    by (simp only: map_iter_bits)
  also have "filter (bit (maps ! 0)) [0..<32] = filter (map_has maps) [0..<32]"
    by (rule filter_cong) (auto simp: map_has_def)
  also have "map (\<lambda>b. b + 32) (filter (bit (maps ! 1)) [0..<32]) =
      filter (map_has maps) (map (\<lambda>b. b + 32) [0..<32])"
    unfolding filter_map
    by (rule arg_cong [where f = "map _"], rule filter_cong) (simp_all add: map_has_def div_add_self2)
  finally show ?thesis unfolding upt_64 by simp
qed

lemma mask_iter_ofs: "mask_iter m = zip (filter (map_has (mmap m)) [0..<64]) (mvalues m)"
  by (simp add: mask_iter_def mini_iter_ofs)

lemma nth_filter_upt:
  assumes "ofs < n" and "P ofs"
  shows "length (filter P [0..<ofs]) < length (filter P [0..<n]) \<and>
    filter P [0..<n] ! length (filter P [0..<ofs]) = ofs"
proof -
  have split: "[0..<n] = [0..<ofs] @ ofs # [Suc ofs..<n]"
    using assms(1) by (metis le0 less_imp_le_nat upt_add_eq_append upt_conv_Cons le_add_diff_inverse)
  show ?thesis unfolding split using assms(2) by (simp add: nth_append)
qed

lemma popcount_below:
  fixes m :: u32
  assumes "n < 32"
  shows "popcount (m AND (push_bit n 1 - 1)) = length (filter (bit m) [0..<n])"
proof -
  have "filter (bit (m AND (push_bit n 1 - 1))) [0..<32] = filter (\<lambda>i. bit m i \<and> i < n) ([0..<n] @ [n..<32])"
    using assms upt_add_eq_append [of 0 n "32 - n"]
    by (intro filter_cong) (auto simp: bit_and_iff bit_exp_minus_1')
  also have "\<dots> = filter (bit m) [0..<n]" by (auto simp: filter_empty_conv intro: filter_cong)
  finally show ?thesis by (simp add: popcount_filter)
qed

lemma rank_popcount:
  assumes "ofs < 64"
  shows "length (filter (map_has maps) [0..<ofs]) =
    (if ofs < 32 then popcount (maps ! 0 AND (push_bit ofs 1 - 1))
     else popcount (maps ! 0) + popcount (maps ! 1 AND (push_bit (ofs - 32) 1 - 1)))"
proof (cases "ofs < 32")
  case True
  then have "filter (map_has maps) [0..<ofs] = filter (bit (maps ! 0)) [0..<ofs]"
    by (intro filter_cong) (auto simp: map_has_def)
  then show ?thesis using True popcount_below [of ofs "maps ! 0"] by simp
next
  case False
  then obtain k where k: "ofs = 32 + k" "k < 32" using assms by (metis add_diff_inverse_nat less_diff_conv2 linorder_not_less numeral_Bit0 add_less_cancel_left)
  have "[0..<ofs] = [0..<32] @ map (\<lambda>b. b + 32) [0..<k]"
    using upt_add_eq_append [of 0 32 k] map_add_upt [of 32 k] by (simp add: k(1) add.commute)
  moreover have "filter (map_has maps) [0..<32] = filter (bit (maps ! 0)) [0..<32]"
    by (rule filter_cong) (auto simp: map_has_def)
  moreover have "filter (map_has maps) (map (\<lambda>b. b + 32) [0..<k]) = map (\<lambda>b. b + 32) (filter (bit (maps ! 1)) [0..<k])"
    unfolding filter_map using k(2)
    by (intro arg_cong [where f = "map _"] filter_cong) (simp_all add: map_has_def div_add_self2)
  ultimately show ?thesis
    using k popcount_below [of k "maps ! 1"] by (simp add: popcount_filter)
qed

section \<open>Compressed and expanded flows\<close>

lemma fold_union_nth:
  fixes dst :: flow
  assumes "distinct (map fst ps)"
  shows "length (foldl (\<lambda>d (k, v). d[k := d ! k OR v]) dst ps) = length dst \<and>
    (k < length dst \<longrightarrow> foldl (\<lambda>d (k, v). d[k := d ! k OR v]) dst ps ! k =
       dst ! k OR (case map_of ps k of None \<Rightarrow> 0 | Some v \<Rightarrow> v))"
  using assms
proof (induction ps arbitrary: dst)
  case (Cons p ps)
  obtain j v where p: "p = (j, v)" by (cases p)
  have "map_of ps j = None" using Cons.prems by (simp add: p map_of_eq_None_iff)
  then show ?case
    using Cons.IH [of "dst[j := dst ! j OR v]"] Cons.prems by (auto simp: p nth_list_update)
qed simp

lemma flow_union_eq:
  "flow_union_with_miniflow dst src = foldl (\<lambda>d (k, v). d[k := d ! k OR v]) dst (mask_iter src)"
proof -
  have "foldl (\<lambda>dst (p, v). dst[f p := dst ! f p OR v]) dst (zip ps vs) =
      foldl (\<lambda>d (k, v). d[k := d ! k OR v]) dst (zip (map f ps) vs)" for f and ps :: "(nat \<times> u32) list" and vs
    by (induction ps vs arbitrary: dst rule: list_induct2') simp_all
  then show ?thesis by (simp add: flow_union_with_miniflow_def mask_iter_def)
qed

lemma distinct_mask_iter: "distinct (map fst (mask_iter m))"
  by (simp add: mask_iter_ofs map_fst_zip_take distinct_take)

text \<open>The word of a miniflow at an offset, by searching the pairs of offsets and values.\<close>

lemma mask_iter_get:
  assumes "miniflow_wf f" and "ofs < 64"
  shows "(case map_of (mask_iter f) ofs of None \<Rightarrow> 0 | Some v \<Rightarrow> v) = miniflow_get f ofs"
proof (cases "map_has (mmap f) ofs")
  case False
  then have "\<not> mmap f ! (ofs div 32) AND push_bit (ofs mod 32) 1 \<noteq> 0"
    by (auto simp: map_has_def word_eq_iff_bits bit_and_iff bit_exp_iff)
  moreover have "map_of (mask_iter f) ofs = None"
    using False by (auto simp: mask_iter_ofs map_of_eq_None_iff dest: set_zip_leftD)
  ultimately show ?thesis by (simp add: miniflow_get_def)
next
  case True
  let ?j = "length (filter (map_has (mmap f)) [0..<ofs])"
  have j: "?j < length (mvalues f)" "filter (map_has (mmap f)) [0..<64] ! ?j = ofs"
    using nth_filter_upt [of ofs 64 "map_has (mmap f)", OF assms(2) True] assms(1) by (simp_all add: miniflow_wf_def)
  have "(ofs, mvalues f ! ?j) \<in> set (mask_iter f)"
    using j assms(1) by (force simp: mask_iter_ofs in_set_zip miniflow_wf_def)
  then have of: "map_of (mask_iter f) ofs = Some (mvalues f ! ?j)"
    using distinct_mask_iter by simp
  have "bit (mmap f ! (ofs div 32) AND push_bit (ofs mod 32) 1) (ofs mod 32)"
    using True by (simp add: map_has_def bit_and_iff bit_exp_iff)
  then have "mmap f ! (ofs div 32) AND push_bit (ofs mod 32) 1 \<noteq> 0" by force
  moreover have "?j = (if ofs < 32 then popcount (mmap f ! 0 AND (push_bit ofs 1 - 1))
      else popcount (mmap f ! 0) + popcount (mmap f ! 1 AND (push_bit (ofs - 32) 1 - 1)))"
    by (rule rank_popcount) (rule assms(2))
  ultimately show ?thesis using of by (simp add: miniflow_get_def)
qed

lemma miniflow_expand_nth:
  assumes "miniflow_wf f" and "ofs < FLOW_U32S"
  shows "miniflow_expand f ! ofs = miniflow_get f ofs"
proof -
  have "ofs < 64" using assms(2) by (simp add: FLOW_U32S_eq)
  then show ?thesis
    using fold_union_nth [OF distinct_mask_iter, of "replicate FLOW_U32S 0" f ofs] assms
      mask_iter_get [OF assms(1)]
    by (simp add: miniflow_expand_def flow_union_eq)
qed

lemma miniflow_expand_wf [simp]: "flow_wf (miniflow_expand f)"
  using fold_union_nth [OF distinct_mask_iter, of "replicate FLOW_U32S 0" f]
  by (simp add: flow_wf_def miniflow_expand_def flow_union_eq)

lemma map_has_set:
  assumes "length maps = MINI_N_MAPS" and "n < 64"
  shows "map_has (maps[n div 32 := maps ! (n div 32) OR push_bit (n mod 32) 1]) ofs \<longleftrightarrow> map_has maps ofs \<or> ofs = n"
proof (cases "ofs div 32 = n div 32")
  case True
  have n: "n div 32 < 2" using assms(2) by simp
  have "ofs = n \<longleftrightarrow> ofs mod 32 = n mod 32"
    using True div_mult_mod_eq [of ofs 32] div_mult_mod_eq [of n 32] by auto
  then show ?thesis
    using True n assms(1) by (auto simp: map_has_def MINI_N_MAPS_def bit_or_iff bit_exp_iff)
qed (use assms in \<open>auto simp: map_has_def\<close>)

lemma init_maps:
  assumes "n \<le> 64"
  shows "length (miniflow_init_map src n) = MINI_N_MAPS \<and>
    (\<forall>ofs < 64. map_has (miniflow_init_map src n) ofs \<longleftrightarrow> ofs < n \<and> src ! ofs \<noteq> 0)"
  using assms
proof (induction n)
  case 0
  have "ofs div 32 < 2" if "ofs < 64" for ofs :: nat using that by simp
  then show ?case by (auto simp: map_has_def miniflow_init_map_def MINI_N_MAPS_def)
next
  case (Suc n)
  define maps where "maps = miniflow_init_map src n"
  have IH: "length maps = 2" "\<And>ofs. ofs < 64 \<Longrightarrow> map_has maps ofs \<longleftrightarrow> ofs < n \<and> src ! ofs \<noteq> 0"
    using Suc by (simp_all add: maps_def MINI_N_MAPS_def)
  note upd = map_has_set [of maps n]
  have step: "miniflow_init_map src (Suc n) = (if src ! n \<noteq> 0
      then maps[n div 32 := maps ! (n div 32) OR push_bit (n mod 32) 1] else maps)"
    by (simp add: miniflow_init_map_def maps_def)
  show ?case
  proof (cases "src ! n = 0")
    case True
    then show ?thesis using IH by (auto simp: step MINI_N_MAPS_def less_Suc_eq)
  next
    case False
    then have "miniflow_init_map src (Suc n) = maps[n div 32 := maps ! (n div 32) OR push_bit (n mod 32) 1]"
      by (simp add: step)
    then show ?thesis using IH upd False Suc.prems by (auto simp: MINI_N_MAPS_def less_Suc_eq simp del: push_bit_of_1)
  qed
qed

lemma filter_upt_bound:
  assumes "n \<le> m" and "\<And>i. i < m \<Longrightarrow> P i \<longleftrightarrow> i < n \<and> Q i"
  shows "filter P [0..<m] = filter Q [0..<n]"
proof -
  have "[0..<m] = [0..<n] @ [n..<m]" using assms(1) upt_add_eq_append [of 0 n "m - n"] by simp
  moreover have "filter P [0..<n] = filter Q [0..<n]" using assms by (intro filter_cong) auto
  moreover have "filter P [n..<m] = []" using assms by (auto simp: filter_empty_conv)
  ultimately show ?thesis by simp
qed

lemma miniflow_init_props:
  shows "length (mmap (miniflow_init f)) = MINI_N_MAPS"
    and "ofs < 64 \<Longrightarrow> map_has (mmap (miniflow_init f)) ofs \<longleftrightarrow> ofs < FLOW_U32S \<and> f ! ofs \<noteq> 0"
    and "mvalues (miniflow_init f) = map (\<lambda>ofs. f ! ofs) (filter (\<lambda>ofs. f ! ofs \<noteq> 0) [0..<FLOW_U32S])"
proof -
  have m: "length (miniflow_init_map f FLOW_U32S) = MINI_N_MAPS \<and>
      (\<forall>ofs < 64. map_has (miniflow_init_map f FLOW_U32S) ofs \<longleftrightarrow> ofs < FLOW_U32S \<and> f ! ofs \<noteq> 0)"
    by (rule init_maps) (simp add: FLOW_U32S_eq)
  show l: "length (mmap (miniflow_init f)) = MINI_N_MAPS"
    and b: "ofs < 64 \<Longrightarrow> map_has (mmap (miniflow_init f)) ofs \<longleftrightarrow> ofs < FLOW_U32S \<and> f ! ofs \<noteq> 0" for ofs
    using m by (simp_all add: miniflow_init_def Let_def)
  have "mvalues (miniflow_init f) = map (\<lambda>ofs. f ! ofs) (map mini_ofs (mini_iter (mmap (miniflow_init f))))"
    by (simp add: miniflow_init_def Let_def)
  also have "map mini_ofs (mini_iter (mmap (miniflow_init f))) = filter (\<lambda>ofs. f ! ofs \<noteq> 0) [0..<FLOW_U32S]"
    unfolding mini_iter_ofs using b by (intro filter_upt_bound) (simp_all add: FLOW_U32S_eq)
  finally show "mvalues (miniflow_init f) = map (\<lambda>ofs. f ! ofs) (filter (\<lambda>ofs. f ! ofs \<noteq> 0) [0..<FLOW_U32S])" .
qed

lemma miniflow_init_wf [simp]: "miniflow_wf (miniflow_init f)"
proof -
  have "filter (map_has (mmap (miniflow_init f))) [0..<64] = filter (\<lambda>ofs. f ! ofs \<noteq> 0) [0..<FLOW_U32S]"
    using miniflow_init_props(2) by (intro filter_upt_bound) (simp_all add: FLOW_U32S_eq)
  then show ?thesis
    unfolding miniflow_wf_def using miniflow_init_props(1,2) by (auto simp: miniflow_init_props(3))
qed

lemma miniflow_wf_nonzero:
  assumes "miniflow_wf f" and "ofs < 64"
  shows "map_has (mmap f) ofs \<longleftrightarrow> ofs < FLOW_U32S \<and> miniflow_get f ofs \<noteq> 0"
proof
  assume h: "map_has (mmap f) ofs"
  then have "ofs \<in> set (map fst (mask_iter f))"
    using assms by (simp add: mask_iter_ofs map_fst_zip_take miniflow_wf_def)
  then obtain v where v: "(ofs, v) \<in> set (mask_iter f)" by auto
  then have "map_of (mask_iter f) ofs = Some v" using distinct_mask_iter by simp
  moreover have "v \<noteq> 0" using v assms(1) by (auto simp: mask_iter_def miniflow_wf_def dest: set_zip_rightD)
  ultimately show "ofs < FLOW_U32S \<and> miniflow_get f ofs \<noteq> 0"
    using h assms mask_iter_get [OF assms] by (auto simp: miniflow_wf_def)
next
  assume "ofs < FLOW_U32S \<and> miniflow_get f ofs \<noteq> 0"
  then have "map_of (mask_iter f) ofs \<noteq> None" using mask_iter_get [OF assms] by (auto split: option.splits)
  then show "map_has (mmap f) ofs"
    by (auto simp: mask_iter_ofs map_of_eq_None_iff dest: set_zip_leftD)
qed

lemma miniflow_get_init:
  assumes "ofs < FLOW_U32S"
  shows "miniflow_get (miniflow_init f) ofs = f ! ofs"
proof -
  let ?P = "\<lambda>ofs. f ! ofs \<noteq> 0"
  have ofs: "ofs < 64" using assms by (simp add: FLOW_U32S_eq)
  have "mask_iter (miniflow_init f) = map (\<lambda>ofs. (ofs, f ! ofs)) (filter ?P [0..<FLOW_U32S])"
  proof -
    have "filter (map_has (mmap (miniflow_init f))) [0..<64] = filter ?P [0..<FLOW_U32S]"
      using miniflow_init_props(2) by (intro filter_upt_bound) (simp_all add: FLOW_U32S_eq)
    then show ?thesis by (simp add: mask_iter_ofs miniflow_init_props(3) zip_map2 zip_same_conv_map)
  qed
  then have "map_of (mask_iter (miniflow_init f)) ofs = (if f ! ofs \<noteq> 0 then Some (f ! ofs) else None)"
    using assms by (simp add: map_of_map_restrict restrict_map_def)
  then show ?thesis
    using mask_iter_get [OF miniflow_init_wf ofs, of f] by (simp split: if_splits)
qed

lemma expand_init:
  assumes "flow_wf f"
  shows "miniflow_expand (miniflow_init f) = f"
  using assms miniflow_expand_wf [of "miniflow_init f"]
  by (intro nth_equalityI) (auto simp: flow_wf_def miniflow_expand_nth miniflow_get_init)

text \<open>A well-formed miniflow is determined by its words.\<close>

lemma mini_maps_eqI:
  assumes "length xs = MINI_N_MAPS" and "length ys = MINI_N_MAPS"
    and "\<And>ofs. ofs < 64 \<Longrightarrow> map_has xs ofs \<longleftrightarrow> map_has ys ofs"
  shows "xs = ys"
proof (rule nth_equalityI)
  fix i assume i: "i < length xs"
  show "xs ! i = ys ! i"
  proof (rule bit_word_eqI)
    fix b assume "b < LENGTH(32)"
    then have "(i * 32 + b) div 32 = i" "(i * 32 + b) mod 32 = b" "i * 32 + b < 64"
      using i assms(1) by (simp_all add: MINI_N_MAPS_def)
    with assms(3) [of "i * 32 + b"] show "bit (xs ! i) b = bit (ys ! i) b" by (simp add: map_has_def)
  qed
qed (use assms in simp)

lemma mask_iter_words:
  assumes "miniflow_wf f"
  shows "mask_iter f = map (\<lambda>ofs. (ofs, miniflow_get f ofs)) (filter (\<lambda>ofs. miniflow_get f ofs \<noteq> 0) [0..<FLOW_U32S])"
proof -
  have fst: "map fst (mask_iter f) = filter (\<lambda>ofs. miniflow_get f ofs \<noteq> 0) [0..<FLOW_U32S]"
  proof -
    have "map fst (mask_iter f) = filter (map_has (mmap f)) [0..<64]"
      using assms by (simp add: mask_iter_ofs map_fst_zip_take miniflow_wf_def)
    then show ?thesis
      using miniflow_wf_nonzero [OF assms] filter_upt_bound [of FLOW_U32S 64 "map_has (mmap f)"]
      by (simp add: FLOW_U32S_eq)
  qed
  have "p = (fst p, miniflow_get f (fst p))" if p: "p \<in> set (mask_iter f)" for p
  proof -
    have "map_of (mask_iter f) (fst p) = Some (snd p)" using p distinct_mask_iter by simp
    moreover have "fst p \<in> set (filter (map_has (mmap f)) [0..<64])"
      using p set_zip_leftD [of "fst p" "snd p"] by (simp only: mask_iter_ofs prod.collapse)
    then have "fst p < 64" by simp
    ultimately show ?thesis using mask_iter_get [OF assms, of "fst p"] by (simp add: prod_eq_iff)
  qed
  then have "mask_iter f = map (\<lambda>p. (fst p, miniflow_get f (fst p))) (mask_iter f)"
    by (simp add: map_idI)
  also have "\<dots> = map (\<lambda>ofs. (ofs, miniflow_get f ofs)) (map fst (mask_iter f))" by simp
  finally show ?thesis unfolding fst .
qed

lemma miniflow_eqI:
  assumes "miniflow_wf a" and "miniflow_wf b"
    and "\<And>ofs. ofs < FLOW_U32S \<Longrightarrow> miniflow_get a ofs = miniflow_get b ofs"
  shows "a = b"
proof -
  have m: "mmap a = mmap b"
    using assms miniflow_wf_nonzero [OF assms(1)] miniflow_wf_nonzero [OF assms(2)]
    by (intro mini_maps_eqI) (auto simp: miniflow_wf_def)
  have "mask_iter a = mask_iter b"
    unfolding mask_iter_words [OF assms(1)] mask_iter_words [OF assms(2)]
    using assms(3) by (intro map_cong filter_cong) auto
  moreover have "mvalues f = map snd (mask_iter f)" if "miniflow_wf f" for f
    using that by (simp add: mask_iter_ofs map_snd_zip_take miniflow_wf_def)
  ultimately have "mvalues a = mvalues b" using assms(1,2) by metis
  with m show ?thesis by simp
qed

lemma init_expand: "miniflow_wf f \<Longrightarrow> miniflow_init (miniflow_expand f) = f"
  by (intro miniflow_eqI) (simp_all add: miniflow_get_init miniflow_expand_nth)

section \<open>The compressed operations\<close>

lemma n_values:
  assumes "miniflow_wf f"
  shows "miniflow_n_values f = length (mvalues f)"
proof -
  have "length (map_iter m) = popcount m" for m
    using map_iter_bits [of m] by (metis length_map popcount_filter)
  then have "length (mini_iter (mmap f)) = miniflow_n_values f"
    by (simp add: mini_iter_def miniflow_n_values_def MINI_N_MAPS_def numeral_2_eq_2)
  moreover have "length (mini_iter (mmap f)) = length (mvalues f)"
    using mini_iter_ofs [of "mmap f"] assms by (metis length_map miniflow_wf_def)
  ultimately show ?thesis by simp
qed

lemma miniflow_clone_eq: "miniflow_wf f \<Longrightarrow> miniflow_clone f = f"
  by (simp add: miniflow_clone_def n_values)

lemma miniflow_equal_iff:
  assumes "miniflow_wf a" and "miniflow_wf b"
  shows "miniflow_equal a b \<longleftrightarrow> a = b"
proof
  assume e: "miniflow_equal a b"
  have "mmap a = mmap b"
    using e assms by (intro nth_equalityI) (auto simp: miniflow_equal_def miniflow_wf_def list_all_iff)
  moreover from this have "length (mvalues a) = length (mvalues b)"
    using assms by (simp add: miniflow_wf_def)
  ultimately show "a = b" using e n_values [OF assms(1)] by (simp add: miniflow_equal_def)
qed (simp add: miniflow_equal_def list_all_iff)

lemma minimask_equal_iff: "miniflow_wf a \<Longrightarrow> miniflow_wf b \<Longrightarrow> minimask_equal a b \<longleftrightarrow> a = b"
  by (simp add: minimask_equal_def miniflow_equal_iff)

lemma expand_eq_iff:
  assumes "miniflow_wf a" and "miniflow_wf b"
  shows "miniflow_expand a = miniflow_expand b \<longleftrightarrow> a = b"
  using init_expand [OF assms(1)] init_expand [OF assms(2)] by metis

lemma flow_equal_except_iff:
  "flow_equal_except a b wc \<longleftrightarrow> (\<forall>i < FLOW_U32S. a ! i AND wc ! i = b ! i AND wc ! i)"
  by (auto simp: flow_equal_except_def list_all_iff and_xor_zero_iff)

lemma ball_mask_iter:
  assumes "miniflow_wf m"
  shows "(\<forall>(ofs, p) \<in> set (mask_iter m). \<not> (f ofs XOR g ofs) AND p \<noteq> 0) \<longleftrightarrow>
    (\<forall>i < FLOW_U32S. f i AND miniflow_get m i = g i AND miniflow_get m i)"
  unfolding mask_iter_words [OF assms] by (auto simp: and_xor_zero_iff)

text \<open>
  The masked operations come in two forms that differ only in how they read a word of the flow:
  by \<^verbatim>\<open>miniflow_get\<close> or by an array access. A representation of flows from which words are read
  is the interface; both forms are interpretations.
\<close>

locale flow_rep =
  fixes invar :: "'r \<Rightarrow> bool" and flow_of :: "'r \<Rightarrow> flow" and word_at :: "'r \<Rightarrow> nat \<Rightarrow> u32"
  assumes flow_of_wf: "invar r \<Longrightarrow> flow_wf (flow_of r)"
    and word_at: "invar r \<Longrightarrow> ofs < FLOW_U32S \<Longrightarrow> word_at r ofs = flow_of r ! ofs"
begin

lemma equal_in_mask:
  assumes "invar r" and "miniflow_wf a" and "miniflow_wf m"
  shows "list_all (\<lambda>(ofs, p). \<not> (miniflow_get a ofs XOR word_at r ofs) AND p \<noteq> 0) (mask_iter m) \<longleftrightarrow>
    flow_equal_except (miniflow_expand a) (flow_of r) (miniflow_expand m)"
  unfolding list_all_iff ball_mask_iter [OF assms(3)] flow_equal_except_iff
  using assms by (simp add: miniflow_expand_nth word_at)

lemma hash_in_mask:
  assumes "invar r" and "miniflow_wf m"
  shows "mhash_finish (foldl (\<lambda>hash (ofs, p). mhash_add hash (word_at r ofs AND p)) basis (mask_iter m)) n =
    mhash_finish (foldl (\<lambda>hash (ofs, p). mhash_add hash (flow_of r ! ofs AND p)) basis (mask_iter m)) n"
  unfolding mask_iter_words [OF assms(2)] using assms(1)
  by (intro arg_cong2 [where f = mhash_finish] foldl_cong) (auto simp: word_at)

end

interpretation mini_rep: flow_rep miniflow_wf miniflow_expand miniflow_get
  by unfold_locales (simp_all add: miniflow_expand_nth)

interpretation array_rep: flow_rep flow_wf "\<lambda>f. f" "\<lambda>f ofs. f ! ofs"
  by unfold_locales simp_all

lemma equal_in_minimask_iff:
  assumes "miniflow_wf a" and "miniflow_wf b" and "miniflow_wf m"
  shows "miniflow_equal_in_minimask a b m \<longleftrightarrow>
    flow_equal_except (miniflow_expand a) (miniflow_expand b) (miniflow_expand m)"
  unfolding miniflow_equal_in_minimask_def by (rule mini_rep.equal_in_mask [OF assms(2,1,3)])

lemma equal_flow_in_minimask_iff:
  assumes "miniflow_wf a" and "flow_wf f" and "miniflow_wf m"
  shows "miniflow_equal_flow_in_minimask a f m \<longleftrightarrow>
    flow_equal_except (miniflow_expand a) f (miniflow_expand m)"
  unfolding miniflow_equal_flow_in_minimask_def by (rule array_rep.equal_in_mask [OF assms(2,1,3)])

lemma hash_in_minimask_expand:
  assumes "miniflow_wf a" and "miniflow_wf m"
  shows "miniflow_hash_in_minimask a m basis = flow_hash_in_minimask (miniflow_expand a) m basis"
  unfolding miniflow_hash_in_minimask_def flow_hash_in_minimask_def by (rule mini_rep.hash_in_mask [OF assms])

lemma hash_in_minimask_cong:
  assumes "flow_equal_except f g (miniflow_expand m)" and "miniflow_wf m"
  shows "flow_hash_in_minimask f m basis = flow_hash_in_minimask g m basis"
proof -
  have "foldl (\<lambda>hash (ofs, p). mhash_add hash (f ! ofs AND p)) basis (mask_iter m) =
      foldl (\<lambda>hash (ofs, p). mhash_add hash (g ! ofs AND p)) basis (mask_iter m)"
    unfolding mask_iter_words [OF assms(2)] using assms
    by (intro foldl_cong) (auto simp: flow_equal_except_iff miniflow_expand_nth)
  then show ?thesis by (simp add: flow_hash_in_minimask_def)
qed

lemma fold_minimask_nth:
  assumes "miniflow_wf m" and "flow_wf wc" and "i < FLOW_U32S"
  shows "flow_wildcards_fold_minimask wc m ! i = wc ! i OR miniflow_expand m ! i"
  using fold_union_nth [OF distinct_mask_iter, of wc m i] mask_iter_get [OF assms(1), of i] assms
  by (simp add: flow_wildcards_fold_minimask_def flow_union_eq flow_wf_def miniflow_expand_nth FLOW_U32S_eq)

lemma fold_minimask_wf:
  "flow_wf wc \<Longrightarrow> flow_wf (flow_wildcards_fold_minimask wc m)"
  using fold_union_nth [OF distinct_mask_iter, of wc m]
  by (simp add: flow_wildcards_fold_minimask_def flow_union_eq flow_wf_def)

lemma fold_minimask_or:
  assumes "miniflow_wf m" and "flow_wf wc"
  shows "flow_wildcards_fold_minimask wc m = flow_wildcards_or wc (miniflow_expand m)"
  using fold_minimask_wf [OF assms(2), of m] fold_minimask_nth [OF assms]
  by (intro nth_equalityI) (auto simp: flow_wildcards_or_def flow_wf_def)

lemma minimask_is_catchall_iff:
  assumes "miniflow_wf m"
  shows "minimask_is_catchall m \<longleftrightarrow> flow_wildcards_is_catchall (miniflow_expand m)"
proof -
  have "minimask_is_catchall m \<longleftrightarrow> (\<forall>ofs < 64. \<not> map_has (mmap m) ofs)"
  proof
    assume c: "minimask_is_catchall m"
    then have "mmap m ! 0 = 0" "mmap m ! 1 = 0" by (simp_all add: minimask_is_catchall_def or_eq_0_iff)
    then have "mmap m ! (ofs div 32) = 0" if "ofs < 64" for ofs
    proof -
      have "ofs div 32 < 2" using that by simp
      with \<open>mmap m ! 0 = 0\<close> \<open>mmap m ! 1 = 0\<close> show ?thesis by (auto dest: less_2_cases)
    qed
    then show "\<forall>ofs < 64. \<not> map_has (mmap m) ofs" by (simp add: map_has_def)
  next
    assume "\<forall>ofs < 64. \<not> map_has (mmap m) ofs"
    then have "mmap m = [0, 0]"
      using assms by (intro mini_maps_eqI) (auto simp: miniflow_wf_def MINI_N_MAPS_def map_has_def nth_Cons split: nat.splits)
    then show "minimask_is_catchall m" by (simp add: minimask_is_catchall_def)
  qed
  then show ?thesis
    using miniflow_wf_nonzero [OF assms] FLOW_U32S_eq assms
    by (auto simp: flow_wildcards_is_catchall_def list_all_iff miniflow_expand_nth)
qed

lemma minimask_has_extra_iff:
  assumes "miniflow_wf a" and "miniflow_wf b"
  shows "minimask_has_extra a b \<longleftrightarrow> flow_wildcards_has_extra (miniflow_expand a) (miniflow_expand b)"
proof -
  let ?maps = "map (\<lambda>i. mmap a ! i OR mmap b ! i) [0..<MINI_N_MAPS]"
  have h: "map_has ?maps ofs \<longleftrightarrow> map_has (mmap a) ofs \<or> map_has (mmap b) ofs" if "ofs < 64" for ofs
  proof -
    have "ofs div 32 < 2" using that by simp
    then show ?thesis by (simp add: map_has_def MINI_N_MAPS_def bit_or_iff nth_map_upt0)
  qed
  let ?E = "\<lambda>ofs. miniflow_get a ofs AND miniflow_get b ofs \<noteq> miniflow_get b ofs"
  have "minimask_has_extra a b \<longleftrightarrow> (\<exists>ofs \<in> set (map mini_ofs (mini_iter ?maps)). ?E ofs)"
    by (simp add: minimask_has_extra_def list_ex_iff Let_def)
  also have "\<dots> \<longleftrightarrow> (\<exists>ofs < 64. map_has ?maps ofs \<and> ?E ofs)" by (auto simp: mini_iter_ofs)
  also have "\<dots> \<longleftrightarrow> (\<exists>ofs < FLOW_U32S. ?E ofs)"
  proof (intro ex_cong1 iffI; elim conjE; intro conjI)
    fix ofs assume "ofs < 64" "map_has ?maps ofs"
    then show "ofs < FLOW_U32S"
      using h miniflow_wf_nonzero [OF assms(1)] miniflow_wf_nonzero [OF assms(2)] by blast
  next
    fix ofs assume ofs: "ofs < FLOW_U32S" and E: "?E ofs"
    then show "ofs < 64" by (simp add: FLOW_U32S_eq)
    moreover have "miniflow_get b ofs \<noteq> 0" using E by auto
    ultimately show "map_has ?maps ofs" using h miniflow_wf_nonzero [OF assms(2)] ofs by blast
  qed assumption
  finally show ?thesis
    using assms by (auto simp: flow_wildcards_has_extra_def list_ex_iff miniflow_expand_nth)
qed

lemma rightmost_1bit_u32:
  fixes m :: u32
  assumes "m \<noteq> 0"
  shows "(ucast (rightmost_1bit (ucast m)) :: u32) = push_bit (raw_ctz m) 1"
proof (rule bit_word_eqI)
  fix i assume i: "i < LENGTH(32)"
  have z: "is_lsb m (raw_ctz m)" using raw_ctz_is_lsb [OF assms] .
  have z': "is_lsb (ucast m :: u64) (raw_ctz m)"
    using z is_lsb_bound [OF z] by (auto simp: is_lsb_def bit_ucast_iff)
  have "bit (rightmost_1bit (ucast m)) i \<longleftrightarrow> bit (ucast m :: u64) i \<and> \<not> bit (ucast m - 1 :: u64) i"
    using i by (simp add: rightmost_1bit_def bit_and_iff minus_eq_not_minus_1 bit_not_iff)
  also have "\<dots> \<longleftrightarrow> i = raw_ctz m"
    using bit_minus_one_lsb [OF z', of i] z' i
    by (cases i "raw_ctz m" rule: linorder_cases) (auto simp: is_lsb_def)
  finally show "bit (ucast (rightmost_1bit (ucast m)) :: u32) i = bit (push_bit (raw_ctz m) 1 :: u32) i"
    using i by (auto simp: bit_ucast_iff bit_exp_iff)
qed

lemma mini_iter_set:
  assumes "(i, m) \<in> set (mini_iter maps)"
  shows "i < MINI_N_MAPS \<and> m \<noteq> 0 \<and> raw_ctz m < 32"
proof -
  have "i < MINI_N_MAPS" "m \<noteq> 0" using assms map_iter_nonzero by (auto simp: mini_iter_def)
  moreover have "raw_ctz m < 32" using is_lsb_bound [OF raw_ctz_is_lsb [OF \<open>m \<noteq> 0\<close>]] by simp
  ultimately show ?thesis by simp
qed

lemma combine_fold:
  assumes g_def: "g = (\<lambda>ofs. miniflow_get a ofs AND miniflow_get b ofs)"
    and "\<forall>(i, m) \<in> set ps. i < MINI_N_MAPS \<and> m \<noteq> 0 \<and> raw_ctz m < 32"
    and "length (mmap dst) = MINI_N_MAPS"
  shows "mvalues (foldl (minimask_combine_step a b) dst ps) =
      mvalues dst @ map g (filter (\<lambda>ofs. g ofs \<noteq> 0) (map mini_ofs ps)) \<and>
    length (mmap (foldl (minimask_combine_step a b) dst ps)) = MINI_N_MAPS \<and>
    (\<forall>ofs. map_has (mmap (foldl (minimask_combine_step a b) dst ps)) ofs \<longleftrightarrow>
       map_has (mmap dst) ofs \<or> ofs \<in> mini_ofs ` set ps \<and> g ofs \<noteq> 0)"
  using assms(2,3)
proof (induction ps arbitrary: dst)
  case (Cons p ps)
  obtain i m where p: "p = (i, m)" by (cases p)
  have im: "i < 2" "m \<noteq> 0" "raw_ctz m < 32" using Cons.prems(1) by (simp_all add: p MINI_N_MAPS_def)
  define n where "n = mini_ofs p"
  have n: "n div 32 = i" "n mod 32 = raw_ctz m" "n < 64" using im by (simp_all add: n_def p mini_ofs_def)
  define d where "d = minimask_combine_step a b dst p"
  have d: "d = (if g n \<noteq> 0 then \<lparr>mvalues = mvalues dst @ [g n],
      mmap = (mmap dst)[n div 32 := mmap dst ! (n div 32) OR push_bit (n mod 32) 1]\<rparr> else dst)"
    unfolding d_def minimask_combine_step_def n_def [symmetric] n(1,2)
    by (simp add: p g_def Let_def rightmost_1bit_u32 [OF im(2)])
  have "length (mmap d) = MINI_N_MAPS" using Cons.prems(2) by (simp add: d)
  moreover have "map_has (mmap d) ofs \<longleftrightarrow> map_has (mmap dst) ofs \<or> ofs = n \<and> g n \<noteq> 0" for ofs
    unfolding d using map_has_set [OF Cons.prems(2) n(3), of ofs] by (simp only: miniflow.simps split: if_split) blast
  moreover have "mvalues d = mvalues dst @ (if g n \<noteq> 0 then [g n] else [])" by (simp add: d)
  ultimately show ?case
    using Cons.IH [of d] Cons.prems(1) by (auto simp flip: d_def n_def)
qed simp

lemma minimask_combine_props:
  assumes "miniflow_wf a" and "miniflow_wf b"
  shows "miniflow_wf (minimask_combine a b) \<and>
    miniflow_expand (minimask_combine a b) = flow_wildcards_and (miniflow_expand a) (miniflow_expand b)"
proof -
  let ?maps = "map (\<lambda>i. mmap a ! i AND mmap b ! i) [0..<MINI_N_MAPS]"
  define g where "g = (\<lambda>ofs. miniflow_get a ofs AND miniflow_get b ofs)"
  define c where "c = minimask_combine a b"
  define f where "f = flow_wildcards_and (miniflow_expand a) (miniflow_expand b)"
  have f: "flow_wf f" "\<And>i. i < FLOW_U32S \<Longrightarrow> f ! i = g i"
    using assms by (simp_all add: f_def flow_wildcards_and_def flow_wf_def g_def miniflow_expand_nth)
  have h: "map_has ?maps ofs \<longleftrightarrow> map_has (mmap a) ofs \<and> map_has (mmap b) ofs" if "ofs < 64" for ofs
  proof -
    have "ofs div 32 < 2" using that by simp
    then show ?thesis by (simp add: map_has_def MINI_N_MAPS_def bit_and_iff nth_map_upt0)
  qed
  have mem: "ofs \<in> mini_ofs ` set (mini_iter ?maps) \<longleftrightarrow> ofs < 64 \<and> map_has ?maps ofs" for ofs
    using arg_cong [OF mini_iter_ofs [of ?maps], of set] by auto
  have iter: "ofs \<in> mini_ofs ` set (mini_iter ?maps) \<and> g ofs \<noteq> 0 \<longleftrightarrow> ofs < FLOW_U32S \<and> g ofs \<noteq> 0" for ofs
  proof -
    have "miniflow_get a ofs \<noteq> 0 \<and> miniflow_get b ofs \<noteq> 0" if "g ofs \<noteq> 0"
      using that by (auto simp: g_def)
    then show ?thesis
      unfolding mem using h miniflow_wf_nonzero [OF assms(1)] miniflow_wf_nonzero [OF assms(2)] FLOW_U32S_eq by auto
  qed
  have all: "\<forall>(i, m) \<in> set (mini_iter ?maps). i < MINI_N_MAPS \<and> m \<noteq> 0 \<and> raw_ctz m < 32"
    using mini_iter_set by blast
  have fold: "mvalues c = map g (filter (\<lambda>ofs. g ofs \<noteq> 0) (map mini_ofs (mini_iter ?maps)))"
    "length (mmap c) = MINI_N_MAPS" "\<And>ofs. ofs < 64 \<Longrightarrow> map_has (mmap c) ofs \<longleftrightarrow> ofs < FLOW_U32S \<and> g ofs \<noteq> 0"
    using combine_fold [OF g_def all, of "\<lparr>mvalues = [], mmap = replicate MINI_N_MAPS 0\<rparr>"]
      iter init_maps [of 0]
    by (simp_all add: c_def minimask_combine_def miniflow_init_map_def)
  have "filter (\<lambda>ofs. g ofs \<noteq> 0) (map mini_ofs (mini_iter ?maps)) = filter (\<lambda>ofs. f ! ofs \<noteq> 0) [0..<FLOW_U32S]"
    unfolding mini_iter_ofs filter_filter
  proof (rule filter_upt_bound)
    fix ofs :: nat assume "ofs < 64"
    then show "map_has ?maps ofs \<and> g ofs \<noteq> 0 \<longleftrightarrow> ofs < FLOW_U32S \<and> f ! ofs \<noteq> 0"
      using iter [of ofs] f(2) [of ofs] unfolding mem by auto
  qed (simp add: FLOW_U32S_eq)
  then have "mvalues c = mvalues (miniflow_init f)"
    unfolding fold(1) miniflow_init_props(3) using f(2) by auto
  moreover have "mmap c = mmap (miniflow_init f)"
    using fold(2,3) miniflow_init_props(1) miniflow_init_props(2) [of _ f] f(2) by (intro mini_maps_eqI) auto
  ultimately have "c = miniflow_init f" by simp
  then show ?thesis using expand_init [OF f(1)] by (simp add: c_def f_def)
qed

section \<open>Properties\<close>

text \<open>
  C16. A flow survives compression, and a miniflow that satisfies the documented invariant
  survives expansion; compression always establishes that invariant. \<^verbatim>\<open>miniflow_get\<close>, which
  finds a word by counting bits of the map, reads the word the expanded flow has there, and
  \<^verbatim>\<open>miniflow_equal\<close> is equality of the expanded flows.
\<close>

theorem miniflow_roundtrip:
  assumes "flow_wf f" and "miniflow_wf m" and "miniflow_wf m'" and "ofs < FLOW_U32S"
  shows "miniflow_wf (miniflow_init f) \<and> miniflow_expand (miniflow_init f) = f \<and>
    flow_wf (miniflow_expand m) \<and> miniflow_init (miniflow_expand m) = m \<and>
    miniflow_get m ofs = miniflow_expand m ! ofs \<and>
    (miniflow_equal m m' \<longleftrightarrow> flow_equal (miniflow_expand m) (miniflow_expand m')) \<and>
    miniflow_clone m = m"
  using assms
  by (simp add: expand_init init_expand miniflow_expand_nth miniflow_equal_iff flow_equal_def
      expand_eq_iff miniflow_clone_eq)

theorem miniflow_roundtrip_witness:
  "miniflow_expand (miniflow_init (replicate 53 7 @ [0])) = replicate 53 7 @ [0]"
  using miniflow_roundtrip [of "replicate 53 7 @ [0]" "miniflow_init []" "miniflow_init []" 0]
  by (simp add: flow_wf_def FLOW_U32S_eq)

text \<open>
  C22. The operations on compressed masks and flows compute what the corresponding
  loops over whole flows do: equality under a mask, whether a mask has extra wildcards,
  combination of masks, the test for a catch-all, and folding a mask into wildcards.
\<close>

theorem minimask_operations:
  assumes "miniflow_wf a" and "miniflow_wf b" and "miniflow_wf m" and "flow_wf f"
  shows "(miniflow_equal_in_minimask a b m \<longleftrightarrow>
       flow_equal_except (miniflow_expand a) (miniflow_expand b) (minimask_expand m)) \<and>
    (miniflow_equal_flow_in_minimask a f m \<longleftrightarrow>
       flow_equal_except (miniflow_expand a) f (minimask_expand m)) \<and>
    (minimask_has_extra a b \<longleftrightarrow> flow_wildcards_has_extra (minimask_expand a) (minimask_expand b)) \<and>
    minimask_expand (minimask_combine a b) = flow_wildcards_and (minimask_expand a) (minimask_expand b) \<and>
    miniflow_wf (minimask_combine a b) \<and>
    (minimask_is_catchall m \<longleftrightarrow> flow_wildcards_is_catchall (minimask_expand m)) \<and>
    flow_wildcards_fold_minimask f m = flow_wildcards_or f (minimask_expand m)"
  unfolding minimask_expand_def
  using assms minimask_combine_props [OF assms(1,2)]
  by (simp add: equal_in_minimask_iff equal_flow_in_minimask_iff minimask_has_extra_iff
      minimask_is_catchall_iff fold_minimask_or)

theorem minimask_operations_witness:
  "miniflow_wf (minimask_combine (minimask_init (replicate 54 3)) (minimask_init (replicate 54 6)))"
  using minimask_operations [of "minimask_init (replicate 54 3)" "minimask_init (replicate 54 6)"
      "minimask_init []" "replicate 54 0"]
  by (simp add: minimask_init_def flow_wf_def FLOW_U32S_eq)

text \<open>
  C32. Hashing under a mask depends only on the bits the mask selects, and the two
  functions that hash a compressed and an uncompressed flow under a mask agree, as their
  comments say.
\<close>

theorem masked_hashes_agree:
  assumes "miniflow_wf a" and "miniflow_wf m" and "flow_equal_except (miniflow_expand a) f (minimask_expand m)"
  shows "miniflow_hash_in_minimask a m basis = flow_hash_in_minimask f m basis"
  using hash_in_minimask_expand [OF assms(1,2)] hash_in_minimask_cong [OF _ assms(2)] assms(3)
  by (simp add: minimask_expand_def)

theorem masked_hashes_agree_witness:
  "miniflow_hash_in_minimask (miniflow_init (replicate 54 5)) (minimask_init (replicate 54 1)) 0 =
   flow_hash_in_minimask (replicate 54 7) (minimask_init (replicate 54 1)) 0"
proof -
  have f: "flow_wf (replicate 54 (5 :: u32))" "flow_wf (replicate 54 (1 :: u32))"
    by (simp_all add: flow_wf_def FLOW_U32S_eq)
  show ?thesis
    using masked_hashes_agree [of "miniflow_init (replicate 54 5)" "minimask_init (replicate 54 1)" "replicate 54 7" 0]
    by (simp add: minimask_init_def minimask_expand_def expand_init f flow_equal_except_iff FLOW_U32S_eq)
qed

end
