(* ===== verification/Classifier.thy ===== *)
theory Classifier
  imports Flow Hmap
begin

text \<open>
  The flow classifier (\<^verbatim>\<open>lib/classifier.h\<close>, \<^verbatim>\<open>lib/classifier.c\<close>): tables of rules, one table
  per set of wildcards, each a hash map from flow values to rules.

  A rule is its address with the members of \<^verbatim>\<open>struct cls_rule\<close>; its \<^verbatim>\<open>list\<close> member links it in a
  ring with the rules that have the same match and other priorities. Only the first rule of a
  ring is in the hash map. Here the object in the map is the whole ring, as the list that starts
  with the rule in the map, so that \<^verbatim>\<open>hmap_replace\<close> of the first rule and an update of a
  \<^verbatim>\<open>list\<close> link both replace the object. The tables are on a heap, since the map of tables and
  the list of tables by priority share them. Locks and memory that is freed are not modelled.
\<close>

section \<open>Rules\<close>

record cls_rule =
  addr :: nat
  rhash :: u64
  rmatch :: minimatch
  priority :: u32

definition cls_rule_init :: "nat \<Rightarrow> match \<Rightarrow> u32 \<Rightarrow> cls_rule" where
  "cls_rule_init a m prio = \<lparr>addr = a, rhash = 0, rmatch = minimatch_init m, priority = prio\<rparr>"

definition cls_rule_init_from_minimatch :: "nat \<Rightarrow> minimatch \<Rightarrow> u32 \<Rightarrow> cls_rule" where
  "cls_rule_init_from_minimatch a m prio =
     \<lparr>addr = a, rhash = 0, rmatch = minimatch_clone m, priority = prio\<rparr>"

definition cls_rule_clone :: "cls_rule \<Rightarrow> cls_rule \<Rightarrow> cls_rule" where
  "cls_rule_clone dst src = dst\<lparr>rmatch := minimatch_clone (rmatch src), priority := priority src\<rparr>"

definition cls_rule_equal :: "cls_rule \<Rightarrow> cls_rule \<Rightarrow> bool" where
  "cls_rule_equal a b \<longleftrightarrow> priority a = priority b \<and> minimatch_equal (rmatch a) (rmatch b)"

definition cls_rule_hash :: "cls_rule \<Rightarrow> u32 \<Rightarrow> u32" where
  "cls_rule_hash rule basis = minimatch_hash (rmatch rule) (hash_int (priority rule) basis)"

definition cls_rule_is_catchall :: "cls_rule \<Rightarrow> bool" where
  "cls_rule_is_catchall rule = minimask_is_catchall (mmask (rmatch rule))"

definition cls_rule_is_loose_match :: "cls_rule \<Rightarrow> minimatch \<Rightarrow> bool" where
  "cls_rule_is_loose_match rule criteria \<longleftrightarrow>
     \<not> minimask_has_extra (mmask (rmatch rule)) (mmask criteria) \<and>
     miniflow_equal_in_minimask (mflow (rmatch rule)) (mflow criteria) (mmask criteria)"

section \<open>Tables\<close>

type_synonym chain = "cls_rule list"

record cls_table =
  thash :: u64
  rules :: "chain hmap"
  tmask :: minimask
  n_table_rules :: int
  max_priority :: u32
  max_count :: u32

text \<open>
  \<^verbatim>\<open>FOR_EACH_RULE_IN_LIST\<close>: the rules of a ring as \<^verbatim>\<open>next_rule_in_list\<close> visits them, up to a rule
  whose successor in the ring does not have a lower priority. The successor of the last rule is
  the first one.
\<close>

fun rules_in_list :: "chain \<Rightarrow> cls_rule list" where
  "rules_in_list [] = []"
| "rules_in_list [r] = [r]"
| "rules_in_list (r # next # rs) =
     r # (if priority next < priority r then rules_in_list (next # rs) else [])"

definition find_match :: "cls_table \<Rightarrow> flow \<Rightarrow> cls_rule option" where
  "find_match table flow =
     (let hash = flow_hash_in_minimask flow (tmask table) 0
      in map_option hd
           (List.find (\<lambda>c. miniflow_equal_flow_in_minimask (mflow (rmatch (hd c))) flow (tmask table))
              (HMAP_FOR_EACH_WITH_HASH (rules table) (ucast hash))))"

definition find_equal :: "cls_table \<Rightarrow> miniflow \<Rightarrow> u64 \<Rightarrow> chain option" where
  "find_equal table flow hash =
     List.find (\<lambda>c. miniflow_equal (mflow (rmatch (hd c))) flow) (HMAP_FOR_EACH_WITH_HASH (rules table) hash)"

text \<open>
  The loop of \<^verbatim>\<open>insert_rule\<close> that looks for the place of the new rule in a ring: the rule that
  was replaced, and the ring afterwards.
\<close>

fun chain_insert :: "cls_rule \<Rightarrow> chain \<Rightarrow> cls_rule option \<times> chain" where
  "chain_insert new [] = (None, [new])"
| "chain_insert new (rule # rs) =
     (if priority new \<ge> priority rule then
        if priority new = priority rule then (Some rule, new # rs) else (None, new # rule # rs)
      else
        case rs of
          [] \<Rightarrow> (None, [rule, new])
        | next # _ \<Rightarrow>
            if priority next < priority rule
            then let (old, rs') = chain_insert new rs in (old, rule # rs')
            else (None, rule # rs @ [new]))"

section \<open>The classifier\<close>

record classifier =
  n_rules :: int
  tables :: "nat hmap"
  tables_priority :: "nat list"
  heap :: "nat \<Rightarrow> cls_table option"
  heap_next :: nat

definition table_at :: "classifier \<Rightarrow> nat \<Rightarrow> cls_table" where
  "table_at cls t = the (heap cls t)"

definition set_table :: "classifier \<Rightarrow> nat \<Rightarrow> cls_table \<Rightarrow> classifier" where
  "set_table cls t table = cls\<lparr>heap := (heap cls)(t \<mapsto> table)\<rparr>"

definition classifier_init :: classifier where
  "classifier_init =
     \<lparr>n_rules = 0, tables = hmap_init, tables_priority = [], heap = (\<lambda>_. None), heap_next = 0\<rparr>"

definition classifier_is_empty :: "classifier \<Rightarrow> bool" where
  "classifier_is_empty cls \<longleftrightarrow> n_rules cls = 0"

definition classifier_count :: "classifier \<Rightarrow> int" where
  "classifier_count cls = n_rules cls"

definition find_table :: "classifier \<Rightarrow> minimask \<Rightarrow> nat option" where
  "find_table cls m =
     List.find (\<lambda>t. minimask_equal m (tmask (table_at cls t)))
       (HMAP_FOR_EACH_IN_BUCKET (tables cls) (ucast (minimask_hash m 0)))"

definition insert_table :: "classifier \<Rightarrow> minimask \<Rightarrow> classifier \<times> nat" where
  "insert_table cls m =
     (let t = heap_next cls;
          hash = ucast (minimask_hash m 0);
          table = \<lparr>thash = hash, rules = hmap_init, tmask = minimask_clone m,
                   n_table_rules = 0, max_priority = 0, max_count = 0\<rparr>
      in (cls\<lparr>heap := (heap cls)(t \<mapsto> table), heap_next := t + 1,
              tables := hmap_insert (tables cls) t hash,
              tables_priority := tables_priority cls @ [t]\<rparr>, t))"

definition destroy_table :: "classifier \<Rightarrow> nat \<Rightarrow> classifier" where
  "destroy_table cls t =
     cls\<lparr>tables := hmap_remove (tables cls) (thash (table_at cls t), t),
         tables_priority := remove1 t (tables_priority cls),
         heap := (heap cls)(t := None)\<rparr>"

text \<open>
  Moving a table in the list by priority: \<open>pre\<close> and \<open>post\<close> are the tables before and after it.
  After an insertion the code walks backwards from the table to one of at least its priority and
  puts the table just after that one, or first; after a removal it walks forwards to one of at
  most its priority and puts the table just before it, or last.
\<close>

definition move_table_forward :: "(nat \<Rightarrow> u32) \<Rightarrow> nat \<Rightarrow> nat list \<Rightarrow> nat list" where
  "move_table_forward prio t tp =
     (let pre = takeWhile (\<lambda>u. u \<noteq> t) tp;
          post = tl (dropWhile (\<lambda>u. u \<noteq> t) tp);
          skip = (\<lambda>iter. \<not> prio iter \<ge> prio t)
      in rev (dropWhile skip (rev pre)) @ t # rev (takeWhile skip (rev pre)) @ post)"

definition move_table_back :: "(nat \<Rightarrow> u32) \<Rightarrow> nat \<Rightarrow> nat list \<Rightarrow> nat list" where
  "move_table_back prio t tp =
     (let pre = takeWhile (\<lambda>u. u \<noteq> t) tp;
          post = tl (dropWhile (\<lambda>u. u \<noteq> t) tp);
          skip = (\<lambda>iter. \<not> prio iter \<le> prio t)
      in pre @ takeWhile skip post @ t # dropWhile skip post)"

definition update_tables_after_insertion :: "classifier \<Rightarrow> nat \<Rightarrow> u32 \<Rightarrow> classifier" where
  "update_tables_after_insertion cls t new_priority =
     (let table = table_at cls t in
      if new_priority = max_priority table then
        set_table cls t (table\<lparr>max_count := max_count table + 1\<rparr>)
      else if new_priority > max_priority table then
        let cls1 = set_table cls t (table\<lparr>max_priority := new_priority, max_count := 1\<rparr>)
        in cls1\<lparr>tables_priority :=
             move_table_forward (\<lambda>u. max_priority (table_at cls1 u)) t (tables_priority cls1)\<rparr>
      else cls)"

definition recount_max :: "u32 \<times> u32 \<Rightarrow> chain \<Rightarrow> u32 \<times> u32" where
  "recount_max = (\<lambda>(max_prio, cnt) c.
     if priority (hd c) > max_prio then (priority (hd c), 1)
     else if priority (hd c) = max_prio then (max_prio, cnt + 1)
     else (max_prio, cnt))"

definition update_tables_after_removal :: "classifier \<Rightarrow> nat \<Rightarrow> u32 \<Rightarrow> classifier" where
  "update_tables_after_removal cls t del_priority =
     (let table = table_at cls t in
      if del_priority = max_priority table then
        let count = max_count table - 1 in
        if count = 0 then
          let (max_prio, cnt) = foldl recount_max (0, 0) (HMAP_FOR_EACH (rules table));
              cls1 = set_table cls t (table\<lparr>max_priority := max_prio, max_count := cnt\<rparr>)
          in cls1\<lparr>tables_priority :=
               move_table_back (\<lambda>u. max_priority (table_at cls1 u)) t (tables_priority cls1)\<rparr>
        else set_table cls t (table\<lparr>max_count := count\<rparr>)
      else cls)"

text \<open>What \<^verbatim>\<open>insert_rule\<close> does to the rules of the table, and the rule it replaced there.\<close>

definition insert_into_rules :: "cls_table \<Rightarrow> cls_rule \<Rightarrow> cls_rule option \<times> chain hmap" where
  "insert_into_rules table new =
     (case find_equal table (mflow (rmatch new)) (rhash new) of
        None \<Rightarrow> (None, hmap_insert (rules table) [new] (rhash new))
      | Some c \<Rightarrow>
          let (old, c') = chain_insert new c
          in (old, hmap_replace (rules table) (rhash (hd c), c) c'))"

definition insert_rule :: "classifier \<Rightarrow> nat \<Rightarrow> cls_rule \<Rightarrow> classifier \<times> cls_rule option" where
  "insert_rule cls t new0 =
     (let table = table_at cls t;
          new = new0\<lparr>rhash := ucast (miniflow_hash_in_minimask (mflow (rmatch new0)) (mmask (rmatch new0)) 0)\<rparr>;
          (old, rules') = insert_into_rules table new;
          cls1 = set_table cls t (table\<lparr>rules := rules'\<rparr>)
      in (if old = None then update_tables_after_insertion cls1 t (priority new) else cls1, old))"

definition classifier_replace :: "classifier \<Rightarrow> cls_rule \<Rightarrow> classifier \<times> cls_rule option" where
  "classifier_replace cls rule =
     (let (cls1, t) =
            (case find_table cls (mmask (rmatch rule)) of
               None \<Rightarrow> insert_table cls (mmask (rmatch rule))
             | Some t \<Rightarrow> (cls, t));
          (cls2, old_rule) = insert_rule cls1 t rule
      in if old_rule = None
         then let table = table_at cls2 t;
                  cls3 = set_table cls2 t (table\<lparr>n_table_rules := n_table_rules table + 1\<rparr>)
              in (cls3\<lparr>n_rules := n_rules cls3 + 1\<rparr>, old_rule)
         else (cls2, old_rule))"

text \<open>The assertion aborts the process when a rule was displaced: that is \<^term>\<open>None\<close>.\<close>

definition classifier_insert :: "classifier \<Rightarrow> cls_rule \<Rightarrow> classifier option" where
  "classifier_insert cls rule =
     (let (cls', displaced_rule) = classifier_replace cls rule
      in if displaced_rule = None then Some cls' else None)"

text \<open>\<^term>\<open>None\<close> where the code would follow a null pointer.\<close>

definition classifier_remove :: "classifier \<Rightarrow> cls_rule \<Rightarrow> classifier option" where
  "classifier_remove cls rule =
     (case find_table cls (mmask (rmatch rule)) of
        None \<Rightarrow> None
      | Some t \<Rightarrow>
          let table = table_at cls t in
          case find_equal table (mflow (rmatch rule)) (rhash rule) of
            None \<Rightarrow> None
          | Some c \<Rightarrow>
              let rules' =
                    (if hd c \<noteq> rule then hmap_replace (rules table) (rhash rule, c) (remove1 rule c)
                     else if tl c = [] then hmap_remove (rules table) (rhash rule, c)
                     else hmap_replace (rules table) (rhash rule, c) (tl c));
                  n = n_table_rules table - 1;
                  cls1 = set_table cls t (table\<lparr>rules := rules', n_table_rules := n\<rparr>);
                  cls2 = (if n = 0 then destroy_table cls1 t
                          else update_tables_after_removal cls1 t (priority rule))
              in Some (cls2\<lparr>n_rules := n_rules cls2 - 1\<rparr>))"

text \<open>
  \<^verbatim>\<open>wc\<close> may be a null pointer. The outer loop looks for a first match, the inner one for a
  better one in the tables that follow.
\<close>

definition lookup_fold :: "flow option \<Rightarrow> cls_table \<Rightarrow> flow option" where
  "lookup_fold wc table =
     (case wc of None \<Rightarrow> None | Some w \<Rightarrow> Some (flow_wildcards_fold_minimask w (tmask table)))"

fun lookup_continue ::
  "classifier \<Rightarrow> flow \<Rightarrow> flow option \<Rightarrow> cls_rule \<Rightarrow> nat list \<Rightarrow> cls_rule option \<times> flow option" where
  "lookup_continue cls flow wc best [] = (Some best, wc)"
| "lookup_continue cls flow wc best (t # ts) =
     (let table = table_at cls t in
      if max_priority table \<le> priority best then (Some best, wc)
      else
        let rule = find_match table flow;
            wc' = lookup_fold wc table;
            best' = (case rule of
                       Some r \<Rightarrow> if priority r > priority best then r else best
                     | None \<Rightarrow> best)
        in lookup_continue cls flow wc' best' ts)"

fun lookup_first ::
  "classifier \<Rightarrow> flow \<Rightarrow> flow option \<Rightarrow> nat list \<Rightarrow> cls_rule option \<times> flow option" where
  "lookup_first cls flow wc [] = (None, wc)"
| "lookup_first cls flow wc (t # ts) =
     (let table = table_at cls t;
          rule = find_match table flow;
          wc' = lookup_fold wc table
      in case rule of
           Some best \<Rightarrow> lookup_continue cls flow wc' best ts
         | None \<Rightarrow> lookup_first cls flow wc' ts)"

definition classifier_lookup :: "classifier \<Rightarrow> flow \<Rightarrow> flow option \<Rightarrow> cls_rule option \<times> flow option" where
  "classifier_lookup cls flow wc = lookup_first cls flow wc (tables_priority cls)"

fun find_priority :: "u32 \<Rightarrow> cls_rule list \<Rightarrow> cls_rule option" where
  "find_priority prio [] = None"
| "find_priority prio (rule # rs) =
     (if prio \<ge> priority rule
      then if prio = priority rule then Some rule else None
      else find_priority prio rs)"

definition classifier_find_rule_exactly :: "classifier \<Rightarrow> cls_rule \<Rightarrow> cls_rule option" where
  "classifier_find_rule_exactly cls target =
     (case find_table cls (mmask (rmatch target)) of
        None \<Rightarrow> None
      | Some t \<Rightarrow>
          if priority target > max_priority (table_at cls t) then None
          else
            case find_equal (table_at cls t) (mflow (rmatch target))
                   (ucast (miniflow_hash_in_minimask (mflow (rmatch target)) (mmask (rmatch target)) 0)) of
              None \<Rightarrow> None
            | Some c \<Rightarrow> find_priority (priority target) (rules_in_list c))"

definition classifier_find_match_exactly :: "classifier \<Rightarrow> match \<Rightarrow> u32 \<Rightarrow> cls_rule option" where
  "classifier_find_match_exactly cls target prio =
     classifier_find_rule_exactly cls (cls_rule_init 0 target prio)"

fun overlaps_in_list :: "cls_rule \<Rightarrow> minimask \<Rightarrow> cls_rule list \<Rightarrow> bool" where
  "overlaps_in_list target m [] = False"
| "overlaps_in_list target m (rule # rs) =
     (if priority rule < priority target then False
      else if priority rule = priority target \<and>
              miniflow_equal_in_minimask (mflow (rmatch target)) (mflow (rmatch rule)) m then True
      else overlaps_in_list target m rs)"

fun overlaps_in_tables :: "classifier \<Rightarrow> cls_rule \<Rightarrow> nat list \<Rightarrow> bool" where
  "overlaps_in_tables cls target [] = False"
| "overlaps_in_tables cls target (t # ts) =
     (let table = table_at cls t in
      if priority target > max_priority table then False
      else
        let m = minimask_combine (mmask (rmatch target)) (tmask table)
        in if list_ex (\<lambda>c. overlaps_in_list target m (rules_in_list c)) (HMAP_FOR_EACH (rules table))
           then True
           else overlaps_in_tables cls target ts)"

definition classifier_rule_overlaps :: "classifier \<Rightarrow> cls_rule \<Rightarrow> bool" where
  "classifier_rule_overlaps cls target = overlaps_in_tables cls target (tables_priority cls)"

section \<open>What the classifier is specified by\<close>

text \<open>
  \<open>rule_wf\<close> is what the code requires of a rule that is inserted: well-formed miniflows, and no
  value bit set where the mask has a wildcard (the invariant stated at \<^verbatim>\<open>struct match\<close>).
\<close>

definition rule_wf :: "cls_rule \<Rightarrow> bool" where
  "rule_wf r \<longleftrightarrow> miniflow_wf (mflow (rmatch r)) \<and> miniflow_wf (mmask (rmatch r)) \<and>
     (\<forall>i < FLOW_U32S. miniflow_expand (mflow (rmatch r)) ! i AND minimask_expand (mmask (rmatch r)) ! i =
        miniflow_expand (mflow (rmatch r)) ! i)"

definition rule_hash :: "cls_rule \<Rightarrow> u64" where
  "rule_hash r = ucast (miniflow_hash_in_minimask (mflow (rmatch r)) (mmask (rmatch r)) 0)"

text \<open>A packet matches a rule when it agrees with the rule's values wherever the mask has a 1-bit.\<close>

definition flow_matches :: "flow \<Rightarrow> cls_rule \<Rightarrow> bool" where
  "flow_matches f r \<longleftrightarrow>
     flow_equal_except (miniflow_expand (mflow (rmatch r))) f (minimask_expand (mmask (rmatch r)))"

definition same_rule :: "cls_rule \<Rightarrow> cls_rule \<Rightarrow> bool" where
  "same_rule a b \<longleftrightarrow> rmatch a = rmatch b \<and> priority a = priority b"

abbreviation chain_flow :: "chain \<Rightarrow> miniflow" where
  "chain_flow c \<equiv> mflow (rmatch (hd c))"

definition chain_ok :: "minimask \<Rightarrow> u64 \<Rightarrow> chain \<Rightarrow> bool" where
  "chain_ok m k c \<longleftrightarrow> c \<noteq> [] \<and> sorted_wrt (\<lambda>a b. priority b < priority a) c \<and>
     (\<exists>mt. mmask mt = m \<and>
        (\<forall>r \<in> set c. rmatch r = mt \<and> rule_wf r \<and> rhash r = k \<and> rule_hash r = k))"

definition chains :: "chain hmap \<Rightarrow> chain set" where
  "chains h = snd ` hmap_node_set h"

definition rules_of :: "chain hmap \<Rightarrow> cls_rule set" where
  "rules_of h = \<Union> (set ` chains h)"

definition rules_ok :: "minimask \<Rightarrow> chain hmap \<Rightarrow> bool" where
  "rules_ok m h \<longleftrightarrow> hmap_wf h \<and> (\<forall>(k, c) \<in> hmap_node_set h. chain_ok m k c) \<and>
     inj_on chain_flow (chains h)"

text \<open>
  \<open>max_priority\<close> and \<open>max_count\<close> of a table: the highest priority of its rules, and how many
  rules have it. In a table without rules both are 0.
\<close>

definition max_ok :: "cls_rule set \<Rightarrow> u32 \<Rightarrow> u32 \<Rightarrow> bool" where
  "max_ok R prio cnt \<longleftrightarrow> (\<forall>r \<in> R. priority r \<le> prio) \<and> unat cnt = card {r \<in> R. priority r = prio} \<and>
     (R = {} \<longrightarrow> prio = 0) \<and> (R \<noteq> {} \<longrightarrow> cnt \<noteq> 0)"

definition table_ok :: "cls_table \<Rightarrow> bool" where
  "table_ok t \<longleftrightarrow> miniflow_wf (tmask t) \<and> thash t = ucast (minimask_hash (tmask t) 0) \<and>
     rules_ok (tmask t) (rules t) \<and> max_ok (rules_of (rules t)) (max_priority t) (max_count t)"

section \<open>The rules of a table\<close>

lemma chain_in:
  assumes "rules_ok m h" and "c \<in> chains h"
  obtains k where "(k, c) \<in> hmap_node_set h" "chain_ok m k c"
  using assms by (auto simp: rules_ok_def chains_def)

lemma chain_okD:
  assumes "chain_ok m k c" and "r \<in> set c"
  shows "rule_wf r" and "mmask (rmatch r) = m" and "rhash r = k" and "rule_hash r = k"
  using assms by (auto simp: chain_ok_def)

lemma chain_ok_hd: "chain_ok m k c \<Longrightarrow> hd c \<in> set c"
  by (simp add: chain_ok_def)

lemma chain_rmatch:
  assumes "chain_ok m k c" and "r \<in> set c"
  shows "rmatch r = rmatch (hd c)"
proof -
  obtain mt where "\<forall>r \<in> set c. rmatch r = mt" using assms(1) by (auto simp: chain_ok_def)
  then show ?thesis using assms(2) chain_ok_hd [OF assms(1)] by metis
qed

lemma chain_hd_max:
  assumes "chain_ok m k c" and "r \<in> set c"
  shows "priority r \<le> priority (hd c)"
  using assms by (cases c) (auto simp: chain_ok_def less_imp_le)

text \<open>Two rules of a table with the same values and the same priority are one rule.\<close>

lemma rules_of_unique:
  assumes "rules_ok m h" and "r \<in> rules_of h" and "s \<in> rules_of h"
    and "mflow (rmatch r) = mflow (rmatch s)" and "priority r = priority s"
  shows "r = s"
proof -
  obtain c d where c: "c \<in> chains h" "r \<in> set c" and d: "d \<in> chains h" "s \<in> set d"
    using assms(2,3) by (auto simp: rules_of_def)
  obtain k where k: "chain_ok m k c" using chain_in [OF assms(1) c(1)] .
  obtain l where l: "chain_ok m l d" using chain_in [OF assms(1) d(1)] .
  have "chain_flow c = chain_flow d"
    using assms(4) chain_rmatch [OF k c(2)] chain_rmatch [OF l d(2)] by simp
  then have "c = d" using assms(1) c(1) d(1) by (auto simp: rules_ok_def dest: inj_onD)
  then have "r \<in> set c" "s \<in> set c" "sorted_wrt (\<lambda>a b. priority b < priority a) c"
    using c d k by (simp_all add: chain_ok_def)
  then show ?thesis using assms(5)
    by (induction c) auto
qed

lemma finite_rules_of [simp]: "finite (rules_of h)"
  by (simp add: rules_of_def chains_def hmap_node_set_def)

text \<open>The searches, as instances of the search by key.\<close>

interpretation chain_search: keyed_hash_bag hmap_wf hmap_node_set hmap_init hmap_insert hmap_remove
  HMAP_FOR_EACH_WITH_HASH HMAP_FOR_EACH_IN_BUCKET hmap_count chain_flow
  "\<lambda>f. ucast (miniflow_hash_in_minimask f m 0)" for m
  by unfold_locales

lemma rules_ok_keyed:
  assumes "rules_ok m h"
  shows "\<forall>(k, c) \<in> hmap_node_set h. k = ucast (miniflow_hash_in_minimask (chain_flow c) m 0)"
proof safe
  fix k c assume "(k, c) \<in> hmap_node_set h"
  then have "chain_ok m k c" using assms by (auto simp: rules_ok_def)
  then have "rule_hash (hd c) = k" "mmask (rmatch (hd c)) = m"
    using chain_okD chain_ok_hd by blast+
  then show "k = ucast (miniflow_hash_in_minimask (chain_flow c) m 0)" by (simp add: rule_hash_def)
qed

lemma find_cong: "(\<And>x. x \<in> set xs \<Longrightarrow> P x = Q x) \<Longrightarrow> List.find P xs = List.find Q xs"
  by (induction xs) auto

lemma find_equal_correct:
  assumes "rules_ok (tmask t) (rules t)" and "miniflow_wf f"
  shows "find_equal t f (ucast (miniflow_hash_in_minimask f (tmask t) 0)) = Some c \<longleftrightarrow>
    c \<in> chains (rules t) \<and> chain_flow c = f"
proof -
  let ?cs = "HMAP_FOR_EACH_WITH_HASH (rules t) (ucast (miniflow_hash_in_minimask f (tmask t) 0))"
  have wf: "hmap_wf (rules t)" using assms(1) by (simp add: rules_ok_def)
  have "miniflow_wf (chain_flow c)" if "c \<in> set ?cs" for c
  proof -
    have "c \<in> chains (rules t)"
      using that hmap_bag.set_with_hash [OF wf] by (force simp: chains_def)
    then obtain k where "chain_ok (tmask t) k c" using chain_in [OF assms(1)] by blast
    then show ?thesis using chain_okD(1) chain_ok_hd by (auto simp: rule_wf_def)
  qed
  then have "find_equal t f (ucast (miniflow_hash_in_minimask f (tmask t) 0)) =
      List.find (\<lambda>c. chain_flow c = f) ?cs"
    unfolding find_equal_def using assms(2) by (intro find_cong) (simp add: miniflow_equal_iff)
  then show ?thesis
    using chain_search.find_with_hash [OF wf rules_ok_keyed [OF assms(1)], of f c] assms(1)
    by (simp add: rules_ok_def chains_def)
qed

text \<open>What the updates of the hash map do to the rules of the table.\<close>

lemma rules_insert_chain:
  assumes "rules_ok m h" and "chain_ok m k c" and "\<forall>d \<in> chains h. chain_flow d \<noteq> chain_flow c"
  shows "rules_ok m (hmap_insert h c k) \<and> rules_of (hmap_insert h c k) = rules_of h \<union> set c"
proof -
  have wf: "hmap_wf h" using assms(1) by (simp add: rules_ok_def)
  have "c \<notin> chains h" using assms(3) by blast
  then have "hmap_wf (hmap_insert h c k)" "hmap_node_set (hmap_insert h c k) = insert (k, c) (hmap_node_set h)"
    using hmap_bag.invar_insert [OF wf] hmap_bag.nodes_insert [OF wf] by (simp_all add: chains_def)
  moreover from this have "chains (hmap_insert h c k) = insert c (chains h)" by (simp add: chains_def)
  ultimately show ?thesis
    using assms by (auto simp: rules_ok_def rules_of_def inj_on_insert)
qed

lemma rules_replace_chain:
  assumes "rules_ok m h" and "(k, c) \<in> hmap_node_set h" and "chain_ok m k c'"
    and "chain_flow c' = chain_flow c" and "c' \<noteq> c"
  shows "rules_ok m (hmap_replace h (k, c) c') \<and>
    chains (hmap_replace h (k, c) c') = insert c' (chains h - {c})"
proof -
  have wf: "hmap_wf h" using assms(1) by (simp add: rules_ok_def)
  have inj: "inj_on chain_flow (chains h)" using assms(1) by (simp add: rules_ok_def)
  have c: "c \<in> chains h" using assms(2) by (force simp: chains_def)
  then have c': "c' \<notin> chains h" using inj assms(4,5) by (auto dest: inj_onD)
  then have r: "hmap_wf (hmap_replace h (k, c) c')"
    "hmap_node_set (hmap_replace h (k, c) c') = insert (k, c') (hmap_node_set h - {(k, c)})"
    using hmap_replace_set [OF wf assms(2)] by (simp_all add: chains_def)
  have "c \<notin> snd ` (hmap_node_set h - {(k, c)})"
    using hmap_bag.removed_notin [OF wf assms(2)] hmap_bag.nodes_removed [OF wf assms(2)] by simp
  then have "snd ` (hmap_node_set h - {(k, c)}) = chains h - {c}" by (auto simp: chains_def)
  then have cs: "chains (hmap_replace h (k, c) c') = insert c' (chains h - {c})"
    by (simp add: chains_def r(2))
  have "inj_on chain_flow (insert c' (chains h - {c}))"
    using inj c assms(4) c' by (auto simp: inj_on_insert inj_on_diff dest: inj_onD)
  then show ?thesis using assms(1,3) r by (auto simp: rules_ok_def cs)
qed

lemma rules_remove_chain:
  assumes "rules_ok m h" and "(k, c) \<in> hmap_node_set h"
  shows "rules_ok m (hmap_remove h (k, c)) \<and> chains (hmap_remove h (k, c)) = chains h - {c}"
proof -
  have wf: "hmap_wf h" using assms(1) by (simp add: rules_ok_def)
  have r: "hmap_wf (hmap_remove h (k, c))" "hmap_node_set (hmap_remove h (k, c)) = hmap_node_set h - {(k, c)}"
    using hmap_bag.invar_remove [OF wf assms(2)] hmap_bag.nodes_removed [OF wf assms(2)] by simp_all
  have "c \<notin> snd ` (hmap_node_set h - {(k, c)})"
    using hmap_bag.removed_notin [OF wf assms(2)] r(2) by simp
  then have cs: "chains (hmap_remove h (k, c)) = chains h - {c}"
    using r(2) by (auto simp: chains_def)
  then show ?thesis using assms(1) r by (auto simp: rules_ok_def intro: inj_on_subset)
qed

text \<open>The rules of a chain are in no other chain.\<close>

lemma rules_of_minus_chain:
  assumes "rules_ok m h" and "c \<in> chains h"
  shows "\<Union> (set ` (chains h - {c})) = rules_of h - set c"
proof -
  have "set d \<inter> set c = {}" if d: "d \<in> chains h" "d \<noteq> c" for d
  proof (rule ccontr)
    assume "set d \<inter> set c \<noteq> {}"
    then obtain r where r: "r \<in> set d" "r \<in> set c" by blast
    obtain k where k: "chain_ok m k c" using chain_in [OF assms] .
    obtain l where l: "chain_ok m l d" using chain_in [OF assms(1) d(1)] .
    have "chain_flow c = chain_flow d" using chain_rmatch [OF k r(2)] chain_rmatch [OF l r(1)] by simp
    then show False using assms d by (auto simp: rules_ok_def dest: inj_onD)
  qed
  then show ?thesis unfolding rules_of_def by blast
qed

lemma chain_insert_set:
  assumes "sorted_wrt (\<lambda>a b. priority b < priority a) c" and "chain_insert new c = (old, c')"
  shows "set c' = insert new (set c - {r. priority r = priority new}) \<and>
    sorted_wrt (\<lambda>a b. priority b < priority a) c' \<and>
    (case old of None \<Rightarrow> \<forall>r \<in> set c. priority r \<noteq> priority new
     | Some r \<Rightarrow> r \<in> set c \<and> priority r = priority new)"
  using assms
proof (induction c arbitrary: old c')
  case (Cons rule rs)
  consider "priority new = priority rule" | "priority new > priority rule" | "priority new < priority rule" "rs = []"
    | next' rs' where "priority new < priority rule" "rs = next' # rs'"
    by (cases rs; cases "priority new" "priority rule" rule: linorder_cases) auto
  then show ?case
  proof cases
    case 1
    then show ?thesis using Cons.prems by (auto split: option.splits) (metis less_irrefl)
  next
    case 2
    then have "old = None" "c' = new # rule # rs" using Cons.prems(2) by (auto simp: less_imp_le split: if_splits)
    moreover have lt: "\<forall>x \<in> set rs. priority x < priority new"
      using 2 Cons.prems(1) by (auto intro: less_trans)
    then have "\<forall>x \<in> set rs. priority x \<noteq> priority new" by (metis less_irrefl)
    ultimately show ?thesis using 2 Cons.prems(1) lt by auto
  next
    case 3
    then have "old = None" "c' = [rule, new]" using Cons.prems(2) by (auto simp: not_le [symmetric] split: if_splits)
    then show ?thesis using 3 by auto
  next
    case 4
    obtain old1 rs1 where r: "chain_insert new rs = (old1, rs1)" by (cases "chain_insert new rs")
    have "priority next' < priority rule" using Cons.prems(1) 4(2) by simp
    then have "old = old1" "c' = rule # rs1"
      using Cons.prems(2) 4(1) r unfolding 4(2) by (auto simp: not_le [symmetric] split: if_splits)
    moreover have "set rs1 = insert new (set rs - {r. priority r = priority new})"
      "sorted_wrt (\<lambda>a b. priority b < priority a) rs1"
      "case old1 of None \<Rightarrow> \<forall>r \<in> set rs. priority r \<noteq> priority new | Some r \<Rightarrow> r \<in> set rs \<and> priority r = priority new"
      using Cons.IH [OF _ r] Cons.prems(1) by simp_all
    ultimately show ?thesis using Cons.prems(1) 4(1) by (auto split: option.splits)
  qed
qed simp

section \<open>Lookup in one table\<close>

lemma flow_matches_iff:
  "flow_matches f r \<longleftrightarrow> (\<forall>i < FLOW_U32S. miniflow_expand (mflow (rmatch r)) ! i AND miniflow_expand (mmask (rmatch r)) ! i =
     f ! i AND miniflow_expand (mmask (rmatch r)) ! i)"
  by (simp add: flow_matches_def minimask_expand_def flow_equal_except_iff)

text \<open>Two rules with one mask that match the same packet have the same values.\<close>

lemma flow_matches_same_flow:
  assumes "rule_wf r" and "rule_wf s" and "mmask (rmatch r) = mmask (rmatch s)"
    and "flow_matches f r" and "flow_matches f s"
  shows "mflow (rmatch r) = mflow (rmatch s)"
proof -
  have "miniflow_expand (mflow (rmatch r)) ! i = miniflow_expand (mflow (rmatch s)) ! i" if i: "i < FLOW_U32S" for i
  proof -
    have "miniflow_expand (mflow (rmatch r)) ! i = f ! i AND miniflow_expand (mmask (rmatch r)) ! i"
      "miniflow_expand (mflow (rmatch s)) ! i = f ! i AND miniflow_expand (mmask (rmatch s)) ! i"
      using assms i by (auto simp: rule_wf_def flow_matches_iff minimask_expand_def)
    then show ?thesis using assms(3) by simp
  qed
  then show ?thesis
    using assms(1,2) by (intro miniflow_eqI) (auto simp: rule_wf_def miniflow_expand_nth)
qed

lemma flow_matches_hash:
  assumes "rule_wf r" and "flow_matches f r"
  shows "rule_hash r = ucast (flow_hash_in_minimask f (mmask (rmatch r)) 0)"
  using assms hash_in_minimask_expand [of "mflow (rmatch r)" "mmask (rmatch r)" 0] hash_in_minimask_cong
  by (simp add: rule_hash_def rule_wf_def flow_matches_def minimask_expand_def)

lemma chain_matches: "chain_ok m k c \<Longrightarrow> r \<in> set c \<Longrightarrow> flow_matches f r \<longleftrightarrow> flow_matches f (hd c)"
  using chain_rmatch [of m k c r] by (simp add: flow_matches_def)

lemma find_match_find:
  assumes "rules_ok (tmask t) (rules t)" and "miniflow_wf (tmask t)" and "flow_wf f"
  shows "find_match t f = map_option hd (List.find (\<lambda>c. flow_matches f (hd c))
    (HMAP_FOR_EACH_WITH_HASH (rules t) (ucast (flow_hash_in_minimask f (tmask t) 0))))"
proof -
  have wf: "hmap_wf (rules t)" using assms(1) by (simp add: rules_ok_def)
  have "miniflow_equal_flow_in_minimask (chain_flow c) f (tmask t) \<longleftrightarrow> flow_matches f (hd c)"
    if "c \<in> set (HMAP_FOR_EACH_WITH_HASH (rules t) k)" for c k
  proof -
    have "c \<in> chains (rules t)" using that hmap_bag.set_with_hash [OF wf] by (force simp: chains_def)
    then obtain l where l: "chain_ok (tmask t) l c" using chain_in [OF assms(1)] by blast
    have "rule_wf (hd c)" "mmask (rmatch (hd c)) = tmask t" using chain_okD [OF l chain_ok_hd [OF l]] by simp_all
    then show ?thesis
      using equal_flow_in_minimask_iff [of "chain_flow c" f "tmask t"] assms(2,3)
      by (simp add: rule_wf_def flow_matches_def minimask_expand_def)
  qed
  then show ?thesis
    unfolding find_match_def Let_def by (intro arg_cong [where f = "map_option hd"] find_cong)
qed

lemma find_match_Some:
  assumes "rules_ok (tmask t) (rules t)" and "miniflow_wf (tmask t)" and "flow_wf f"
    and "find_match t f = Some r"
  shows "r \<in> rules_of (rules t)" and "flow_matches f r"
    and "\<And>s. s \<in> rules_of (rules t) \<Longrightarrow> flow_matches f s \<Longrightarrow> priority s \<le> priority r"
proof -
  have wf: "hmap_wf (rules t)" using assms(1) by (simp add: rules_ok_def)
  obtain c where c: "c \<in> set (HMAP_FOR_EACH_WITH_HASH (rules t) (ucast (flow_hash_in_minimask f (tmask t) 0)))"
    "flow_matches f (hd c)" "r = hd c"
    using assms(4) find_match_find [OF assms(1-3)] find_Some_iff_first by fastforce
  then have ch: "c \<in> chains (rules t)" using hmap_bag.set_with_hash [OF wf] by (force simp: chains_def)
  then obtain k where k: "chain_ok (tmask t) k c" using chain_in [OF assms(1)] by blast
  show "r \<in> rules_of (rules t)" using ch chain_ok_hd [OF k] c(3) by (auto simp: rules_of_def)
  show "flow_matches f r" using c by simp
  fix s assume s: "s \<in> rules_of (rules t)" "flow_matches f s"
  then obtain d where d: "d \<in> chains (rules t)" "s \<in> set d" by (auto simp: rules_of_def)
  then obtain l where l: "chain_ok (tmask t) l d" using chain_in [OF assms(1)] by blast
  have "mflow (rmatch s) = mflow (rmatch r)"
    using chain_okD [OF l d(2)] chain_okD [OF k chain_ok_hd [OF k]] c s(2)
    by (intro flow_matches_same_flow) simp_all
  then have "chain_flow d = chain_flow c" using chain_rmatch [OF l d(2)] c(3) by simp
  then have "d = c" using assms(1) d(1) ch by (auto simp: rules_ok_def dest: inj_onD)
  then show "priority s \<le> priority r" using chain_hd_max [OF k] d(2) c(3) by simp
qed

lemma find_match_None:
  assumes "rules_ok (tmask t) (rules t)" and "miniflow_wf (tmask t)" and "flow_wf f"
    and "find_match t f = None" and "s \<in> rules_of (rules t)"
  shows "\<not> flow_matches f s"
proof
  assume m: "flow_matches f s"
  have wf: "hmap_wf (rules t)" using assms(1) by (simp add: rules_ok_def)
  obtain d where d: "d \<in> chains (rules t)" "s \<in> set d" using assms(5) by (auto simp: rules_of_def)
  then obtain l where l: "(l, d) \<in> hmap_node_set (rules t)" "chain_ok (tmask t) l d"
    using chain_in [OF assms(1)] by blast
  have "l = ucast (flow_hash_in_minimask f (tmask t) 0)"
    using chain_okD [OF l(2) d(2)] flow_matches_hash [of s f] m by simp
  then have "d \<in> set (HMAP_FOR_EACH_WITH_HASH (rules t) (ucast (flow_hash_in_minimask f (tmask t) 0)))"
    using l(1) hmap_bag.set_with_hash [OF wf] by simp
  moreover have "flow_matches f (hd d)" using chain_matches [OF l(2) d(2)] m by simp
  ultimately show False
    using assms(4) find_match_find [OF assms(1-3)] by (auto simp: find_None_iff)
qed

text \<open>A lookup in a table reads only the bits of the packet that the table's mask selects.\<close>

lemma find_match_cong:
  assumes "rules_ok (tmask t) (rules t)" and "miniflow_wf (tmask t)" and "flow_wf f" and "flow_wf g"
    and "flow_equal_except f g (miniflow_expand (tmask t))"
  shows "find_match t f = find_match t g"
proof -
  have wf: "hmap_wf (rules t)" using assms(1) by (simp add: rules_ok_def)
  have "flow_matches f (hd c) \<longleftrightarrow> flow_matches g (hd c)" if "c \<in> set (HMAP_FOR_EACH_WITH_HASH (rules t) k)" for c k
  proof -
    have "c \<in> chains (rules t)" using that hmap_bag.set_with_hash [OF wf] by (force simp: chains_def)
    then obtain l where l: "chain_ok (tmask t) l c" using chain_in [OF assms(1)] by blast
    have "mmask (rmatch (hd c)) = tmask t" using chain_okD [OF l chain_ok_hd [OF l]] by simp
    then show ?thesis using assms(5) by (simp add: flow_matches_iff flow_equal_except_iff)
  qed
  then show ?thesis
    unfolding find_match_find [OF assms(1-3)] find_match_find [OF assms(1,2,4)]
      hash_in_minimask_cong [OF assms(5,2)]
    by (intro arg_cong [where f = "map_option hd"] find_cong)
qed

section \<open>Insertion into and removal from one table\<close>

lemma chain_ok_insert:
  assumes "chain_ok m k c" and "rule_wf new" and "mmask (rmatch new) = m" and "mflow (rmatch new) = chain_flow c"
    and "rhash new = rule_hash new" and "chain_insert new c = (old, c')"
  shows "chain_ok m k c' \<and> chain_flow c' = chain_flow c"
proof -
  have eq: "rmatch new = rmatch (hd c)"
    using assms(3,4) chain_okD(2) [OF assms(1) chain_ok_hd [OF assms(1)]] by simp
  have c: "set c' = insert new (set c - {r. priority r = priority new})"
    "sorted_wrt (\<lambda>a b. priority b < priority a) c'"
    using chain_insert_set [OF _ assms(6)] assms(1) by (simp_all add: chain_ok_def)
  have "rhash new = k" "rule_hash new = k"
    using assms(5) eq chain_okD(4) [OF assms(1) chain_ok_hd [OF assms(1)]] by (simp_all add: rule_hash_def)
  then have r: "rmatch r = rmatch (hd c) \<and> rule_wf r \<and> rhash r = k \<and> rule_hash r = k" if "r \<in> set c'" for r
    using that c(1) assms(2) eq chain_okD [OF assms(1)] chain_rmatch [OF assms(1)] by auto
  have "c' \<noteq> []" using c(1) by auto
  moreover from this have "chain_flow c' = chain_flow c" using r [of "hd c'"] by simp
  moreover have "mmask (rmatch (hd c)) = m" using eq assms(3) by simp
  ultimately show ?thesis unfolding chain_ok_def using c(2) r by blast
qed

lemma same_rule_in_chain:
  assumes "rules_ok m h" and "c \<in> chains h" and "mmask (rmatch new) = m"
    and "chain_flow c = mflow (rmatch new)" and "s \<in> rules_of h"
  shows "same_rule s new \<longleftrightarrow> s \<in> set c \<and> priority s = priority new"
proof
  assume sn: "same_rule s new"
  obtain d where d: "s \<in> set d" "d \<in> chains h" using assms(5) by (auto simp: rules_of_def)
  obtain l where "chain_ok m l d" using chain_in [OF assms(1) d(2)] .
  then have "chain_flow d = chain_flow c" using chain_rmatch [OF _ d(1)] sn assms(4) by (simp add: same_rule_def)
  then have "d = c" using assms(1,2) d(2) by (auto simp: rules_ok_def dest: inj_onD)
  then show "s \<in> set c \<and> priority s = priority new" using d sn by (simp add: same_rule_def)
next
  assume sc: "s \<in> set c \<and> priority s = priority new"
  obtain k where k: "chain_ok m k c" using chain_in [OF assms(1,2)] .
  have "rmatch s = rmatch (hd c)" using chain_rmatch [OF k] sc by blast
  moreover have "mmask (rmatch (hd c)) = m" using chain_okD(2) [OF k chain_ok_hd [OF k]] .
  ultimately show "same_rule s new" using sc assms(3,4) by (simp add: same_rule_def)
qed

text \<open>What \<^verbatim>\<open>insert_rule\<close> does to the rules of its table: the new rule takes the place of the same rule.\<close>

abbreviation inserted :: "chain hmap \<Rightarrow> cls_rule \<Rightarrow> cls_rule option \<Rightarrow> chain hmap \<Rightarrow> bool" where
  "inserted h new old h' \<equiv>
     rules_of h' = insert new (rules_of h - {r. same_rule r new}) \<and>
     (case old of None \<Rightarrow> \<forall>r \<in> rules_of h. \<not> same_rule r new
      | Some r \<Rightarrow> r \<in> rules_of h \<and> same_rule r new)"

lemma insert_into_chain:
  assumes "rules_ok m h" and "rule_wf new" and "mmask (rmatch new) = m" and "rhash new = rule_hash new"
    and "new \<notin> rules_of h" and "(k, c) \<in> hmap_node_set h" and "chain_flow c = mflow (rmatch new)"
    and "chain_insert new c = (old, c')"
  shows "rules_ok m (hmap_replace h (k, c) c') \<and> inserted h new old (hmap_replace h (k, c) c')"
proof -
  have c: "c \<in> chains h" using assms(6) by (force simp: chains_def)
  have k: "chain_ok m k c" using assms(1,6) by (auto simp: rules_ok_def)
  have set: "set c' = insert new (set c - {r. priority r = priority new})"
    and old: "case old of None \<Rightarrow> \<forall>r \<in> set c. priority r \<noteq> priority new
       | Some r \<Rightarrow> r \<in> set c \<and> priority r = priority new"
    using chain_insert_set [OF _ assms(8)] k by (simp_all add: chain_ok_def)
  have ok: "chain_ok m k c'" "chain_flow c' = chain_flow c"
    using chain_ok_insert [OF k assms(2,3) assms(7) [symmetric] assms(4,8)] by simp_all
  have "c' \<noteq> c" using set assms(5) c by (auto simp: rules_of_def)
  from rules_replace_chain [OF assms(1,6) ok this]
  have ro: "rules_ok m (hmap_replace h (k, c) c')" "chains (hmap_replace h (k, c) c') = insert c' (chains h - {c})"
    by simp_all
  note same = same_rule_in_chain [OF assms(1) c assms(3,7)]
  have sub: "set c \<subseteq> rules_of h" using c by (auto simp: rules_of_def)
  have "rules_of (hmap_replace h (k, c) c') = set c' \<union> (rules_of h - set c)"
    using rules_of_minus_chain [OF assms(1) c] by (simp add: rules_of_def ro(2))
  then have "rules_of (hmap_replace h (k, c) c') = insert new (rules_of h - {r. same_rule r new})"
    using set same sub by blast
  then show ?thesis using old same sub ro(1) by (auto split: option.splits)
qed

lemma insert_rules_correct:
  assumes "rules_ok (tmask t) (rules t)" and "rule_wf new" and "mmask (rmatch new) = tmask t"
    and "rhash new = rule_hash new" and "new \<notin> rules_of (rules t)"
    and op: "insert_into_rules t new = (old, rules')"
  shows "rules_ok (tmask t) rules' \<and> inserted (rules t) new old rules'"
proof -
  have hash: "rhash new = ucast (miniflow_hash_in_minimask (mflow (rmatch new)) (tmask t) 0)"
    using assms(3,4) by (simp add: rule_hash_def)
  have wf: "miniflow_wf (mflow (rmatch new))" using assms(2) by (simp add: rule_wf_def)
  note fe = find_equal_correct [OF assms(1) wf, folded hash]
  show ?thesis
  proof (cases "find_equal t (mflow (rmatch new)) (rhash new)")
    case None
    then have none: "\<forall>c \<in> chains (rules t). chain_flow c \<noteq> mflow (rmatch new)" using fe by force
    have "chain_ok (tmask t) (rhash new) [new]" using assms(2-4) by (simp add: chain_ok_def)
    from rules_insert_chain [OF assms(1) this] none
    have "rules_ok (tmask t) rules'" "rules_of rules' = rules_of (rules t) \<union> {new}"
      using op None by (simp_all add: insert_into_rules_def)
    moreover have "\<not> same_rule r new" if "r \<in> rules_of (rules t)" for r
    proof -
      obtain c where c: "c \<in> chains (rules t)" "r \<in> set c" using \<open>r \<in> _\<close> by (auto simp: rules_of_def)
      obtain k where "chain_ok (tmask t) k c" using chain_in [OF assms(1) c(1)] .
      then show ?thesis using chain_rmatch [OF _ c(2)] none c(1) by (auto simp: same_rule_def)
    qed
    ultimately show ?thesis using op None by (auto simp: insert_into_rules_def)
  next
    case (Some c)
    then have c: "c \<in> chains (rules t)" "chain_flow c = mflow (rmatch new)" using fe by simp_all
    obtain k where k: "(k, c) \<in> hmap_node_set (rules t)" "chain_ok (tmask t) k c"
      using chain_in [OF assms(1) c(1)] .
    obtain c' where c': "chain_insert new c = (old, c')" and r: "rules' = hmap_replace (rules t) (k, c) c'"
      using op Some chain_okD(3) [OF k(2) chain_ok_hd [OF k(2)]]
      by (auto simp: insert_into_rules_def split: prod.splits)
    show ?thesis unfolding r by (rule insert_into_chain [OF assms(1-5) k(1) c(2) c'])
  qed
qed

text \<open>What \<^verbatim>\<open>classifier_remove\<close> does to the rules of the table.\<close>

lemma chain_ok_shorter:
  assumes "chain_ok m k c" and "set c' \<subseteq> set c" and "sorted_wrt (\<lambda>a b. priority b < priority a) c'" and "c' \<noteq> []"
  shows "chain_ok m k c' \<and> chain_flow c' = chain_flow c"
proof -
  have "hd c' \<in> set c" using assms(2,4) by auto
  then have "chain_flow c' = chain_flow c" using chain_rmatch [OF assms(1), of "hd c'"] by simp
  then show ?thesis using assms by (auto simp: chain_ok_def)
qed

lemma remove_rules_correct:
  assumes "rules_ok (tmask t) (rules t)" and "rule \<in> rules_of (rules t)"
  shows "\<exists>c. find_equal t (mflow (rmatch rule)) (rhash rule) = Some c \<and>
    (let rules' = (if hd c \<noteq> rule then hmap_replace (rules t) (rhash rule, c) (remove1 rule c)
                   else if tl c = [] then hmap_remove (rules t) (rhash rule, c)
                   else hmap_replace (rules t) (rhash rule, c) (tl c))
     in rules_ok (tmask t) rules' \<and> rules_of rules' = rules_of (rules t) - {rule})"
proof -
  obtain c where c: "c \<in> chains (rules t)" "rule \<in> set c" using assms(2) by (auto simp: rules_of_def)
  obtain k where k: "(k, c) \<in> hmap_node_set (rules t)" "chain_ok (tmask t) k c"
    using chain_in [OF assms(1) c(1)] .
  note r = chain_okD [OF k(2) c(2)]
  have hash: "rhash rule = ucast (miniflow_hash_in_minimask (mflow (rmatch rule)) (tmask t) 0)"
    using r by (simp add: rule_hash_def)
  have "find_equal t (mflow (rmatch rule)) (rhash rule) = Some c"
    using find_equal_correct [OF assms(1), of "mflow (rmatch rule)" c, folded hash] c chain_rmatch [OF k(2) c(2)] r(1)
    by (simp add: rule_wf_def)
  moreover define rules' where "rules' = (if hd c \<noteq> rule then hmap_replace (rules t) (rhash rule, c) (remove1 rule c)
                   else if tl c = [] then hmap_remove (rules t) (rhash rule, c)
                   else hmap_replace (rules t) (rhash rule, c) (tl c))"
  have sorted: "sorted_wrt (\<lambda>a b. priority b < priority a) c" and ne: "c \<noteq> []"
    using k(2) by (simp_all add: chain_ok_def)
  have dist: "distinct c" using sorted by (induction c) auto
  have rest: "rules_ok (tmask t) (hmap_replace (rules t) (k, c) c') \<and>
      rules_of (hmap_replace (rules t) (k, c) c') = rules_of (rules t) - {rule}"
    if "c' \<noteq> []" "set c' = set c - {rule}" "sorted_wrt (\<lambda>a b. priority b < priority a) c'" for c'
  proof -
    have ok: "chain_ok (tmask t) k c'" "chain_flow c' = chain_flow c"
      using chain_ok_shorter [OF k(2) _ that(3,1)] that(2) by auto
    have "c' \<noteq> c" using that(2) c(2) by auto
    from rules_replace_chain [OF assms(1) k(1) ok this] show ?thesis
      using rules_of_minus_chain [OF assms(1) c(1)] that(2) c by (auto simp: rules_of_def)
  qed
  have "rules_ok (tmask t) rules' \<and> rules_of rules' = rules_of (rules t) - {rule}"
  proof (cases "remove1 rule c = []")
    case True
    then have "c = [rule]" using c(2) by (cases c) (auto split: if_splits)
    then show ?thesis
      using rules_remove_chain [OF assms(1) k(1)] rules_of_minus_chain [OF assms(1) c(1)] r(3)
      by (simp add: rules'_def rules_of_def)
  next
    case False
    have "rules' = hmap_replace (rules t) (k, c) (remove1 rule c)"
      using False ne r(3) by (cases c) (auto simp: rules'_def)
    then show ?thesis using rest [OF False] dist sorted by (simp add: sorted_wrt_remove1)
  qed
  ultimately show ?thesis unfolding rules'_def Let_def by blast
qed

section \<open>The highest priority of a table\<close>

lemma unat_add_1: "unat (n :: u32) + 1 < 2 ^ 32 \<Longrightarrow> unat (n + 1) = unat n + 1"
  by (simp add: unat_word_ariths)

lemma unat_minus_1: "(n :: u32) \<noteq> 0 \<Longrightarrow> unat (n - 1) = unat n - 1"
  by (simp add: unat_minus_one)

lemma max_ok_insert:
  assumes "max_ok R prio cnt" and "finite R" and "r \<notin> R" and "card R + 1 < 2 ^ 32"
  shows "priority r = prio \<Longrightarrow> max_ok (insert r R) prio (cnt + 1)"
    and "priority r > prio \<Longrightarrow> max_ok (insert r R) (priority r) 1"
    and "priority r < prio \<Longrightarrow> max_ok (insert r R) prio cnt"
proof -
  have le: "\<forall>s \<in> R. priority s \<le> prio" and n: "unat cnt = card {s \<in> R. priority s = prio}"
    using assms(1) by (simp_all add: max_ok_def)
  have "card {s \<in> R. priority s = prio} \<le> card R" using assms(2) by (intro card_mono) auto
  then have n1: "unat (cnt + 1) = unat cnt + 1" using assms(4) n by (intro unat_add_1) simp
  show "max_ok (insert r R) prio (cnt + 1)" if r: "priority r = prio"
  proof -
    have "{s \<in> insert r R. priority s = prio} = insert r {s \<in> R. priority s = prio}" using r by auto
    then have "card {s \<in> insert r R. priority s = prio} = unat (cnt + 1)" using assms(2,3) n n1 by simp
    moreover from this n1 have "cnt + 1 \<noteq> 0" by auto
    ultimately show ?thesis using le r by (simp add: max_ok_def)
  qed
  show "max_ok (insert r R) (priority r) 1" if r: "priority r > prio"
  proof -
    have "{s \<in> insert r R. priority s = priority r} = {r}" using r le by fastforce
    then show ?thesis using le r by (auto simp: max_ok_def intro: order_trans less_imp_le)
  qed
  show "max_ok (insert r R) prio cnt" if r: "priority r < prio"
  proof -
    have "{s \<in> insert r R. priority s = prio} = {s \<in> R. priority s = prio}" using r by auto
    moreover have "R \<noteq> {}" using r assms(1) by (auto simp: max_ok_def)
    ultimately show ?thesis using assms(1) r by (auto simp: max_ok_def)
  qed
qed

lemma max_ok_replace:
  assumes "max_ok R prio cnt" and "finite R" and "old \<in> R" and "new \<notin> R" and "priority new = priority old"
  shows "max_ok (insert new (R - {old})) prio cnt"
proof (cases "priority old = prio")
  case True
  then have "{s \<in> insert new (R - {old}). priority s = prio} = insert new ({s \<in> R. priority s = prio} - {old})"
    using assms(5) by auto
  moreover have "card \<dots> = card {s \<in> R. priority s = prio}"
    using True assms(2-4) card_Suc_Diff1 [of "{s \<in> R. priority s = prio}" old] by simp
  ultimately have "card {s \<in> insert new (R - {old}). priority s = prio} = unat cnt"
    using assms(1) by (simp add: max_ok_def)
  then show ?thesis using assms(1,3,5) by (auto simp: max_ok_def)
next
  case False
  then have "{s \<in> insert new (R - {old}). priority s = prio} = {s \<in> R. priority s = prio}"
    using assms(5) by auto
  then show ?thesis using assms(1,3,5) by (auto simp: max_ok_def)
qed

lemma max_ok_remove:
  assumes "max_ok R prio cnt" and "finite R" and "r \<in> R"
  shows "priority r \<noteq> prio \<Longrightarrow> max_ok (R - {r}) prio cnt"
    and "priority r = prio \<Longrightarrow> cnt - 1 \<noteq> 0 \<Longrightarrow> max_ok (R - {r}) prio (cnt - 1)"
proof -
  have cnt: "cnt \<noteq> 0" and n: "unat cnt = card {s \<in> R. priority s = prio}"
    using assms(1,3) by (auto simp: max_ok_def)
  have ne: "R - {r} \<noteq> {}" if "card {s \<in> R - {r}. priority s = prio} = unat c" "c \<noteq> 0" for c :: u32
  proof
    assume "R - {r} = {}"
    then have e: "{s \<in> R - {r}. priority s = prio} = {}" by blast
    have "unat c = 0" using that(1) unfolding e by simp
    then show False using that(2) by (simp add: unat_eq_zero)
  qed
  show "max_ok (R - {r}) prio cnt" if r: "priority r \<noteq> prio"
  proof -
    have "{s \<in> R - {r}. priority s = prio} = {s \<in> R. priority s = prio}" using r by auto
    then have "card {s \<in> R - {r}. priority s = prio} = unat cnt" using n by simp
    with ne [OF this cnt] assms(1) cnt show ?thesis by (simp add: max_ok_def)
  qed
  show "max_ok (R - {r}) prio (cnt - 1)" if r: "priority r = prio" and c: "cnt - 1 \<noteq> 0"
  proof -
    have "{s \<in> R - {r}. priority s = prio} = {s \<in> R. priority s = prio} - {r}" by auto
    then have "card {s \<in> R - {r}. priority s = prio} = unat (cnt - 1)"
      using assms(2,3) r n unat_minus_1 [OF cnt] by simp
    with ne [OF this c] assms(1) c show ?thesis by (simp add: max_ok_def)
  qed
qed

lemma recount_max_heads:
  assumes "distinct (map hd cs)" and "length cs < 2 ^ 32" and "foldl recount_max (0, 0) cs = (prio, cnt)"
  shows "max_ok (hd ` set cs) prio cnt"
  using assms
proof (induction cs arbitrary: prio cnt rule: rev_induct)
  case Nil
  then show ?case by (simp add: max_ok_def)
next
  case (snoc c cs)
  obtain prio' cnt' where f: "foldl recount_max (0, 0) cs = (prio', cnt')" by fastforce
  have IH: "max_ok (hd ` set cs) prio' cnt'" using snoc.IH [OF _ _ f] snoc.prems by simp
  have c: "hd c \<notin> hd ` set cs" using snoc.prems(1) by auto
  have "card (hd ` set cs) \<le> length cs" by (metis card_length length_map set_map)
  then have card: "card (hd ` set cs) + 1 < 2 ^ 32" using snoc.prems(2) by simp
  have step: "recount_max (prio', cnt') c = (prio, cnt)" using snoc.prems(3) f by simp
  note ins = max_ok_insert [OF IH _ c card, simplified]
  show ?case
  proof (cases "priority (hd c)" prio' rule: linorder_cases)
    case less
    then have "prio = prio'" "cnt = cnt'" using step by (auto simp: recount_max_def split: if_splits)
    then show ?thesis using ins(3) less by simp
  next
    case equal
    then show ?thesis using ins(1) step by (simp add: recount_max_def)
  next
    case greater
    then have "prio = priority (hd c)" "cnt = 1" using step by (simp_all add: recount_max_def)
    then show ?thesis using ins(2) greater by simp
  qed
qed

lemma chain_hd_rule:
  assumes "rules_ok m h" and "c \<in> chains h"
  shows "hd c \<in> rules_of h"
proof -
  obtain k where "chain_ok m k c" using chain_in [OF assms] .
  then show ?thesis using chain_ok_hd assms(2) by (auto simp: rules_of_def)
qed

text \<open>Only the first rule of a chain can have the highest priority of the table.\<close>

lemma max_ok_heads:
  assumes "rules_ok m h" and "max_ok (hd ` chains h) prio cnt"
  shows "max_ok (rules_of h) prio cnt"
proof -
  have hd_max: "\<exists>c \<in> chains h. r \<in> set c \<and> priority r \<le> priority (hd c) \<and> (priority r = priority (hd c) \<longrightarrow> r = hd c)"
    if r: "r \<in> rules_of h" for r
  proof -
    obtain c where c: "c \<in> chains h" "r \<in> set c" using r by (auto simp: rules_of_def)
    obtain k where k: "chain_ok m k c" using chain_in [OF assms(1) c(1)] .
    then have "sorted_wrt (\<lambda>a b. priority b < priority a) c" by (simp add: chain_ok_def)
    then have "priority r = priority (hd c) \<longrightarrow> r = hd c" using c(2) by (cases c) auto
    then show ?thesis using c chain_hd_max [OF k c(2)] by blast
  qed
  note hds = chain_hd_rule [OF assms(1)]
  have le: "priority r \<le> prio" if r: "r \<in> rules_of h" for r
  proof -
    obtain c where "c \<in> chains h" "priority r \<le> priority (hd c)" using hd_max [OF r] by blast
    moreover from this have "priority (hd c) \<le> prio" using assms(2) by (simp add: max_ok_def)
    ultimately show ?thesis by simp
  qed
  have "{r \<in> rules_of h. priority r = prio} = {r \<in> hd ` chains h. priority r = prio}"
  proof (intro equalityI subsetI)
    fix r assume r: "r \<in> {r \<in> rules_of h. priority r = prio}"
    then obtain c where c: "c \<in> chains h" "priority r \<le> priority (hd c)" "priority r = priority (hd c) \<longrightarrow> r = hd c"
      using hd_max by blast
    have "priority (hd c) \<le> prio" using assms(2) c(1) by (auto simp: max_ok_def)
    then show "r \<in> {r \<in> hd ` chains h. priority r = prio}" using r c by auto
  qed (use hds in auto)
  moreover have "rules_of h = {} \<longleftrightarrow> hd ` chains h = {}" using hd_max hds by blast
  ultimately show ?thesis using assms(2) le by (simp add: max_ok_def)
qed

lemma recount_max_rules:
  assumes "rules_ok m h" and "card (rules_of h) < 2 ^ 32"
    and "foldl recount_max (0, 0) (HMAP_FOR_EACH h) = (prio, cnt)"
  shows "max_ok (rules_of h) prio cnt"
proof (rule max_ok_heads [OF assms(1)])
  have wf: "hmap_wf h" using assms(1) by (simp add: rules_ok_def)
  have cs: "set (HMAP_FOR_EACH h) = chains h"
    by (simp add: HMAP_FOR_EACH_eq [OF wf] chains_def hmap_node_set_def)
  have "inj_on chain_flow (chains h)" using assms(1) by (simp add: rules_ok_def)
  then have "inj_on hd (chains h)" by (auto simp: inj_on_def)
  then have d: "distinct (map hd (HMAP_FOR_EACH h))"
    using wf by (simp add: distinct_map cs) (simp add: HMAP_FOR_EACH_eq [OF wf] hmap_wf_def)
  have "hd ` chains h \<subseteq> rules_of h" using chain_hd_rule [OF assms(1)] by blast
  then have "card (hd ` chains h) \<le> card (rules_of h)" by (intro card_mono) simp_all
  then have "length (HMAP_FOR_EACH h) < 2 ^ 32"
    using assms(2) distinct_card [OF d] by (simp add: cs)
  then show "max_ok (hd ` chains h) prio cnt"
    using recount_max_heads [OF d _ assms(3)] by (simp add: cs)
qed

end
