(* ===== verification/Classifier_Inv.thy ===== *)
theory Classifier_Inv
  imports Classifier
begin

text \<open>
  The classifier as a whole: the invariant of its tables, that insertion, replacement and removal
  keep it and implement the corresponding operations on a set of rules, and that lookup,
  exact search and the overlap check compute what their comments say of that set.
\<close>

section \<open>The invariant\<close>

definition cls_rules :: "classifier \<Rightarrow> cls_rule set" where
  "cls_rules cls = (\<Union>t \<in> set (tables_priority cls). rules_of (rules (table_at cls t)))"

abbreviation table_max :: "classifier \<Rightarrow> nat \<Rightarrow> u32" where
  "table_max cls t \<equiv> max_priority (table_at cls t)"

definition tables_ok :: "classifier \<Rightarrow> bool" where
  "tables_ok cls \<longleftrightarrow>
     hmap_wf (tables cls) \<and> distinct (tables_priority cls) \<and>
     snd ` hmap_node_set (tables cls) = set (tables_priority cls) \<and>
     dom (heap cls) = set (tables_priority cls) \<and>
     (\<forall>t \<in> set (tables_priority cls). t < heap_next cls) \<and>
     (\<forall>(k, t) \<in> hmap_node_set (tables cls). k = ucast (minimask_hash (tmask (table_at cls t)) 0)) \<and>
     (\<forall>t \<in> set (tables_priority cls). table_ok (table_at cls t)) \<and>
     inj_on (\<lambda>t. tmask (table_at cls t)) (set (tables_priority cls)) \<and>
     descending (table_max cls) (tables_priority cls)"

text \<open>The counters; no table is empty.\<close>

definition counts_ok :: "classifier \<Rightarrow> bool" where
  "counts_ok cls \<longleftrightarrow>
     (\<forall>t \<in> set (tables_priority cls). rules_of (rules (table_at cls t)) \<noteq> {} \<and>
        n_table_rules (table_at cls t) = int (card (rules_of (rules (table_at cls t))))) \<and>
     n_rules cls = int (card (cls_rules cls))"

definition classifier_inv :: "classifier \<Rightarrow> bool" where
  "classifier_inv cls \<longleftrightarrow> tables_ok cls \<and> counts_ok cls"

section \<open>Tables\<close>

lemma table_ok_of: "tables_ok cls \<Longrightarrow> t \<in> set (tables_priority cls) \<Longrightarrow> table_ok (table_at cls t)"
  by (simp add: tables_ok_def)

lemma heap_of: "tables_ok cls \<Longrightarrow> t \<in> set (tables_priority cls) \<Longrightarrow> heap cls t = Some (table_at cls t)"
  unfolding tables_ok_def table_at_def by (metis domD option.sel)

lemma table_rule:
  assumes "table_ok T" and "r \<in> rules_of (rules T)"
  shows "rule_wf r" and "mmask (rmatch r) = tmask T"
proof -
  have ok: "rules_ok (tmask T) (rules T)" using assms(1) by (simp add: table_ok_def)
  obtain c where c: "c \<in> chains (rules T)" "r \<in> set c" using assms(2) by (auto simp: rules_of_def)
  obtain k where "chain_ok (tmask T) k c" using chain_in [OF ok c(1)] .
  then show "rule_wf r" "mmask (rmatch r) = tmask T" using chain_okD c(2) by simp_all
qed

text \<open>A rule is in the one table that has its mask.\<close>

lemma rule_table:
  assumes "tables_ok cls" and "r \<in> cls_rules cls"
    and "t \<in> set (tables_priority cls)" and "tmask (table_at cls t) = mmask (rmatch r)"
  shows "r \<in> rules_of (rules (table_at cls t))"
proof -
  obtain u where u: "u \<in> set (tables_priority cls)" "r \<in> rules_of (rules (table_at cls u))"
    using assms(2) by (auto simp: cls_rules_def)
  have "tmask (table_at cls u) = tmask (table_at cls t)"
    using table_rule(2) [OF table_ok_of [OF assms(1) u(1)] u(2)] assms(4) by simp
  then have "u = t" using assms(1,3) u(1) by (auto simp: tables_ok_def dest: inj_onD)
  then show ?thesis using u(2) by simp
qed

interpretation table_search: keyed_hash_bag hmap_wf hmap_node_set hmap_init hmap_insert hmap_remove
  HMAP_FOR_EACH_WITH_HASH HMAP_FOR_EACH_IN_BUCKET hmap_count "\<lambda>t. tmask (table_at cls t)"
  "\<lambda>m. ucast (minimask_hash m 0)" for cls
  by unfold_locales

lemma find_table_correct:
  assumes "tables_ok cls" and "miniflow_wf m"
  shows "find_table cls m = Some t \<longleftrightarrow> t \<in> set (tables_priority cls) \<and> tmask (table_at cls t) = m"
proof -
  let ?ts = "HMAP_FOR_EACH_IN_BUCKET (tables cls) (ucast (minimask_hash m 0))"
  have wf: "hmap_wf (tables cls)" using assms(1) by (simp add: tables_ok_def)
  have "minimask_equal m (tmask (table_at cls u)) \<longleftrightarrow> tmask (table_at cls u) = m" if u: "u \<in> set ?ts" for u
  proof -
    have "u \<in> snd ` hmap_node_set (tables cls)" using u hmap_bag.in_bucket_nodes [OF wf] by blast
    then have "table_ok (table_at cls u)" using assms(1) by (auto simp: tables_ok_def)
    then show ?thesis using assms(2) by (auto simp: table_ok_def minimask_equal_iff)
  qed
  then have "find_table cls m = List.find (\<lambda>u. tmask (table_at cls u) = m) ?ts"
    unfolding find_table_def by (rule find_cong)
  moreover have "\<forall>(k, u) \<in> hmap_node_set (tables cls). k = ucast (minimask_hash (tmask (table_at cls u)) 0)"
    "inj_on (\<lambda>u. tmask (table_at cls u)) (snd ` hmap_node_set (tables cls))"
    using assms(1) by (simp_all add: tables_ok_def)
  ultimately show ?thesis
    using table_search.find_in_bucket [OF wf, of cls m t] assms(1) by (simp add: tables_ok_def)
qed

lemma find_table_None:
  assumes "tables_ok cls" and "miniflow_wf m" and "find_table cls m = None"
  shows "\<forall>t \<in> set (tables_priority cls). tmask (table_at cls t) \<noteq> m"
  using find_table_correct [OF assms(1,2)] assms(3) by force

text \<open>Changing one table and the order of the list.\<close>

lemma tables_ok_update:
  assumes "tables_ok cls" and "t \<in> set (tables_priority cls)" and "table_ok T"
    and "tmask T = tmask (table_at cls t)" and "mset tp = mset (tables_priority cls)"
    and "descending (\<lambda>u. if u = t then max_priority T else table_max cls u) tp"
    and "cls' = cls\<lparr>n_rules := n, tables_priority := tp, heap := (heap cls)(t \<mapsto> T)\<rparr>"
  shows "tables_ok cls'"
proof -
  have at: "table_at cls' u = (if u = t then T else table_at cls u)" for u
    by (simp add: assms(7) table_at_def)
  have set: "set tp = set (tables_priority cls)" using assms(5) by (rule mset_eq_setD)
  have mask: "tmask (table_at cls' u) = tmask (table_at cls u)" for u by (simp add: at assms(4))
  have "distinct tp" using assms(1,5) mset_eq_imp_distinct_iff by (auto simp: tables_ok_def)
  moreover have "dom (heap cls') = set tp" using assms(1,2) set by (auto simp: assms(7) tables_ok_def)
  moreover have "descending (table_max cls') tp"
    using assms(6) by (simp add: at if_distrib cong: if_cong)
  moreover have "\<forall>u \<in> set tp. table_ok (table_at cls' u)" using assms(1,3) set by (simp add: at tables_ok_def)
  moreover have "tables_priority cls' = tp" "tables cls' = tables cls" "heap_next cls' = heap_next cls"
    by (simp_all add: assms(7))
  ultimately show ?thesis using assms(1) unfolding tables_ok_def mask by (simp add: set)
qed

lemma insert_table_correct:
  assumes "tables_ok cls" and "miniflow_wf m" and "\<forall>t \<in> set (tables_priority cls). tmask (table_at cls t) \<noteq> m"
    and "insert_table cls m = (cls', t)"
  shows "tables_ok cls'" and "t \<notin> set (tables_priority cls)" and "tables_priority cls' = tables_priority cls @ [t]"
    and "u \<noteq> t \<Longrightarrow> table_at cls' u = table_at cls u" and "n_rules cls' = n_rules cls"
    and "tmask (table_at cls' t) = m" and "n_table_rules (table_at cls' t) = 0" and "rules_of (rules (table_at cls' t)) = {}"
proof -
  have t: "t = heap_next cls" using assms(4) by (simp add: insert_table_def Let_def)
  show nt: "t \<notin> set (tables_priority cls)" using assms(1) by (auto simp: t tables_ok_def)
  define T where "T = \<lparr>thash = ucast (minimask_hash m 0), rules = hmap_init, tmask = m,
                   n_table_rules = 0, max_priority = 0, max_count = 0\<rparr>"
  have cls': "cls' = cls\<lparr>heap := (heap cls)(t \<mapsto> T), heap_next := t + 1,
              tables := hmap_insert (tables cls) t (ucast (minimask_hash m 0)),
              tables_priority := tables_priority cls @ [t]\<rparr>"
    using assms(2,4) by (simp add: insert_table_def Let_def T_def minimask_clone_def miniflow_clone_eq t)
  have at: "table_at cls' u = (if u = t then T else table_at cls u)" for u
    by (simp add: cls' table_at_def)
  show tp: "tables_priority cls' = tables_priority cls @ [t]" by (simp add: cls')
  show "u \<noteq> t \<Longrightarrow> table_at cls' u = table_at cls u" "n_rules cls' = n_rules cls"
    "tmask (table_at cls' t) = m" "n_table_rules (table_at cls' t) = 0"
    by (simp_all add: at T_def) (simp add: cls')
  show empty: "rules_of (rules (table_at cls' t)) = {}"
    by (simp add: at T_def rules_of_def chains_def hmap_bag.nodes_empty)
  have "table_ok T"
    using assms(2)
    by (simp add: table_ok_def T_def rules_ok_def max_ok_def rules_of_def chains_def
        hmap_bag.invar_empty hmap_bag.nodes_empty)
  have wf: "hmap_wf (tables cls)" and sn: "snd ` hmap_node_set (tables cls) = set (tables_priority cls)"
    using assms(1) by (simp_all add: tables_ok_def)
  have h: "hmap_wf (tables cls')"
    "hmap_node_set (tables cls') = insert (ucast (minimask_hash m 0), t) (hmap_node_set (tables cls))"
    using hmap_bag.invar_insert [OF wf] hmap_bag.nodes_insert [OF wf] nt sn by (simp_all add: cls')
  have "u \<noteq> t" if "(k, u) \<in> hmap_node_set (tables cls)" for k u
    using that nt sn by (metis image_eqI snd_conv)
  then have "\<forall>(k, u) \<in> hmap_node_set (tables cls'). k = ucast (minimask_hash (tmask (table_at cls' u)) 0)"
    using assms(1) h(2) by (auto simp: tables_ok_def at T_def)
  moreover have "descending (table_max cls') (tables_priority cls @ [t])"
    using assms(1) nt
    by (intro descending_insert [of "table_max cls" "tables_priority cls" "[]" t 0])
      (simp_all add: tables_ok_def at T_def)
  moreover have "inj_on (\<lambda>u. tmask (table_at cls' u)) (set (tables_priority cls @ [t]))"
    using assms(1,3) nt by (auto simp: tables_ok_def at T_def inj_on_def)
  moreover have "\<forall>u \<in> set (tables_priority cls @ [t]). u < heap_next cls'"
    using assms(1) by (auto simp: tables_ok_def cls' t less_Suc_eq)
  moreover have "dom (heap cls') = set (tables_priority cls @ [t])"
    using assms(1) by (auto simp: tables_ok_def cls')
  moreover have "\<forall>u \<in> set (tables_priority cls @ [t]). table_ok (table_at cls' u)"
    using assms(1) nt \<open>table_ok T\<close> by (simp add: tables_ok_def at)
  moreover have "distinct (tables_priority cls @ [t])" using assms(1) nt by (simp add: tables_ok_def)
  ultimately show "tables_ok cls'" using h sn unfolding tables_ok_def tp by simp
qed

section \<open>The list of tables by priority\<close>

lemma split_at:
  assumes "t \<in> set xs"
  shows "xs = takeWhile (\<lambda>u. u \<noteq> t) xs @ t # tl (dropWhile (\<lambda>u. u \<noteq> t) xs)"
  using assms by (induction xs) auto

lemma move_table_forward_correct:
  assumes "t \<in> set tp" and "distinct tp" and "descending f tp" and "\<And>u. u \<noteq> t \<Longrightarrow> g u = f u" and "f t \<le> g t"
  shows "mset (move_table_forward g t tp) = mset tp \<and> descending g (move_table_forward g t tp)"
proof -
  define pre where "pre = takeWhile (\<lambda>u. u \<noteq> t) tp"
  define post where "post = tl (dropWhile (\<lambda>u. u \<noteq> t) tp)"
  have split: "tp = pre @ t # post" unfolding pre_def post_def by (rule split_at [OF assms(1)])
  have nt: "t \<notin> set pre" "t \<notin> set post" using assms(2) by (auto simp: split)
  define d where "d = rev (dropWhile (\<lambda>i. \<not> g t \<le> f i) (rev pre))"
  define k where "k = rev (takeWhile (\<lambda>i. \<not> g t \<le> f i) (rev pre))"
  have "u \<in> set (rev pre) \<Longrightarrow> (\<not> g t \<le> g u) = (\<not> g t \<le> f u)" for u
    using nt(1) assms(4) [of u] by (cases "u = t") auto
  then have dk: "dropWhile (\<lambda>u. \<not> g t \<le> g u) (rev pre) = rev d" "takeWhile (\<lambda>u. \<not> g t \<le> g u) (rev pre) = rev k"
    unfolding d_def k_def by (auto intro: dropWhile_cong takeWhile_cong)
  have mv: "move_table_forward g t tp = d @ t # k @ post"
    unfolding move_table_forward_def Let_def pre_def [symmetric] post_def [symmetric] dk by simp
  have pre: "d @ k = pre" unfolding d_def k_def by (metis rev_append rev_rev_ident takeWhile_dropWhile_id)
  have "mset (d @ t # k @ post) = mset tp" unfolding split pre [symmetric] by simp
  moreover have "descending g (d @ t # k @ post)"
    using descending_move_forward [OF assms(3) [unfolded split] assms(5), folded d_def k_def] nt assms(4)
    by (intro descending_insert [of f d "k @ post" t "g t"]) (auto simp flip: pre)
  ultimately show ?thesis by (simp add: mv)
qed

lemma move_table_back_correct:
  assumes "t \<in> set tp" and "distinct tp" and "descending f tp" and "\<And>u. u \<noteq> t \<Longrightarrow> g u = f u" and "g t \<le> f t"
  shows "mset (move_table_back g t tp) = mset tp \<and> descending g (move_table_back g t tp)"
proof -
  define pre where "pre = takeWhile (\<lambda>u. u \<noteq> t) tp"
  define post where "post = tl (dropWhile (\<lambda>u. u \<noteq> t) tp)"
  have split: "tp = pre @ t # post" unfolding pre_def post_def by (rule split_at [OF assms(1)])
  have nt: "t \<notin> set pre" "t \<notin> set post" using assms(2) by (auto simp: split)
  define d where "d = dropWhile (\<lambda>i. \<not> f i \<le> g t) post"
  define k where "k = takeWhile (\<lambda>i. \<not> f i \<le> g t) post"
  have "u \<in> set post \<Longrightarrow> (\<not> g u \<le> g t) = (\<not> f u \<le> g t)" for u
    using nt(2) assms(4) [of u] by (cases "u = t") auto
  then have dk: "dropWhile (\<lambda>u. \<not> g u \<le> g t) post = d" "takeWhile (\<lambda>u. \<not> g u \<le> g t) post = k"
    unfolding d_def k_def by (auto intro: dropWhile_cong takeWhile_cong)
  have mv: "move_table_back g t tp = pre @ k @ t # d"
    unfolding move_table_back_def Let_def pre_def [symmetric] post_def [symmetric] dk by simp
  have post: "k @ d = post" unfolding d_def k_def by simp
  have "mset (pre @ k @ t # d) = mset tp" unfolding split post [symmetric] by simp
  moreover have "descending g ((pre @ k) @ t # d)"
    using descending_move_back [OF assms(3) [unfolded split] assms(5), folded d_def k_def] nt assms(4)
    by (intro descending_insert [of f "pre @ k" d t "g t"]) (auto simp flip: post)
  ultimately show ?thesis by (simp add: mv)
qed

text \<open>The record an update of the list of tables leaves behind.\<close>

abbreviation reordered :: "classifier \<Rightarrow> nat \<Rightarrow> cls_table \<Rightarrow> classifier \<Rightarrow> nat list \<Rightarrow> u32 \<Rightarrow> u32 \<Rightarrow> bool" where
  "reordered cls t T cls' tp prio cnt \<equiv>
     cls' = cls\<lparr>tables_priority := tp, heap := (heap cls)(t \<mapsto> T\<lparr>max_priority := prio, max_count := cnt\<rparr>)\<rparr> \<and>
     mset tp = mset (tables_priority cls) \<and>
     descending (\<lambda>u. if u = t then prio else table_max cls u) tp"

lemma reordered_same:
  assumes "heap cls t = Some T" and "descending (table_max cls) (tables_priority cls)"
  shows "reordered cls t T (set_table cls t (T\<lparr>max_count := cnt\<rparr>)) (tables_priority cls) (max_priority T) cnt"
  using assms by (auto simp: set_table_def table_at_def elim!: sorted_wrt_mono_rel [rotated])

lemma update_after_insertion:
  assumes "heap cls t = Some T" and "t \<in> set (tables_priority cls)" and "distinct (tables_priority cls)"
    and "descending (table_max cls) (tables_priority cls)"
    and "max_ok R (max_priority T) (max_count T)" and "finite R" and "r \<notin> R" and "card R + 1 < 2 ^ 32"
  shows "\<exists>tp prio cnt. reordered cls t T (update_tables_after_insertion cls t (priority r)) tp prio cnt \<and>
    max_ok (insert r R) prio cnt"
proof -
  have at: "table_at cls t = T" using assms(1) by (simp add: table_at_def)
  note mo = max_ok_insert [OF assms(5-8)] and same = reordered_same [OF assms(1,4)]
  consider "priority r = max_priority T" | "priority r > max_priority T" | "priority r < max_priority T"
    by (rule linorder_cases)
  then show ?thesis
  proof cases
    case 1
    then have upd: "update_tables_after_insertion cls t (priority r) = set_table cls t (T\<lparr>max_count := max_count T + 1\<rparr>)"
      by (simp add: update_tables_after_insertion_def at)
    show ?thesis unfolding upd using mo(1) [OF 1] same by blast
  next
    case 3
    have "update_tables_after_insertion cls t (priority r) = cls"
      using 3 by (auto simp: update_tables_after_insertion_def at Let_def)
    also have "cls = set_table cls t (T\<lparr>max_count := max_count T\<rparr>)"
      using assms(1) by (simp add: set_table_def fun_upd_idem)
    finally have upd: "update_tables_after_insertion cls t (priority r) = set_table cls t (T\<lparr>max_count := max_count T\<rparr>)" .
    show ?thesis unfolding upd using mo(3) [OF 3] same by blast
  next
    case 2
    define cls1 where "cls1 = set_table cls t (T\<lparr>max_priority := priority r, max_count := 1\<rparr>)"
    have max1: "table_max cls1 i = (if i = t then priority r else table_max cls i)" for i
      by (simp add: cls1_def set_table_def table_at_def)
    define tp where "tp = move_table_forward (table_max cls1) t (tables_priority cls)"
    have upd: "update_tables_after_insertion cls t (priority r) = cls1\<lparr>tables_priority := tp\<rparr>"
      using 2 by (auto simp: update_tables_after_insertion_def Let_def at tp_def cls1_def set_table_def)
    have "mset tp = mset (tables_priority cls) \<and> descending (table_max cls1) tp"
      unfolding tp_def using 2 at
      by (intro move_table_forward_correct [OF assms(2-4)]) (auto simp: max1 less_imp_le)
    then have "reordered cls t T (cls1\<lparr>tables_priority := tp\<rparr>) tp (priority r) 1"
      unfolding max1 by (simp add: cls1_def set_table_def)
    then show ?thesis unfolding upd using mo(2) [OF 2] by blast
  qed
qed

lemma update_after_removal:
  assumes "heap cls t = Some T" and "t \<in> set (tables_priority cls)" and "distinct (tables_priority cls)"
    and "descending (table_max cls) (tables_priority cls)"
    and "max_ok R (max_priority T) (max_count T)" and "finite R" and "r \<in> R" and "card R < 2 ^ 32"
    and "rules_ok (tmask T) (rules T)" and "rules_of (rules T) = R - {r}"
  shows "\<exists>tp prio cnt. reordered cls t T (update_tables_after_removal cls t (priority r)) tp prio cnt \<and>
    max_ok (R - {r}) prio cnt"
proof -
  have at: "table_at cls t = T" using assms(1) by (simp add: table_at_def)
  note mo = max_ok_remove [OF assms(5-7)] and same = reordered_same [OF assms(1,4)]
  consider "priority r \<noteq> max_priority T" | "priority r = max_priority T" "max_count T - 1 \<noteq> 0"
    | "priority r = max_priority T" "max_count T - 1 = 0" by blast
  then show ?thesis
  proof cases
    case 1
    have "update_tables_after_removal cls t (priority r) = cls"
      using 1 by (simp add: update_tables_after_removal_def at)
    also have "cls = set_table cls t (T\<lparr>max_count := max_count T\<rparr>)"
      using assms(1) by (simp add: set_table_def fun_upd_idem)
    finally have upd: "update_tables_after_removal cls t (priority r) = set_table cls t (T\<lparr>max_count := max_count T\<rparr>)" .
    show ?thesis unfolding upd using mo(1) [OF 1] same by blast
  next
    case 2
    then have upd: "update_tables_after_removal cls t (priority r) = set_table cls t (T\<lparr>max_count := max_count T - 1\<rparr>)"
      by (simp add: update_tables_after_removal_def at Let_def)
    show ?thesis unfolding upd using mo(2) [OF 2] same by blast
  next
    case 3
    obtain prio cnt where f: "foldl recount_max (0, 0) (HMAP_FOR_EACH (rules T)) = (prio, cnt)" by fastforce
    have "card (R - {r}) < 2 ^ 32"
      using assms(6,8) card_mono [of R "R - {r}"] by (meson Diff_subset le_less_trans)
    then have m: "max_ok (R - {r}) prio cnt" using recount_max_rules [OF assms(9) _ f] assms(10) by simp
    have le: "prio \<le> max_priority T"
    proof (cases "R - {r} = {}")
      case False
      then have "cnt \<noteq> 0" "unat cnt = card {s \<in> R - {r}. priority s = prio}" using m by (simp_all add: max_ok_def)
      then have "{s \<in> R - {r}. priority s = prio} \<noteq> {}" by (metis card.empty unat_eq_zero)
      then show ?thesis using assms(5) by (auto simp: max_ok_def)
    qed (use m in \<open>simp add: max_ok_def\<close>)
    define cls1 where "cls1 = set_table cls t (T\<lparr>max_priority := prio, max_count := cnt\<rparr>)"
    have max1: "table_max cls1 i = (if i = t then prio else table_max cls i)" for i
      by (simp add: cls1_def set_table_def table_at_def)
    define tp where "tp = move_table_back (table_max cls1) t (tables_priority cls)"
    have upd: "update_tables_after_removal cls t (priority r) = cls1\<lparr>tables_priority := tp\<rparr>"
      using 3 f by (auto simp: update_tables_after_removal_def Let_def at tp_def cls1_def set_table_def)
    have "mset tp = mset (tables_priority cls) \<and> descending (table_max cls1) tp"
      unfolding tp_def using le at by (intro move_table_back_correct [OF assms(2-4)]) (auto simp: max1)
    then have "reordered cls t T (cls1\<lparr>tables_priority := tp\<rparr>) tp prio cnt"
      unfolding max1 by (simp add: cls1_def set_table_def)
    then show ?thesis unfolding upd using m by blast
  qed
qed

section \<open>Insertion\<close>

definition hashed :: "cls_rule \<Rightarrow> cls_rule" where
  "hashed r = r\<lparr>rhash := rule_hash r\<rparr>"

lemma hashed_simps [simp]:
  "rmatch (hashed r) = rmatch r" "priority (hashed r) = priority r" "addr (hashed r) = addr r"
  "rhash (hashed r) = rule_hash r" "rule_wf (hashed r) = rule_wf r" "rule_hash (hashed r) = rule_hash r"
  "same_rule s (hashed r) = same_rule s r"
  by (simp_all add: hashed_def rule_wf_def rule_hash_def same_rule_def)

text \<open>The table after its rules have changed, with its new highest priority and place in the list.\<close>

lemma insert_reordered:
  assumes "heap cls1 t = Some T1" and "t \<in> set (tables_priority cls1)" and "distinct (tables_priority cls1)"
    and "descending (table_max cls1) (tables_priority cls1)"
    and "rules_ok m h" and "max_ok (rules_of h) (max_priority T1) (max_count T1)"
    and "inserted h new old h'" and "new \<notin> rules_of h" and "card (rules_of h) + 1 < 2 ^ 32"
    and "cls' = (if old = None then update_tables_after_insertion cls1 t (priority new) else cls1)"
  shows "\<exists>tp prio cnt. reordered cls1 t T1 cls' tp prio cnt \<and> max_ok (rules_of h') prio cnt"
proof (cases old)
  case None
  then have R: "rules_of h' = insert new (rules_of h)" using assms(7) by auto
  show ?thesis
    unfolding R using update_after_insertion [OF assms(1-4,6) finite_rules_of assms(8,9)] assms(10) None by simp
next
  case (Some s)
  then have s: "s \<in> rules_of h" "same_rule s new" using assms(7) by auto
  have "x = s" if "x \<in> rules_of h" "same_rule x new" for x
    using rules_of_unique [OF assms(5) that(1) s(1)] that(2) s(2) by (simp add: same_rule_def)
  then have "rules_of h - {x. same_rule x new} = rules_of h - {s}" using s by blast
  with assms(7) have R: "rules_of h' = insert new (rules_of h - {s})" by simp
  have "max_ok (rules_of h') (max_priority T1) (max_count T1)"
    unfolding R using s assms(8) by (intro max_ok_replace [OF assms(6)]) (simp_all add: same_rule_def)
  moreover have e: "set_table cls1 t (T1\<lparr>max_count := max_count T1\<rparr>) = cls1"
    using assms(1) by (simp add: set_table_def fun_upd_idem)
  have "reordered cls1 t T1 cls1 (tables_priority cls1) (max_priority T1) (max_count T1)"
    by (rule reordered_same [OF assms(1,4), of "max_count T1", unfolded e])
  moreover have "cls' = cls1" using assms(10) Some by simp
  ultimately show ?thesis by blast
qed

lemma insert_rule_correct:
  assumes "tables_ok cls" and "t \<in> set (tables_priority cls)" and "rule_wf r"
    and "mmask (rmatch r) = tmask (table_at cls t)" and "hashed r \<notin> rules_of (rules (table_at cls t))"
    and "card (rules_of (rules (table_at cls t))) + 1 < 2 ^ 32" and "insert_rule cls t r = (cls', old)"
  shows "tables_ok cls' \<and> set (tables_priority cls') = set (tables_priority cls) \<and>
    (\<forall>u. u \<noteq> t \<longrightarrow> table_at cls' u = table_at cls u) \<and> n_rules cls' = n_rules cls \<and>
    n_table_rules (table_at cls' t) = n_table_rules (table_at cls t) \<and>
    inserted (rules (table_at cls t)) (hashed r) old (rules (table_at cls' t))"
proof -
  define T where "T = table_at cls t"
  have T: "heap cls t = Some T" "table_ok T" using heap_of table_ok_of assms(1,2) by (simp_all add: T_def)
  have ok: "rules_ok (tmask T) (rules T)" "max_ok (rules_of (rules T)) (max_priority T) (max_count T)"
    using T(2) by (simp_all add: table_ok_def)
  obtain old1 rules' where op: "insert_into_rules T (hashed r) = (old1, rules')" by fastforce
  have ins: "rules_ok (tmask T) rules'" "inserted (rules T) (hashed r) old1 rules'"
    using insert_rules_correct [OF ok(1) _ _ _ _ op] assms(3,4,5) by (simp_all add: T_def)
  define T1 where "T1 = T\<lparr>rules := rules'\<rparr>"
  define cls1 where "cls1 = set_table cls t T1"
  have eq: "cls' = (if old1 = None then update_tables_after_insertion cls1 t (priority (hashed r)) else cls1)"
    "old = old1"
    using assms(7) unfolding insert_rule_def Let_def T_def [symmetric] rule_hash_def [symmetric]
      hashed_def [symmetric] op cls1_def T1_def by (auto split: if_splits)
  have sel1: "heap cls1 t = Some T1" "tables_priority cls1 = tables_priority cls" "n_rules cls1 = n_rules cls"
    by (simp_all add: cls1_def set_table_def)
  have max1: "table_max cls1 u = table_max cls u" for u
    by (simp add: cls1_def set_table_def table_at_def T1_def T(1))
  have tp1: "distinct (tables_priority cls1)" "descending (table_max cls1) (tables_priority cls1)"
    using assms(1) unfolding tables_ok_def max1 sel1(2) by blast+
  have "max_ok (rules_of (rules T)) (max_priority T1) (max_count T1)" using ok(2) by (simp add: T1_def)
  from insert_reordered [OF sel1(1) _ tp1 ok(1) this ins(2) _ _ eq(1)] assms(2,5,6)
  obtain tp prio cnt where
    re: "cls' = cls1\<lparr>tables_priority := tp, heap := (heap cls1)(t \<mapsto> T1\<lparr>max_priority := prio, max_count := cnt\<rparr>)\<rparr>"
    and tp: "mset tp = mset (tables_priority cls)" and d2: "descending (\<lambda>u. if u = t then prio else table_max cls u) tp"
    and mx: "max_ok (rules_of rules') prio cnt"
    unfolding max1 sel1(2) T_def [symmetric] by blast
  define T2 where "T2 = T1\<lparr>max_priority := prio, max_count := cnt\<rparr>"
  have cls': "cls' = cls\<lparr>n_rules := n_rules cls, tables_priority := tp, heap := (heap cls)(t \<mapsto> T2)\<rparr>"
    using re by (simp add: cls1_def set_table_def T2_def)
  have "table_ok T2" using T(2) ins(1) mx by (simp add: table_ok_def T2_def T1_def)
  moreover have "max_priority T2 = prio" by (simp add: T2_def)
  then have "descending (\<lambda>u. if u = t then max_priority T2 else table_max cls u) tp" using d2 by (simp only:)
  ultimately have "tables_ok cls'"
    using tables_ok_update [OF assms(1,2) _ _ tp _ cls'] by (simp add: T2_def T1_def T_def)
  moreover have "table_at cls' u = (if u = t then T2 else table_at cls u)" for u by (simp add: cls' table_at_def)
  moreover have "tables_priority cls' = tp" "n_rules cls' = n_rules cls" by (simp_all add: cls')
  ultimately show ?thesis
    using ins(2) eq(2) mset_eq_setD [OF tp] unfolding T_def [symmetric] by (simp add: T2_def T1_def)
qed

lemma finite_cls_rules [simp]: "finite (cls_rules cls)"
  by (simp add: cls_rules_def)

lemma cls_rules_split:
  assumes "t \<in> set (tables_priority cls)"
  shows "cls_rules cls = rules_of (rules (table_at cls t)) \<union>
    (\<Union>u \<in> set (tables_priority cls) - {t}. rules_of (rules (table_at cls u)))"
  using assms by (auto simp: cls_rules_def)

lemma card_table_le:
  assumes "t \<in> set (tables_priority cls)"
  shows "card (rules_of (rules (table_at cls t))) \<le> card (cls_rules cls)"
  using cls_rules_split [OF assms] by (intro card_mono) auto

text \<open>Rules of other tables have other masks.\<close>

lemma other_table_not_same:
  assumes "tables_ok cls" and "t \<in> set (tables_priority cls)" and "mmask (rmatch r) = tmask (table_at cls t)"
    and "u \<in> set (tables_priority cls) - {t}" and "s \<in> rules_of (rules (table_at cls u))"
  shows "\<not> same_rule s r"
proof
  assume "same_rule s r"
  then have "tmask (table_at cls u) = tmask (table_at cls t)"
    using table_rule(2) [OF table_ok_of [OF assms(1)], of u s] assms(3-5) by (simp add: same_rule_def)
  then show False using assms(1,2,4) by (auto simp: tables_ok_def dest: inj_onD)
qed

text \<open>The first half of \<^verbatim>\<open>classifier_replace\<close>: a table for the mask, found or new.\<close>

lemma get_table_correct:
  assumes "classifier_inv cls" and "miniflow_wf m"
    and "(cls1, t) = (case find_table cls m of None \<Rightarrow> insert_table cls m | Some t \<Rightarrow> (cls, t))"
  shows "tables_ok cls1" and "t \<in> set (tables_priority cls1)" and "tmask (table_at cls1 t) = m"
    and "cls_rules cls1 = cls_rules cls" and "n_rules cls1 = n_rules cls"
    and "n_table_rules (table_at cls1 t) = int (card (rules_of (rules (table_at cls1 t))))"
    and "\<And>u. u \<in> set (tables_priority cls1) - {t} \<Longrightarrow> rules_of (rules (table_at cls1 u)) \<noteq> {} \<and>
        n_table_rules (table_at cls1 u) = int (card (rules_of (rules (table_at cls1 u))))"
proof -
  have ok: "tables_ok cls" and cnt: "counts_ok cls" using assms(1) by (simp_all add: classifier_inv_def)
  have "tables_ok cls1 \<and> t \<in> set (tables_priority cls1) \<and> tmask (table_at cls1 t) = m \<and>
     cls_rules cls1 = cls_rules cls \<and> n_rules cls1 = n_rules cls \<and>
     n_table_rules (table_at cls1 t) = int (card (rules_of (rules (table_at cls1 t)))) \<and>
     (\<forall>u \<in> set (tables_priority cls1) - {t}. rules_of (rules (table_at cls1 u)) \<noteq> {} \<and>
        n_table_rules (table_at cls1 u) = int (card (rules_of (rules (table_at cls1 u)))))"
  proof (cases "find_table cls m")
    case None
    then have ins: "insert_table cls m = (cls1, t)" using assms(3) by simp
    note it = insert_table_correct [OF ok assms(2) find_table_None [OF ok assms(2) None] ins]
    have eq: "rules_of (rules (table_at cls1 u)) = rules_of (rules (table_at cls u))"
      if "u \<in> set (tables_priority cls)" for u using that it(2,4) by metis
    have "cls_rules cls1 = cls_rules cls" using it(3,8) by (simp add: cls_rules_def eq)
    moreover have "rules_of (rules (table_at cls1 u)) \<noteq> {} \<and>
        n_table_rules (table_at cls1 u) = int (card (rules_of (rules (table_at cls1 u))))"
      if "u \<in> set (tables_priority cls1) - {t}" for u
      using that it(3,4) cnt by (auto simp: counts_ok_def)
    ultimately show ?thesis using it(1,3,5-8) by simp
  next
    case (Some t')
    then have "cls1 = cls" "t = t'" using assms(3) by simp_all
    moreover have "t' \<in> set (tables_priority cls) \<and> tmask (table_at cls t') = m"
      using find_table_correct [OF ok assms(2), of t'] Some by simp
    ultimately show ?thesis using ok cnt by (simp add: counts_ok_def)
  qed
  then show "tables_ok cls1" and "t \<in> set (tables_priority cls1)" and "tmask (table_at cls1 t) = m"
    and "cls_rules cls1 = cls_rules cls" and "n_rules cls1 = n_rules cls"
    and "n_table_rules (table_at cls1 t) = int (card (rules_of (rules (table_at cls1 t))))"
    and "\<And>u. u \<in> set (tables_priority cls1) - {t} \<Longrightarrow> rules_of (rules (table_at cls1 u)) \<noteq> {} \<and>
        n_table_rules (table_at cls1 u) = int (card (rules_of (rules (table_at cls1 u))))"
    by blast+
qed

text \<open>The counters a completed insertion leaves, from what happened to the rules of the table.\<close>

lemma replaced_card:
  assumes "finite R" and "r \<notin> R" and "old \<in> R" and "\<And>s. s \<in> R \<Longrightarrow> P s \<longleftrightarrow> s = old"
  shows "card (insert r (R - {s. P s})) = card R"
proof -
  have "R - {s. P s} = R - {old}" using assms(4) by blast
  then show ?thesis using assms(1-3) card_Suc_Diff1 [OF assms(1,3)] by simp
qed

lemma cls_rules_unique:
  assumes "tables_ok cls" and "r \<in> cls_rules cls" and "s \<in> cls_rules cls" and "same_rule r s"
  shows "r = s"
proof -
  obtain t where t: "t \<in> set (tables_priority cls)" "r \<in> rules_of (rules (table_at cls t))"
    using assms(2) by (auto simp: cls_rules_def)
  have "tmask (table_at cls t) = mmask (rmatch s)"
    using table_rule(2) [OF table_ok_of [OF assms(1) t(1)] t(2)] assms(4) by (simp add: same_rule_def)
  then have "s \<in> rules_of (rules (table_at cls t))" by (rule rule_table [OF assms(1,3) t(1)])
  moreover have "rules_ok (tmask (table_at cls t)) (rules (table_at cls t))"
    using table_ok_of [OF assms(1) t(1)] by (simp add: table_ok_def)
  ultimately show ?thesis using rules_of_unique t(2) assms(4) by (auto simp: same_rule_def)
qed

lemma tables_ok_counts [simp]:
  "tables_ok (cls\<lparr>n_rules := n\<rparr>) \<longleftrightarrow> tables_ok cls" "table_at (cls\<lparr>n_rules := n\<rparr>) u = table_at cls u"
  "cls_rules (cls\<lparr>n_rules := n\<rparr>) = cls_rules cls"
  by (simp_all add: tables_ok_def table_at_def cls_rules_def)

lemma tables_ok_set_count:
  assumes "tables_ok cls" and "t \<in> set (tables_priority cls)"
  shows "tables_ok (set_table cls t ((table_at cls t)\<lparr>n_table_rules := n\<rparr>))"
proof -
  have h: "heap cls t = Some (table_at cls t)" using heap_of assms by simp
  have at: "table_at (set_table cls t ((table_at cls t)\<lparr>n_table_rules := n\<rparr>)) u =
     (if u = t then (table_at cls t)\<lparr>n_table_rules := n\<rparr> else table_at cls u)" for u
    by (simp add: table_at_def set_table_def)
  have eq: "tmask (table_at (set_table cls t ((table_at cls t)\<lparr>n_table_rules := n\<rparr>)) u) = tmask (table_at cls u)"
    "table_max (set_table cls t ((table_at cls t)\<lparr>n_table_rules := n\<rparr>)) u = table_max cls u"
    "table_ok (table_at (set_table cls t ((table_at cls t)\<lparr>n_table_rules := n\<rparr>)) u) = table_ok (table_at cls u)" for u
    by (simp_all add: at table_ok_def)
  show ?thesis unfolding tables_ok_def eq using assms h
    by (auto simp: tables_ok_def set_table_def)
qed

text \<open>
  What an update that changes one table only leaves of the rules of the classifier and of the
  counters.
\<close>

lemma cls_rules_update:
  assumes "set (tables_priority cls') = set (tables_priority cls)" and "t \<in> set (tables_priority cls)"
    and "\<And>u. u \<noteq> t \<Longrightarrow> table_at cls' u = table_at cls u"
  shows "cls_rules cls' = rules_of (rules (table_at cls' t)) \<union> (\<Union>u \<in> set (tables_priority cls) - {t}. rules_of (rules (table_at cls u)))"
proof -
  have t: "t \<in> set (tables_priority cls')" using assms(1,2) by simp
  show ?thesis unfolding cls_rules_split [OF t] assms(1) using assms(3) by simp
qed

lemma replaced_rules:
  assumes "tables_ok cls" and "t \<in> set (tables_priority cls)" and "mmask (rmatch r) = tmask (table_at cls t)"
    and "inserted (rules (table_at cls t)) r old h'"
  shows "rules_of h' \<union> (\<Union>u \<in> set (tables_priority cls) - {t}. rules_of (rules (table_at cls u))) =
      insert r (cls_rules cls - {s. same_rule s r})"
    and "case old of None \<Rightarrow> \<forall>s \<in> cls_rules cls. \<not> same_rule s r | Some s \<Rightarrow> s \<in> cls_rules cls \<and> same_rule s r"
proof -
  note other = other_table_not_same [OF assms(1-3)]
  show "rules_of h' \<union> (\<Union>u \<in> set (tables_priority cls) - {t}. rules_of (rules (table_at cls u))) =
      insert r (cls_rules cls - {s. same_rule s r})"
    using assms(4) other unfolding cls_rules_split [OF assms(2)] by blast
  show "case old of None \<Rightarrow> \<forall>s \<in> cls_rules cls. \<not> same_rule s r | Some s \<Rightarrow> s \<in> cls_rules cls \<and> same_rule s r"
    using assms(4) other unfolding cls_rules_split [OF assms(2)] by (cases old) auto
qed

lemma replaced_counts:
  assumes "tables_ok cls" and "r \<notin> R" and "R \<subseteq> cls_rules cls"
    and "case old of None \<Rightarrow> \<forall>s \<in> R. \<not> same_rule s r | Some s \<Rightarrow> s \<in> R \<and> same_rule s r"
  shows "int (card (insert r (R - {s. same_rule s r}))) = (if old = None then int (card R) + 1 else int (card R))"
proof -
  have fin: "finite R" using assms(3) finite_subset finite_cls_rules by blast
  show ?thesis
  proof (cases old)
    case None
    then have "R - {s. same_rule s r} = R" using assms(4) by auto
    then show ?thesis using None fin assms(2) by simp
  next
    case (Some s)
    then have s: "s \<in> R" "same_rule s r" using assms(4) by simp_all
    have "same_rule u r \<longleftrightarrow> u = s" if "u \<in> R" for u
      using that s cls_rules_unique [OF assms(1), of u s] assms(3) by (auto simp: same_rule_def)
    then show ?thesis using replaced_card [OF fin assms(2) s(1)] Some by simp
  qed
qed

lemma classifier_replace_tables:
  assumes "classifier_inv cls" and "rule_wf r" and "\<forall>s \<in> cls_rules cls. addr s \<noteq> addr r"
    and "card (cls_rules cls) + 1 < 2 ^ 32" and "classifier_replace cls r = (cls', old)"
  obtains cls1 t where "tables_ok cls1" and "cls_rules cls1 = cls_rules cls" and "n_rules cls1 = n_rules cls"
    and "t \<in> set (tables_priority cls1)" and "mmask (rmatch r) = tmask (table_at cls1 t)"
    and "n_table_rules (table_at cls1 t) = int (card (rules_of (rules (table_at cls1 t))))"
    and "\<And>u. u \<in> set (tables_priority cls1) - {t} \<Longrightarrow> rules_of (rules (table_at cls1 u)) \<noteq> {} \<and>
        n_table_rules (table_at cls1 u) = int (card (rules_of (rules (table_at cls1 u))))"
    and "tables_ok cls'" and "set (tables_priority cls') = set (tables_priority cls1)"
    and "\<And>u. u \<noteq> t \<Longrightarrow> table_at cls' u = table_at cls1 u"
    and "n_rules cls' = n_rules cls + (if old = None then 1 else 0)"
    and "n_table_rules (table_at cls' t) = n_table_rules (table_at cls1 t) + (if old = None then 1 else 0)"
    and "inserted (rules (table_at cls1 t)) (hashed r) old (rules (table_at cls' t))"
proof -
  obtain cls1 t where 1: "(cls1, t) = (case find_table cls (mmask (rmatch r)) of
      None \<Rightarrow> insert_table cls (mmask (rmatch r)) | Some t \<Rightarrow> (cls, t))"
    by (metis surj_pair)
  obtain cls2 old2 where 2: "insert_rule cls1 t r = (cls2, old2)" by fastforce
  have wf: "miniflow_wf (mmask (rmatch r))" using assms(2) by (simp add: rule_wf_def)
  note g = get_table_correct [OF assms(1) wf 1]
  have sub: "rules_of (rules (table_at cls1 t)) \<subseteq> cls_rules cls"
    using g(2,4) by (auto simp: cls_rules_def)
  have new: "hashed r \<notin> rules_of (rules (table_at cls1 t))"
    using sub assms(3) hashed_simps(3) by blast
  have card: "card (rules_of (rules (table_at cls1 t))) + 1 < 2 ^ 32"
    using card_table_le [OF g(2)] g(4) assms(4) by simp
  note i = insert_rule_correct [OF g(1,2) assms(2) g(3) [symmetric] new card 2]
  have t2: "t \<in> set (tables_priority cls2)" "tables_ok cls2" using i g(2) by simp_all
  define cls3 where "cls3 = set_table cls2 t ((table_at cls2 t)\<lparr>n_table_rules := n_table_rules (table_at cls2 t) + 1\<rparr>)"
  have eq: "cls' = (if old2 = None then cls3\<lparr>n_rules := n_rules cls3 + 1\<rparr> else cls2)" "old = old2"
    using assms(5) unfolding classifier_replace_def Let_def 1 [symmetric] 
    by (auto simp: 2 cls3_def split: if_splits)
  have ok3: "tables_ok cls3" unfolding cls3_def by (rule tables_ok_set_count [OF t2(2,1)])
  have at3: "table_at cls3 u = (if u = t then (table_at cls2 t)\<lparr>n_table_rules := n_table_rules (table_at cls2 t) + 1\<rparr>
      else table_at cls2 u)" "tables_priority cls3 = tables_priority cls2" "n_rules cls3 = n_rules cls2" for u
    by (simp_all add: cls3_def table_at_def set_table_def)
  show ?thesis
  proof (rule that [of cls1 t])
    show "inserted (rules (table_at cls1 t)) (hashed r) old (rules (table_at cls' t))"
      using i by (simp add: eq at3)
  qed (use g i ok3 t2 in \<open>simp_all add: eq at3\<close>)
qed

lemma classifier_replace_correct:
  assumes "classifier_inv cls" and "rule_wf r" and "\<forall>s \<in> cls_rules cls. addr s \<noteq> addr r"
    and "card (cls_rules cls) + 1 < 2 ^ 32" and "classifier_replace cls r = (cls', old)"
  shows "classifier_inv cls' \<and> cls_rules cls' = insert (hashed r) (cls_rules cls - {s. same_rule s r}) \<and>
    (case old of None \<Rightarrow> \<forall>s \<in> cls_rules cls. \<not> same_rule s r | Some s \<Rightarrow> s \<in> cls_rules cls \<and> same_rule s r)"
proof -
  obtain cls1 t where c: "tables_ok cls1" "cls_rules cls1 = cls_rules cls" "n_rules cls1 = n_rules cls"
    "t \<in> set (tables_priority cls1)" "mmask (rmatch r) = tmask (table_at cls1 t)"
    "n_table_rules (table_at cls1 t) = int (card (rules_of (rules (table_at cls1 t))))"
    and other: "\<And>u. u \<in> set (tables_priority cls1) - {t} \<Longrightarrow> rules_of (rules (table_at cls1 u)) \<noteq> {} \<and>
        n_table_rules (table_at cls1 u) = int (card (rules_of (rules (table_at cls1 u))))"
    and ok: "tables_ok cls'" and tp: "set (tables_priority cls') = set (tables_priority cls1)"
    and at: "\<And>u. u \<noteq> t \<Longrightarrow> table_at cls' u = table_at cls1 u"
    and n: "n_rules cls' = n_rules cls + (if old = None then 1 else 0)"
      "n_table_rules (table_at cls' t) = n_table_rules (table_at cls1 t) + (if old = None then 1 else 0)"
    and ins: "inserted (rules (table_at cls1 t)) (hashed r) old (rules (table_at cls' t))"
    using classifier_replace_tables [OF assms] by blast
  have same: "same_rule s (hashed r) = same_rule s r" for s by simp
  have mask: "mmask (rmatch (hashed r)) = tmask (table_at cls1 t)" using c(5) by simp
  have rules': "cls_rules cls' = insert (hashed r) (cls_rules cls - {s. same_rule s r})"
    and old: "case old of None \<Rightarrow> \<forall>s \<in> cls_rules cls. \<not> same_rule s r | Some s \<Rightarrow> s \<in> cls_rules cls \<and> same_rule s r"
    using replaced_rules [OF c(1,4) mask ins] cls_rules_update [OF tp c(4) at] unfolding same c(2) by simp_all
  have sub: "rules_of (rules (table_at cls1 t)) \<subseteq> cls_rules cls1" using c(4) by (auto simp: cls_rules_def)
  have new: "hashed r \<notin> cls_rules cls1" using assms(3) c(2) by auto
  have new': "hashed r \<notin> rules_of (rules (table_at cls1 t))" using sub new by blast
  have nt: "n_table_rules (table_at cls' t) = int (card (rules_of (rules (table_at cls' t))))"
    using replaced_counts [OF c(1) new' sub, of old] ins n(2) c(6) by simp
  have nr: "n_rules cls' = int (card (cls_rules cls'))"
    using replaced_counts [OF c(1) new subset_refl, of old] old n(1) assms(1)
    unfolding c(2) rules' same by (simp add: classifier_inv_def counts_ok_def)
  have "counts_ok cls'" unfolding counts_ok_def tp
    using nt nr other at ins by (metis Diff_iff insert_not_empty singletonD)
  then show ?thesis using ok rules' old by (simp add: classifier_inv_def)
qed

section \<open>Removal\<close>

lemma destroy_table_correct:
  assumes "tables_ok cls" and "t \<in> set (tables_priority cls)" and "thash T = thash (table_at cls t)"
    and "cls' = destroy_table (set_table cls t T) t"
  shows "tables_ok cls'" and "set (tables_priority cls') = set (tables_priority cls) - {t}"
    and "u \<noteq> t \<Longrightarrow> table_at cls' u = table_at cls u" and "n_rules cls' = n_rules cls"
proof -
  have wf: "hmap_wf (tables cls)" and sn: "snd ` hmap_node_set (tables cls) = set (tables_priority cls)"
    and d: "distinct (tables_priority cls)" using assms(1) by (simp_all add: tables_ok_def)
  have th: "thash (table_at cls t) = ucast (minimask_hash (tmask (table_at cls t)) 0)"
    using table_ok_of [OF assms(1,2)] by (simp add: table_ok_def)
  have keys: "\<forall>(k, u) \<in> hmap_node_set (tables cls). k = ucast (minimask_hash (tmask (table_at cls u)) 0)"
    using assms(1) by (simp add: tables_ok_def)
  obtain k where "(k, t) \<in> hmap_node_set (tables cls)" using assms(2) sn by (metis (no_types, lifting) imageE prod.collapse)
  then have p: "(thash (table_at cls t), t) \<in> hmap_node_set (tables cls)" using keys th by auto
  have cls': "cls' = cls\<lparr>tables := hmap_remove (tables cls) (thash (table_at cls t), t),
         tables_priority := remove1 t (tables_priority cls), heap := (heap cls)(t := None)\<rparr>"
    using assms(3) by (simp add: assms(4) destroy_table_def set_table_def table_at_def)
  show at: "u \<noteq> t \<Longrightarrow> table_at cls' u = table_at cls u" for u by (simp add: cls' table_at_def)
  show set: "set (tables_priority cls') = set (tables_priority cls) - {t}" using d by (simp add: cls')
  show "n_rules cls' = n_rules cls" by (simp add: cls')
  have nodes: "hmap_node_set (tables cls') = hmap_node_set (tables cls) - {(thash (table_at cls t), t)}"
    using hmap_bag.nodes_removed [OF wf p] by (simp add: cls')
  have sn': "snd ` hmap_node_set (tables cls') = set (tables_priority cls) - {t}"
  proof -
    have "t \<notin> snd ` hmap_node_set (tables cls')" using hmap_bag.removed_notin [OF wf p] by (simp add: cls')
    then show ?thesis unfolding sn [symmetric] nodes by auto
  qed
  then have ne: "u \<noteq> t" if "(k, u) \<in> hmap_node_set (tables cls')" for k u
    using that by (metis Diff_iff image_eqI singletonI snd_conv)
  have "descending (table_max cls') (tables_priority cls')"
  proof -
    have "descending (table_max cls) (tables_priority cls')"
      using assms(1) by (simp add: tables_ok_def cls' sorted_wrt_remove1)
    then show ?thesis using set at by (auto elim!: sorted_wrt_mono_rel [rotated])
  qed
  moreover have "\<forall>(k, u) \<in> hmap_node_set (tables cls'). k = ucast (minimask_hash (tmask (table_at cls' u)) 0)"
    using keys ne at nodes by fastforce
  moreover have "hmap_wf (tables cls')" using hmap_bag.invar_remove [OF wf p] by (simp add: cls')
  moreover have "distinct (tables_priority cls')" using d by (simp add: cls')
  moreover have "dom (heap cls') = set (tables_priority cls')" using assms(1) unfolding set by (simp add: cls' tables_ok_def)
  moreover have "\<forall>u \<in> set (tables_priority cls'). u < heap_next cls'"
    using assms(1) unfolding set by (simp add: tables_ok_def cls')
  moreover have "inj_on (\<lambda>u. tmask (table_at cls' u)) (set (tables_priority cls'))"
    using assms(1) unfolding set by (auto simp: tables_ok_def at inj_on_def)
  moreover have "\<forall>u \<in> set (tables_priority cls'). table_ok (table_at cls' u)"
    using assms(1) unfolding set by (auto simp: tables_ok_def at)
  ultimately show "tables_ok cls'" using sn' set by (simp add: tables_ok_def)
qed

lemma shrink_table_correct:
  assumes "tables_ok cls" and "t \<in> set (tables_priority cls)" and "r \<in> rules_of (rules (table_at cls t))"
    and "card (rules_of (rules (table_at cls t))) < 2 ^ 32"
    and "rules_ok (tmask (table_at cls t)) rules'" and "rules_of rules' = rules_of (rules (table_at cls t)) - {r}"
    and "cls' = update_tables_after_removal
       (set_table cls t ((table_at cls t)\<lparr>rules := rules', n_table_rules := n\<rparr>)) t (priority r)"
  shows "tables_ok cls' \<and> set (tables_priority cls') = set (tables_priority cls) \<and>
    (\<forall>u. u \<noteq> t \<longrightarrow> table_at cls' u = table_at cls u) \<and> n_rules cls' = n_rules cls \<and>
    rules (table_at cls' t) = rules' \<and> n_table_rules (table_at cls' t) = n"
proof -
  define T where "T = table_at cls t"
  have T: "heap cls t = Some T" "table_ok T" using heap_of table_ok_of assms(1,2) by (simp_all add: T_def)
  define T1 where "T1 = T\<lparr>rules := rules', n_table_rules := n\<rparr>"
  define cls1 where "cls1 = set_table cls t T1"
  have sel1: "heap cls1 t = Some T1" "tables_priority cls1 = tables_priority cls"
    by (simp_all add: cls1_def set_table_def)
  have max1: "table_max cls1 u = table_max cls u" for u
    by (simp add: cls1_def set_table_def table_at_def T1_def T(1))
  have tp1: "distinct (tables_priority cls1)" "descending (table_max cls1) (tables_priority cls1)"
    using assms(1) unfolding tables_ok_def max1 sel1(2) by blast+
  have mx1: "max_ok (rules_of (rules T)) (max_priority T1) (max_count T1)"
    "rules_ok (tmask T1) (rules T1)" "rules_of (rules T1) = rules_of (rules T) - {r}"
    using T(2) assms(5,6) by (simp_all add: T1_def T_def table_ok_def)
  have t1: "t \<in> set (tables_priority cls1)" using assms(2) sel1(2) by simp
  have c: "cls' = update_tables_after_removal cls1 t (priority r)"
    using assms(7) by (simp add: cls1_def T1_def T_def)
  obtain tp prio cnt where
    re: "cls' = cls1\<lparr>tables_priority := tp, heap := (heap cls1)(t \<mapsto> T1\<lparr>max_priority := prio, max_count := cnt\<rparr>)\<rparr>"
    and tp: "mset tp = mset (tables_priority cls)" and d2: "descending (\<lambda>u. if u = t then prio else table_max cls u) tp"
    and mx: "max_ok (rules_of rules') prio cnt"
    using update_after_removal [OF sel1(1) t1 tp1 mx1(1) finite_rules_of assms(3) [folded T_def]
        assms(4) [folded T_def] mx1(2,3)]
    unfolding max1 sel1(2) assms(6) T_def [symmetric] c by blast
  define T2 where "T2 = T1\<lparr>max_priority := prio, max_count := cnt\<rparr>"
  have cls': "cls' = cls\<lparr>n_rules := n_rules cls, tables_priority := tp, heap := (heap cls)(t \<mapsto> T2)\<rparr>"
    using re by (simp add: cls1_def set_table_def T2_def)
  have "table_ok T2" using T(2) assms(5) mx by (simp add: table_ok_def T2_def T1_def T_def)
  moreover have "max_priority T2 = prio" by (simp add: T2_def)
  then have "descending (\<lambda>u. if u = t then max_priority T2 else table_max cls u) tp" using d2 by (simp only:)
  ultimately have "tables_ok cls'"
    using tables_ok_update [OF assms(1,2) _ _ tp _ cls'] by (simp add: T2_def T1_def T_def)
  moreover have "table_at cls' u = (if u = t then T2 else table_at cls u)" for u by (simp add: cls' table_at_def)
  moreover have "tables_priority cls' = tp" "n_rules cls' = n_rules cls" by (simp_all add: cls')
  ultimately show ?thesis using mset_eq_setD [OF tp] by (simp add: T2_def T1_def)
qed

lemma removed_counts:
  assumes "counts_ok cls" and "t \<in> set (tables_priority cls)" and "r \<in> rules_of (rules (table_at cls t))"
  shows "int (card (rules_of (rules (table_at cls t)) - {r})) = n_table_rules (table_at cls t) - 1"
    and "int (card (cls_rules cls - {r})) = n_rules cls - 1"
    and "n_table_rules (table_at cls t) - 1 = 0 \<longleftrightarrow> rules_of (rules (table_at cls t)) - {r} = {}"
proof -
  have r: "r \<in> cls_rules cls" using assms(2,3) by (auto simp: cls_rules_def)
  have n: "n_table_rules (table_at cls t) = int (card (rules_of (rules (table_at cls t))))"
    "n_rules cls = int (card (cls_rules cls))" using assms(1,2) by (simp_all add: counts_ok_def)
  show t: "int (card (rules_of (rules (table_at cls t)) - {r})) = n_table_rules (table_at cls t) - 1"
    using card_Suc_Diff1 [OF finite_rules_of assms(3)] n(1) by simp
  show "int (card (cls_rules cls - {r})) = n_rules cls - 1"
    using card_Suc_Diff1 [OF finite_cls_rules r] n(2) by simp
  show "n_table_rules (table_at cls t) - 1 = 0 \<longleftrightarrow> rules_of (rules (table_at cls t)) - {r} = {}"
    unfolding t [symmetric] of_nat_eq_0_iff by (simp only: card_0_eq finite_Diff finite_rules_of)
qed

lemma removed_inv:
  assumes "classifier_inv cls" and "t \<in> set (tables_priority cls)" and "r \<in> rules_of (rules (table_at cls t))"
    and "tables_ok cls2" and "\<And>u. u \<noteq> t \<Longrightarrow> table_at cls2 u = table_at cls u" and "n_rules cls2 = n_rules cls"
    and "set (tables_priority cls2) = set (tables_priority cls) - {t} \<and> rules_of (rules (table_at cls t)) - {r} = {} \<or>
      set (tables_priority cls2) = set (tables_priority cls) \<and> rules_of (rules (table_at cls t)) - {r} \<noteq> {} \<and>
      rules_of (rules (table_at cls2 t)) = rules_of (rules (table_at cls t)) - {r} \<and>
      n_table_rules (table_at cls2 t) = n_table_rules (table_at cls t) - 1"
    and "cls' = cls2\<lparr>n_rules := n_rules cls2 - 1\<rparr>"
  shows "classifier_inv cls' \<and> cls_rules cls' = cls_rules cls - {r}"
proof -
  have ok: "tables_ok cls" and cnt: "counts_ok cls" using assms(1) by (simp_all add: classifier_inv_def)
  note n = removed_counts [OF cnt assms(2,3)]
  have notin: "r \<notin> rules_of (rules (table_at cls u))" if u: "u \<in> set (tables_priority cls) - {t}" for u
    using other_table_not_same [OF ok assms(2) table_rule(2) [OF table_ok_of [OF ok assms(2)] assms(3)] u, of r]
    by (auto simp: same_rule_def)
  have eq: "rules_of (rules (table_at cls2 u)) = rules_of (rules (table_at cls u)) \<and>
      n_table_rules (table_at cls2 u) = n_table_rules (table_at cls u)" if "u \<in> set (tables_priority cls) - {t}" for u
    using assms(5) that by simp
  have rest: "(\<Union>u \<in> set (tables_priority cls) - {t}. rules_of (rules (table_at cls2 u))) =
      (\<Union>u \<in> set (tables_priority cls) - {t}. rules_of (rules (table_at cls u)) - {r})"
    using eq notin by simp
  have rules': "cls_rules cls2 = cls_rules cls - {r}"
    using assms(7) unfolding cls_rules_split [OF assms(2)]
  proof (elim disjE conjE)
    assume tp: "set (tables_priority cls2) = set (tables_priority cls) - {t}" "rules_of (rules (table_at cls t)) - {r} = {}"
    show "cls_rules cls2 = rules_of (rules (table_at cls t)) \<union>
        (\<Union>u \<in> set (tables_priority cls) - {t}. rules_of (rules (table_at cls u))) - {r}"
      unfolding cls_rules_def tp(1) rest using tp(2) notin by auto
  next
    assume tp: "set (tables_priority cls2) = set (tables_priority cls)"
      "rules_of (rules (table_at cls2 t)) = rules_of (rules (table_at cls t)) - {r}"
    then have t2: "t \<in> set (tables_priority cls2)" using assms(2) by simp
    show "cls_rules cls2 = rules_of (rules (table_at cls t)) \<union>
        (\<Union>u \<in> set (tables_priority cls) - {t}. rules_of (rules (table_at cls u))) - {r}"
      unfolding cls_rules_split [OF t2] tp rest by auto
  qed
  have "rules_of (rules (table_at cls2 u)) \<noteq> {} \<and>
      n_table_rules (table_at cls2 u) = int (card (rules_of (rules (table_at cls2 u))))"
    if u: "u \<in> set (tables_priority cls2)" for u
  proof (cases "u = t")
    case True
    then show ?thesis using u assms(7) n(1) by auto
  next
    case False
    then have "u \<in> set (tables_priority cls) - {t}" using u assms(7) by auto
    then show ?thesis using eq cnt by (simp add: counts_ok_def)
  qed
  then have "counts_ok cls'"
    using n(2) assms(6) by (simp add: counts_ok_def assms(8) rules')
  then show ?thesis using assms(4) rules' by (simp add: classifier_inv_def assms(8))
qed

lemma classifier_remove_correct:
  assumes "classifier_inv cls" and "r \<in> cls_rules cls" and "card (cls_rules cls) < 2 ^ 32"
  shows "\<exists>cls'. classifier_remove cls r = Some cls' \<and> classifier_inv cls' \<and> cls_rules cls' = cls_rules cls - {r}"
proof -
  have ok: "tables_ok cls" and cnt: "counts_ok cls" using assms(1) by (simp_all add: classifier_inv_def)
  obtain t where t: "t \<in> set (tables_priority cls)" and r: "r \<in> rules_of (rules (table_at cls t))"
    using assms(2) by (auto simp: cls_rules_def)
  define T where "T = table_at cls t"
  have T: "table_ok T" using table_ok_of [OF ok t] by (simp add: T_def)
  have mask: "mmask (rmatch r) = tmask T" using table_rule(2) [OF T] r by (simp add: T_def)
  have ft: "find_table cls (mmask (rmatch r)) = Some t"
    using find_table_correct [OF ok, of "tmask T" t] t T unfolding mask by (simp add: T_def table_ok_def)
  obtain c rules' where fe: "find_equal T (mflow (rmatch r)) (rhash r) = Some c"
    and rules': "rules' = (if hd c \<noteq> r then hmap_replace (rules T) (rhash r, c) (remove1 r c)
                   else if tl c = [] then hmap_remove (rules T) (rhash r, c)
                   else hmap_replace (rules T) (rhash r, c) (tl c))"
    and ro: "rules_ok (tmask T) rules'" "rules_of rules' = rules_of (rules T) - {r}"
    using remove_rules_correct [of T r] T r unfolding T_def [symmetric] table_ok_def Let_def by blast
  define n where "n = n_table_rules T - 1"
  define cls1 where "cls1 = set_table cls t (T\<lparr>rules := rules', n_table_rules := n\<rparr>)"
  define cls2 where "cls2 = (if n = 0 then destroy_table cls1 t else update_tables_after_removal cls1 t (priority r))"
  have rm: "classifier_remove cls r = Some (cls2\<lparr>n_rules := n_rules cls2 - 1\<rparr>)"
    unfolding classifier_remove_def ft option.case Let_def T_def [symmetric] fe rules' [symmetric]
      n_def [symmetric] cls1_def [symmetric] cls2_def [symmetric] ..
  have n0: "n = 0 \<longleftrightarrow> rules_of (rules T) - {r} = {}"
    using removed_counts(3) [OF cnt t r] by (simp add: n_def T_def)
  have card: "card (rules_of (rules (table_at cls t))) < 2 ^ 32" using card_table_le [OF t] assms(3) by linarith
  have "classifier_inv (cls2\<lparr>n_rules := n_rules cls2 - 1\<rparr>) \<and> cls_rules (cls2\<lparr>n_rules := n_rules cls2 - 1\<rparr>) = cls_rules cls - {r}"
  proof (cases "n = 0")
    case True
    then have "cls2 = destroy_table (set_table cls t (T\<lparr>rules := rules', n_table_rules := n\<rparr>)) t"
      by (simp add: cls2_def cls1_def)
    note d = destroy_table_correct [OF ok t _ this]
    show ?thesis
      by (rule removed_inv [OF assms(1) t r _ _ _ _ refl]) (use d n0 True in \<open>auto simp: T_def\<close>)
  next
    case False
    then have "cls2 = update_tables_after_removal
       (set_table cls t ((table_at cls t)\<lparr>rules := rules', n_table_rules := n\<rparr>)) t (priority r)"
      by (simp add: cls2_def cls1_def T_def)
    note s = shrink_table_correct [OF ok t r card ro [unfolded T_def] this]
    show ?thesis
      by (rule removed_inv [OF assms(1) t r _ _ _ _ refl]) (use s n0 False ro(2) in \<open>auto simp: T_def n_def\<close>)
  qed
  then show ?thesis using rm by blast
qed

end
