(* ===== verification/Classifier_Lookup.thy ===== *)
theory Classifier_Lookup
  imports Classifier_Inv
begin

text \<open>
  What \<^verbatim>\<open>lib/classifier.c\<close> finds: \<^verbatim>\<open>classifier_lookup\<close> returns a matching rule of the highest
  priority and, in \<^verbatim>\<open>wc\<close>, wildcards under which any other packet would get the same answer;
  \<^verbatim>\<open>classifier_find_rule_exactly\<close> and \<^verbatim>\<open>classifier_rule_overlaps\<close> decide what their comments say. All
  of it holds in every state that a sequence of insertions and removals reaches.
\<close>

section \<open>Lookup\<close>

definition rules_in :: "classifier \<Rightarrow> nat list \<Rightarrow> cls_rule set" where
  "rules_in cls ts = (\<Union>t \<in> set ts. rules_of (rules (table_at cls t)))"

lemma rules_in_simps [simp]:
  "rules_in cls [] = {}" "rules_in cls (t # ts) = rules_of (rules (table_at cls t)) \<union> rules_in cls ts"
  by (simp_all add: rules_in_def)

lemma rules_in_all: "rules_in cls (tables_priority cls) = cls_rules cls"
  by (simp add: rules_in_def cls_rules_def)

text \<open>The best match in a set of rules.\<close>

definition best_match :: "flow \<Rightarrow> cls_rule set \<Rightarrow> cls_rule option \<Rightarrow> bool" where
  "best_match f R res \<longleftrightarrow>
     (case res of
        None \<Rightarrow> \<forall>s \<in> R. \<not> flow_matches f s
      | Some r \<Rightarrow> r \<in> R \<and> flow_matches f r \<and> (\<forall>s \<in> R. flow_matches f s \<longrightarrow> priority s \<le> priority r))"

lemma table_facts:
  assumes "tables_ok cls" and "t \<in> set (tables_priority cls)"
  shows "rules_ok (tmask (table_at cls t)) (rules (table_at cls t))" and "miniflow_wf (tmask (table_at cls t))"
    and "\<And>r. r \<in> rules_of (rules (table_at cls t)) \<Longrightarrow> priority r \<le> table_max cls t"
  using table_ok_of [OF assms] by (simp_all add: table_ok_def max_ok_def)

lemma find_match_best:
  assumes "tables_ok cls" and "t \<in> set (tables_priority cls)" and "flow_wf f"
  shows "best_match f (rules_of (rules (table_at cls t))) (find_match (table_at cls t) f)"
proof (cases "find_match (table_at cls t) f")
  case None
  then show ?thesis
    using find_match_None [OF table_facts(1,2) [OF assms(1,2)] assms(3) None] by (simp add: best_match_def)
next
  case (Some r)
  then show ?thesis
    using find_match_Some [OF table_facts(1,2) [OF assms(1,2)] assms(3) Some] by (simp add: best_match_def)
qed

lemma low_tables:
  assumes "tables_ok cls" and "set ts \<subseteq> set (tables_priority cls)" and "\<forall>t \<in> set ts. table_max cls t \<le> p"
    and "s \<in> rules_in cls ts"
  shows "priority s \<le> p"
proof -
  obtain t where t: "t \<in> set ts" "s \<in> rules_of (rules (table_at cls t))" using assms(4) by (auto simp: rules_in_def)
  then have "priority s \<le> table_max cls t" using table_facts(3) [OF assms(1)] assms(2) by blast
  also have "\<dots> \<le> p" using assms(3) t(1) by simp
  finally show ?thesis .
qed

lemma best_match_skip:
  assumes "\<forall>s \<in> R. \<not> flow_matches f s" and "best_match f S res"
  shows "best_match f (R \<union> S) res"
  using assms by (cases res) (auto simp: best_match_def)

lemma best_match_join:
  assumes "best_match f R (Some best)" and "best_match f S res"
  shows "best_match f (R \<union> S)
     (Some (case res of Some r \<Rightarrow> if priority r > priority best then r else best | None \<Rightarrow> best))"
proof (cases res)
  case None
  then show ?thesis using assms by (auto simp: best_match_def)
next
  case (Some r)
  have "priority s \<le> max (priority r) (priority best)" if "s \<in> R \<union> S" "flow_matches f s" for s
    using that assms Some by (auto simp: best_match_def le_max_iff_disj)
  moreover have "max (priority r) (priority best) =
      priority (if priority r > priority best then r else best)" by simp
  ultimately show ?thesis using assms Some by (simp add: best_match_def)
qed

lemma lookup_continue_best:
  assumes "tables_ok cls" and "set ts \<subseteq> set (tables_priority cls)" and "descending (table_max cls) ts" and "flow_wf f"
    and "best_match f R (Some best)"
  shows "best_match f (R \<union> rules_in cls ts) (fst (lookup_continue cls f wc best ts))"
  using assms(2,3,5)
proof (induction ts arbitrary: R wc best)
  case Nil
  then show ?case by simp
next
  case (Cons t ts)
  have t: "t \<in> set (tables_priority cls)" using Cons.prems(1) by simp
  show ?case
  proof (cases "max_priority (table_at cls t) \<le> priority best")
    case True
    then have "\<forall>u \<in> set (t # ts). table_max cls u \<le> priority best" using Cons.prems(2) by auto
    then have "\<forall>s \<in> rules_in cls (t # ts). priority s \<le> priority best"
      using low_tables [OF assms(1) Cons.prems(1)] by blast
    then show ?thesis using True Cons.prems(3) by (auto simp: best_match_def Let_def)
  next
    case False
    define best' where "best' = (case find_match (table_at cls t) f of
                       Some r \<Rightarrow> if priority r > priority best then r else best | None \<Rightarrow> best)"
    have "best_match f (R \<union> rules_of (rules (table_at cls t))) (Some best')"
      unfolding best'_def by (rule best_match_join [OF Cons.prems(3) find_match_best [OF assms(1) t assms(4)]])
    from Cons.IH [OF _ _ this] show ?thesis
      using False Cons.prems(1,2) by (simp add: Let_def best'_def [symmetric] Un_assoc)
  qed
qed

lemma lookup_first_best:
  assumes "tables_ok cls" and "set ts \<subseteq> set (tables_priority cls)" and "descending (table_max cls) ts" and "flow_wf f"
  shows "best_match f (rules_in cls ts) (fst (lookup_first cls f wc ts))"
  using assms(2,3)
proof (induction ts arbitrary: wc)
  case Nil
  then show ?case by (simp add: best_match_def)
next
  case (Cons t ts)
  have t: "t \<in> set (tables_priority cls)" using Cons.prems(1) by simp
  note fm = find_match_best [OF assms(1) t assms(4)]
  show ?case
  proof (cases "find_match (table_at cls t) f")
    case None
    then have "\<forall>s \<in> rules_of (rules (table_at cls t)). \<not> flow_matches f s" using fm by (simp add: best_match_def)
    then show ?thesis using best_match_skip Cons None by (simp add: Let_def)
  next
    case (Some best)
    then show ?thesis
      using lookup_continue_best [OF assms(1) _ _ assms(4) fm [unfolded Some]] Cons.prems by (simp add: Let_def)
  qed
qed

section \<open>Wildcards\<close>

definition wc_le :: "flow \<Rightarrow> flow \<Rightarrow> bool" where
  "wc_le w w' \<longleftrightarrow> (\<forall>i < FLOW_U32S. w ! i AND w' ! i = w ! i)"

lemma and_mono_eq:
  fixes a b x y :: "'a::len word"
  assumes "x AND b = y AND b" and "a AND b = a"
  shows "x AND a = y AND a"
  by (metis assms and.assoc and.commute)

lemma and_le_trans:
  fixes a b c :: "'a::len word"
  assumes "a AND b = a" and "b AND c = b"
  shows "a AND c = a"
proof -
  have "a AND c = (a AND b) AND c" using assms(1) by simp
  also have "\<dots> = a AND (b AND c)" by (rule and.assoc)
  finally show ?thesis using assms by simp
qed

lemma flow_equal_except_mono:
  assumes "wc_le w w'" and "flow_equal_except f g w'"
  shows "flow_equal_except f g w"
  unfolding flow_equal_except_iff
proof (intro allI impI)
  fix i assume i: "i < FLOW_U32S"
  show "f ! i AND w ! i = g ! i AND w ! i"
    by (rule and_mono_eq [of _ "w' ! i"]) (use assms i in \<open>simp_all add: wc_le_def flow_equal_except_iff\<close>)
qed

lemma wc_le_refl [simp]: "wc_le w w"
  by (simp add: wc_le_def)

lemma wc_le_trans: "wc_le u v \<Longrightarrow> wc_le v w \<Longrightarrow> wc_le u w"
  unfolding wc_le_def using and_le_trans by blast

lemma fold_wc_le:
  assumes "miniflow_wf m" and "flow_wf w"
  shows "wc_le w (flow_wildcards_fold_minimask w m)" and "wc_le (miniflow_expand m) (flow_wildcards_fold_minimask w m)"
proof -
  have "x AND (x OR y) = x" "y AND (x OR y) = y" for x y :: u32
    by (auto intro!: bit_word_eqI simp: bit_simps)
  then show "wc_le w (flow_wildcards_fold_minimask w m)" "wc_le (miniflow_expand m) (flow_wildcards_fold_minimask w m)"
    using fold_minimask_nth [OF assms] by (simp_all add: wc_le_def)
qed

text \<open>The tables whose masks are folded in are exactly those whose rules were looked at.\<close>

lemma lookup_fold_Some:
  assumes "tables_ok cls" and "t \<in> set (tables_priority cls)" and "flow_wf w"
  obtains w' where "lookup_fold (Some w) (table_at cls t) = Some w'" and "flow_wf w'" and "wc_le w w'"
    and "wc_le (miniflow_expand (tmask (table_at cls t))) w'"
  using that [of "flow_wildcards_fold_minimask w (tmask (table_at cls t))"] fold_minimask_wf [OF assms(3)]
    fold_wc_le [OF table_facts(2) [OF assms(1,2)] assms(3)]
  by (simp add: lookup_fold_def)

text \<open>\<open>settled f g lookup\<close>: the lookup of \<open>f\<close> ends in wildcards under which \<open>g\<close> gets the same answer.\<close>

definition settled :: "flow \<Rightarrow> flow \<Rightarrow> flow \<Rightarrow> (flow \<Rightarrow> cls_rule option \<times> flow option) \<Rightarrow> bool" where
  "settled w f g lookup \<longleftrightarrow>
     (\<exists>res w'. lookup f = (res, Some w') \<and> flow_wf w' \<and> wc_le w w' \<and>
        (flow_equal_except f g w' \<longrightarrow> lookup g = (res, Some w')))"

lemma settled_step:
  assumes "tables_ok cls" and "t \<in> set (tables_priority cls)" and "flow_wf f" and "flow_wf g"
    and "wc_le w w'" and "wc_le (miniflow_expand (tmask (table_at cls t))) w'"
    and "settled w' f g (k (find_match (table_at cls t) f))"
  shows "settled w f g (\<lambda>x. k (find_match (table_at cls t) x) x)"
proof -
  obtain res w'' where r: "k (find_match (table_at cls t) f) f = (res, Some w'')" "flow_wf w''" "wc_le w' w''"
    "flow_equal_except f g w'' \<longrightarrow> k (find_match (table_at cls t) f) g = (res, Some w'')"
    using assms(7) by (auto simp: settled_def)
  have "find_match (table_at cls t) f = find_match (table_at cls t) g" if "flow_equal_except f g w''"
    using flow_equal_except_mono [OF wc_le_trans [OF assms(6) r(3)] that]
    by (rule find_match_cong [OF table_facts(1,2) [OF assms(1,2)] assms(3,4)])
  then show ?thesis using r wc_le_trans [OF assms(5)] by (auto simp: settled_def)
qed

lemma lookup_continue_settled:
  assumes "tables_ok cls" and "set ts \<subseteq> set (tables_priority cls)" and "flow_wf f" and "flow_wf g" and "flow_wf w"
  shows "settled w f g (\<lambda>x. lookup_continue cls x (Some w) best ts)"
  using assms(2,5)
proof (induction ts arbitrary: w best)
  case Nil
  then show ?case by (simp add: settled_def)
next
  case (Cons t ts)
  have t: "t \<in> set (tables_priority cls)" using Cons.prems(1) by simp
  obtain w' where w': "lookup_fold (Some w) (table_at cls t) = Some w'" "flow_wf w'" "wc_le w w'"
    "wc_le (miniflow_expand (tmask (table_at cls t))) w'"
    using lookup_fold_Some [OF assms(1) t Cons.prems(2)] .
  let ?k = "\<lambda>rule x. lookup_continue cls x (Some w')
      (case rule of Some r \<Rightarrow> if priority r > priority best then r else best | None \<Rightarrow> best) ts"
  have "settled w f g (\<lambda>x. ?k (find_match (table_at cls t) x) x)"
    by (rule settled_step [OF assms(1) t assms(3,4) w'(3,4), of ?k], rule Cons.IH)
      (use Cons.prems(1) w'(2) in simp_all)
  moreover have "settled w f g (\<lambda>x. (Some best, Some w))" using Cons.prems(2) by (simp add: settled_def)
  ultimately show ?case
    unfolding lookup_continue.simps Let_def w'(1) by (cases "table_max cls t \<le> priority best") simp_all
qed

lemma lookup_first_settled:
  assumes "tables_ok cls" and "set ts \<subseteq> set (tables_priority cls)" and "flow_wf f" and "flow_wf g" and "flow_wf w"
  shows "settled w f g (\<lambda>x. lookup_first cls x (Some w) ts)"
  using assms(2,5)
proof (induction ts arbitrary: w)
  case Nil
  then show ?case by (simp add: settled_def)
next
  case (Cons t ts)
  have t: "t \<in> set (tables_priority cls)" using Cons.prems(1) by simp
  obtain w' where w': "lookup_fold (Some w) (table_at cls t) = Some w'" "flow_wf w'" "wc_le w w'"
    "wc_le (miniflow_expand (tmask (table_at cls t))) w'"
    using lookup_fold_Some [OF assms(1) t Cons.prems(2)] .
  let ?k = "\<lambda>rule x. case rule of Some best \<Rightarrow> lookup_continue cls x (Some w') best ts
      | None \<Rightarrow> lookup_first cls x (Some w') ts"
  have ts: "set ts \<subseteq> set (tables_priority cls)" using Cons.prems(1) by simp
  have "settled w' f g (?k (find_match (table_at cls t) f))"
    using Cons.IH [OF ts w'(2)] lookup_continue_settled [OF assms(1) ts assms(3,4) w'(2)]
    by (cases "find_match (table_at cls t) f") simp_all
  from settled_step [OF assms(1) t assms(3,4) w'(3,4), of ?k, OF this]
  show ?case unfolding lookup_first.simps Let_def w'(1) .
qed

text \<open>Without wildcards to compute the answer is the same.\<close>

lemma lookup_continue_wc: "fst (lookup_continue cls f wc best ts) = fst (lookup_continue cls f wc' best ts)"
  by (induction ts arbitrary: wc wc' best) (auto simp: Let_def)

lemma lookup_first_wc: "fst (lookup_first cls f wc ts) = fst (lookup_first cls f wc' ts)"
  by (induction ts arbitrary: wc wc') (auto simp: Let_def intro: lookup_continue_wc split: option.splits)

section \<open>Exact search\<close>

lemma find_priority_correct:
  assumes "sorted_wrt (\<lambda>a b. priority b < priority a) c"
  shows "find_priority p c = Some r \<longleftrightarrow> r \<in> set c \<and> priority r = p"
  using assms by (induction c) (auto simp: not_le)

lemma chain_of_rule:
  assumes "rules_ok m h" and "c \<in> chains h" and "mmask mt = m" and "chain_flow c = mflow mt"
  shows "r \<in> set c \<longleftrightarrow> r \<in> rules_of h \<and> rmatch r = mt"
proof -
  obtain k where k: "chain_ok m k c" using chain_in [OF assms(1,2)] .
  have eq: "x = y" if "mflow x = mflow y" "mmask x = mmask y" for x y :: minimatch using that by simp
  show ?thesis
  proof
    assume r: "r \<in> set c"
    then have "rmatch r = mt" using chain_okD [OF k r] chain_rmatch [OF k r] assms(3,4) by (intro eq) simp_all
    then show "r \<in> rules_of h \<and> rmatch r = mt" using r assms(2) by (auto simp: rules_of_def)
  next
    assume r: "r \<in> rules_of h \<and> rmatch r = mt"
    then obtain d where d: "d \<in> chains h" "r \<in> set d" by (auto simp: rules_of_def)
    obtain l where l: "chain_ok m l d" using chain_in [OF assms(1) d(1)] .
    have "chain_flow d = chain_flow c" using chain_rmatch [OF l d(2)] r assms(4) by simp
    then have "d = c" using assms(1,2) d(1) by (auto simp: rules_ok_def dest: inj_onD)
    then show "r \<in> set c" using d(2) by simp
  qed
qed

lemma rules_in_list_chain:
  assumes "sorted_wrt (\<lambda>a b. priority b < priority a) c"
  shows "rules_in_list c = c"
  using assms by (induction c rule: rules_in_list.induct) auto

text \<open>The part of the search that is in one table.\<close>

lemma find_in_table:
  assumes "tables_ok cls" and "t \<in> set (tables_priority cls)" and "tmask (table_at cls t) = mmask (rmatch target)"
    and "miniflow_wf (mflow (rmatch target))"
  shows "(case find_equal (table_at cls t) (mflow (rmatch target))
             (ucast (miniflow_hash_in_minimask (mflow (rmatch target)) (mmask (rmatch target)) 0)) of
           None \<Rightarrow> None | Some c \<Rightarrow> find_priority (priority target) (rules_in_list c)) = Some r \<longleftrightarrow>
    r \<in> rules_of (rules (table_at cls t)) \<and> same_rule r target"
    (is "(case ?fe of None \<Rightarrow> None | Some c \<Rightarrow> _ c) = Some r \<longleftrightarrow> _")
proof -
  note ok = table_facts(1) [OF assms(1,2)]
  note fe = find_equal_correct [OF ok assms(4), unfolded assms(3)]
  show ?thesis
  proof (cases ?fe)
    case None
    have "\<not> same_rule r target" if r: "r \<in> rules_of (rules (table_at cls t))"
    proof
      assume s: "same_rule r target"
      obtain c where c: "c \<in> chains (rules (table_at cls t))" "r \<in> set c" using r by (auto simp: rules_of_def)
      obtain k where k: "chain_ok (tmask (table_at cls t)) k c" using chain_in [OF ok c(1)] .
      have "chain_flow c = mflow (rmatch target)" using chain_rmatch [OF k c(2)] s by (simp add: same_rule_def)
      then show False using fe [of c] c(1) None by simp
    qed
    then show ?thesis using None by auto
  next
    case (Some c)
    then have c: "c \<in> chains (rules (table_at cls t))" "chain_flow c = mflow (rmatch target)" using fe [of c] by simp_all
    obtain k where k: "chain_ok (tmask (table_at cls t)) k c" using chain_in [OF ok c(1)] .
    then have "sorted_wrt (\<lambda>a b. priority b < priority a) c" by (simp add: chain_ok_def)
    then show ?thesis
      using find_priority_correct [of c "priority target" r] chain_of_rule [OF ok c(1) assms(3) [symmetric] c(2), of r]
        Some rules_in_list_chain by (auto simp: same_rule_def)
  qed
qed

lemma find_rule_exactly_correct:
  assumes "tables_ok cls" and "rule_wf target"
  shows "classifier_find_rule_exactly cls target = Some r \<longleftrightarrow> r \<in> cls_rules cls \<and> same_rule r target"
proof -
  have wf: "miniflow_wf (mmask (rmatch target))" "miniflow_wf (mflow (rmatch target))"
    using assms(2) by (simp_all add: rule_wf_def)
  show ?thesis
  proof (cases "find_table cls (mmask (rmatch target))")
    case None
    have "mmask (rmatch r) \<noteq> mmask (rmatch target)" if "r \<in> cls_rules cls"
      using that find_table_None [OF assms(1) wf(1) None] table_rule(2) [OF table_ok_of [OF assms(1)]]
      by (auto simp: cls_rules_def)
    then show ?thesis using None by (auto simp: classifier_find_rule_exactly_def same_rule_def)
  next
    case (Some t)
    then have t: "t \<in> set (tables_priority cls)" and m: "tmask (table_at cls t) = mmask (rmatch target)"
      using find_table_correct [OF assms(1) wf(1), of t] by simp_all
    have in_t: "r \<in> cls_rules cls \<and> same_rule r target \<longleftrightarrow>
        r \<in> rules_of (rules (table_at cls t)) \<and> same_rule r target"
    proof -
      have "r \<in> rules_of (rules (table_at cls t))" if "r \<in> cls_rules cls" "same_rule r target"
        using rule_table [OF assms(1) that(1) t] that(2) m by (simp add: same_rule_def)
      moreover have "rules_of (rules (table_at cls t)) \<subseteq> cls_rules cls" using t by (auto simp: cls_rules_def)
      ultimately show ?thesis by blast
    qed
    have "\<not> priority target > table_max cls t" if "r \<in> rules_of (rules (table_at cls t)) \<and> same_rule r target"
      using table_facts(3) [OF assms(1) t, of r] that by (simp add: same_rule_def not_less)
    then show ?thesis
      unfolding in_t find_in_table [OF assms(1) t m wf(2), symmetric]
      using Some by (auto simp: classifier_find_rule_exactly_def)
  qed
qed

section \<open>Overlap and loose matches\<close>

lemma overlaps_in_list_iff:
  assumes "sorted_wrt (\<lambda>a b. priority b < priority a) rs"
  shows "overlaps_in_list target m rs \<longleftrightarrow> (\<exists>r \<in> set rs. priority r = priority target \<and>
    miniflow_equal_in_minimask (mflow (rmatch target)) (mflow (rmatch r)) m)"
  using assms by (induction rs) auto

text \<open>Two rules overlap when some packet matches both.\<close>

lemma bit_agree:
  fixes a b x y :: u32
  assumes "a AND x = a" and "b AND y = b" and "a AND (x AND y) = b AND (x AND y)"
  shows "(a OR b) AND x = a" and "(a OR b) AND y = b"
proof -
  have b: "bit a n \<Longrightarrow> bit x n" "bit b n \<Longrightarrow> bit y n" "bit x n \<Longrightarrow> bit y n \<Longrightarrow> bit a n = bit b n" for n
    using arg_cong [OF assms(1), of "\<lambda>w. bit w n"] arg_cong [OF assms(2), of "\<lambda>w. bit w n"]
      arg_cong [OF assms(3), of "\<lambda>w. bit w n"] by (simp_all add: bit_simps)
  have "bit ((a OR b) AND x) n = bit a n" "bit ((a OR b) AND y) n = bit b n" for n
    using b [of n] by (auto simp: bit_simps)
  then show "(a OR b) AND x = a" "(a OR b) AND y = b" by (simp_all add: bit_word_eqI)
qed

lemma and_agree:
  fixes a b x y f :: u32
  assumes "a AND x = f AND x" and "b AND y = f AND y"
  shows "a AND (x AND y) = b AND (x AND y)"
proof (rule bit_word_eqI)
  fix n
  show "bit (a AND (x AND y)) n = bit (b AND (x AND y)) n"
    using arg_cong [OF assms(1), of "\<lambda>w. bit w n"] arg_cong [OF assms(2), of "\<lambda>w. bit w n"]
    by (auto simp: bit_simps)
qed

lemma overlap_packet:
  assumes "rule_wf r" and "rule_wf s"
  shows "miniflow_equal_in_minimask (mflow (rmatch r)) (mflow (rmatch s)) (minimask_combine (mmask (rmatch r)) (mmask (rmatch s)))
    \<longleftrightarrow> (\<exists>f. flow_wf f \<and> flow_matches f r \<and> flow_matches f s)" (is "?eq \<longleftrightarrow> ?ex")
proof -
  let ?fr = "miniflow_expand (mflow (rmatch r))" and ?fs = "miniflow_expand (mflow (rmatch s))"
  let ?mr = "miniflow_expand (mmask (rmatch r))" and ?ms = "miniflow_expand (mmask (rmatch s))"
  have wf: "miniflow_wf (mflow (rmatch r))" "miniflow_wf (mflow (rmatch s))" "miniflow_wf (mmask (rmatch r))"
    "miniflow_wf (mmask (rmatch s))"
    and sub: "\<And>i. i < FLOW_U32S \<Longrightarrow> ?fr ! i AND ?mr ! i = ?fr ! i" "\<And>i. i < FLOW_U32S \<Longrightarrow> ?fs ! i AND ?ms ! i = ?fs ! i"
    using assms by (simp_all add: rule_wf_def minimask_expand_def)
  note cmb = minimask_combine_props [OF wf(3,4)]
  have eq: "?eq \<longleftrightarrow> (\<forall>i < FLOW_U32S. ?fr ! i AND (?mr ! i AND ?ms ! i) = ?fs ! i AND (?mr ! i AND ?ms ! i))"
    using equal_in_minimask_iff [OF wf(1,2)] cmb by (simp add: flow_equal_except_iff flow_wildcards_and_def)
  show ?thesis
  proof
    assume e: ?eq
    let ?f = "flow_wildcards_or ?fr ?fs"
    have "?f ! i AND ?mr ! i = ?fr ! i" "?f ! i AND ?ms ! i = ?fs ! i" if "i < FLOW_U32S" for i
      using that bit_agree [OF sub [OF that]] e by (simp_all add: eq flow_wildcards_or_def)
    then have "flow_matches ?f r" "flow_matches ?f s" using sub by (simp_all add: flow_matches_iff)
    moreover have "flow_wf ?f" by (simp add: flow_wf_def flow_wildcards_or_def)
    ultimately show ?ex by blast
  next
    assume ?ex
    then obtain f where f: "\<And>i. i < FLOW_U32S \<Longrightarrow> ?fr ! i AND ?mr ! i = f ! i AND ?mr ! i"
      "\<And>i. i < FLOW_U32S \<Longrightarrow> ?fs ! i AND ?ms ! i = f ! i AND ?ms ! i" by (auto simp: flow_matches_iff)
    show ?eq unfolding eq using and_agree [OF f] by blast
  qed
qed

lemma overlaps_in_table_iff:
  assumes "tables_ok cls" and "t \<in> set (tables_priority cls)" and "rule_wf target"
  shows "list_ex (\<lambda>c. overlaps_in_list target (minimask_combine (mmask (rmatch target)) (tmask (table_at cls t))) (rules_in_list c))
      (HMAP_FOR_EACH (rules (table_at cls t))) \<longleftrightarrow>
    (\<exists>r \<in> rules_of (rules (table_at cls t)). priority r = priority target \<and>
       (\<exists>f. flow_wf f \<and> flow_matches f target \<and> flow_matches f r))"
proof -
  let ?m = "minimask_combine (mmask (rmatch target)) (tmask (table_at cls t))"
  note ok = table_facts(1) [OF assms(1,2)]
  have wf: "hmap_wf (rules (table_at cls t))" using ok by (simp add: rules_ok_def)
  have cs: "set (HMAP_FOR_EACH (rules (table_at cls t))) = chains (rules (table_at cls t))"
    by (simp add: HMAP_FOR_EACH_eq [OF wf] chains_def hmap_node_set_def)
  have chain: "overlaps_in_list target ?m (rules_in_list c) \<longleftrightarrow>
      (\<exists>r \<in> set c. priority r = priority target \<and> (\<exists>f. flow_wf f \<and> flow_matches f target \<and> flow_matches f r))"
    if c: "c \<in> chains (rules (table_at cls t))" for c
  proof -
    obtain k where k: "chain_ok (tmask (table_at cls t)) k c" using chain_in [OF ok c] .
    then have s: "sorted_wrt (\<lambda>a b. priority b < priority a) c" by (simp add: chain_ok_def)
    have "miniflow_equal_in_minimask (mflow (rmatch target)) (mflow (rmatch r)) ?m \<longleftrightarrow>
        (\<exists>f. flow_wf f \<and> flow_matches f target \<and> flow_matches f r)" if r: "r \<in> set c" for r
      using overlap_packet [OF assms(3), of r] chain_okD [OF k r] by simp
    then show ?thesis unfolding rules_in_list_chain [OF s] overlaps_in_list_iff [OF s] by blast
  qed
  show ?thesis unfolding list_ex_iff cs rules_of_def using chain by blast
qed

lemma overlaps_in_tables_iff:
  assumes "tables_ok cls" and "set ts \<subseteq> set (tables_priority cls)" and "descending (table_max cls) ts" and "rule_wf target"
  shows "overlaps_in_tables cls target ts \<longleftrightarrow> (\<exists>r \<in> rules_in cls ts. priority r = priority target \<and>
       (\<exists>f. flow_wf f \<and> flow_matches f target \<and> flow_matches f r))"
  using assms(2,3)
proof (induction ts)
  case Nil
  then show ?case by simp
next
  case (Cons t ts)
  have t: "t \<in> set (tables_priority cls)" using Cons.prems(1) by simp
  show ?case
  proof (cases "priority target > table_max cls t")
    case True
    have "\<forall>u \<in> set (t # ts). table_max cls u \<le> table_max cls t" using Cons.prems(2) by simp
    then have "priority r \<noteq> priority target" if "r \<in> rules_in cls (t # ts)" for r
      using low_tables [OF assms(1) Cons.prems(1) _ that] True by fastforce
    then show ?thesis using True by (auto simp: Let_def)
  next
    case False
    then show ?thesis
      using overlaps_in_table_iff [OF assms(1) t assms(4)] Cons by (auto simp: Let_def)
  qed
qed

text \<open>A rule matches a criterion loosely when every packet of the rule also meets the criterion.\<close>

lemma loose_match_packets:
  assumes "rule_wf r" and "rule_wf c"
  shows "cls_rule_is_loose_match r (rmatch c) \<longleftrightarrow> (\<forall>f. flow_wf f \<longrightarrow> flow_matches f r \<longrightarrow> flow_matches f c)"
proof -
  let ?fr = "miniflow_expand (mflow (rmatch r))" and ?fc = "miniflow_expand (mflow (rmatch c))"
  let ?mr = "miniflow_expand (mmask (rmatch r))" and ?mc = "miniflow_expand (mmask (rmatch c))"
  have wf: "miniflow_wf (mflow (rmatch r))" "miniflow_wf (mflow (rmatch c))" "miniflow_wf (mmask (rmatch r))"
    "miniflow_wf (mmask (rmatch c))"
    and sub: "\<And>i. i < FLOW_U32S \<Longrightarrow> ?fr ! i AND ?mr ! i = ?fr ! i" "\<And>i. i < FLOW_U32S \<Longrightarrow> ?fc ! i AND ?mc ! i = ?fc ! i"
    using assms by (simp_all add: rule_wf_def minimask_expand_def)
  have eq: "cls_rule_is_loose_match r (rmatch c) \<longleftrightarrow>
      (\<forall>i < FLOW_U32S. ?mr ! i AND ?mc ! i = ?mc ! i) \<and> (\<forall>i < FLOW_U32S. ?fr ! i AND ?mc ! i = ?fc ! i AND ?mc ! i)"
    by (auto simp: cls_rule_is_loose_match_def minimask_has_extra_iff [OF wf(3,4)] flow_wildcards_has_extra_def
        list_ex_iff equal_in_minimask_iff [OF wf(1,2,4)] flow_equal_except_iff)
  show ?thesis
  proof
    assume "cls_rule_is_loose_match r (rmatch c)"
    then have l: "\<And>i. i < FLOW_U32S \<Longrightarrow> ?mc ! i AND ?mr ! i = ?mc ! i"
      "\<And>i. i < FLOW_U32S \<Longrightarrow> ?fr ! i AND ?mc ! i = ?fc ! i AND ?mc ! i" by (simp_all add: eq and.commute)
    have "?fc ! i AND ?mc ! i = f ! i AND ?mc ! i"
      if "i < FLOW_U32S" and "?fr ! i AND ?mr ! i = f ! i AND ?mr ! i" for f :: flow and i
      using and_mono_eq [OF that(2) l(1) [OF that(1)]] l(2) [OF that(1)] by simp
    then show "\<forall>f. flow_wf f \<longrightarrow> flow_matches f r \<longrightarrow> flow_matches f c"
      unfolding flow_matches_iff by blast
  next
    assume a: "\<forall>f. flow_wf f \<longrightarrow> flow_matches f r \<longrightarrow> flow_matches f c"
    let ?g = "map (\<lambda>i. ?fr ! i OR NOT (?mr ! i)) [0..<FLOW_U32S]"
    have g: "(x OR NOT y) AND y = x AND y" for x y :: u32 by (auto intro!: bit_word_eqI simp: bit_simps)
    have "flow_matches ?fr c" using a by (simp add: flow_matches_iff)
    moreover have "flow_wf ?g" "flow_matches ?g r" by (simp_all add: flow_matches_iff g flow_wf_def)
    then have "flow_matches ?g c" using a by blast
    ultimately have m: "\<And>i. i < FLOW_U32S \<Longrightarrow> ?fc ! i AND ?mc ! i = ?fr ! i AND ?mc ! i"
      "\<And>i. i < FLOW_U32S \<Longrightarrow> ?fc ! i AND ?mc ! i = (?fr ! i OR NOT (?mr ! i)) AND ?mc ! i"
      by (simp_all add: flow_matches_iff)
    have "?mr ! i AND ?mc ! i = ?mc ! i" if i: "i < FLOW_U32S" for i
    proof (rule bit_word_eqI)
      fix n assume "n < LENGTH(32)"
      then show "bit (?mr ! i AND ?mc ! i) n = bit (?mc ! i) n"
        using arg_cong [OF m(1) [OF i], of "\<lambda>w. bit w n"] arg_cong [OF m(2) [OF i], of "\<lambda>w. bit w n"]
          arg_cong [OF sub(1) [OF i], of "\<lambda>w. bit w n"]
        by (auto simp: bit_simps)
    qed
    then show "cls_rule_is_loose_match r (rmatch c)" using m(1) by (simp add: eq)
  qed
qed

section \<open>Reachable classifiers\<close>

text \<open>
  A step is a call with what the callers guarantee: the rule is well formed, its \<^verbatim>\<open>struct cls_rule\<close> is
  not already in the classifier, the counters (of type \<^verbatim>\<open>int\<close>) have room, and only rules of the
  classifier are removed.
\<close>

definition insertable :: "classifier \<Rightarrow> cls_rule \<Rightarrow> bool" where
  "insertable cls r \<longleftrightarrow> rule_wf r \<and> (\<forall>s \<in> cls_rules cls. addr s \<noteq> addr r) \<and> classifier_count cls < 2 ^ 31 - 1"

inductive cls_step :: "classifier \<Rightarrow> classifier \<Rightarrow> bool" where
  step_replace: "insertable cls r \<Longrightarrow> classifier_replace cls r = (cls', old) \<Longrightarrow> cls_step cls cls'"
| step_insert: "insertable cls r \<Longrightarrow> classifier_insert cls r = Some cls' \<Longrightarrow> cls_step cls cls'"
| step_remove: "r \<in> cls_rules cls \<Longrightarrow> classifier_remove cls r = Some cls' \<Longrightarrow> cls_step cls cls'"

definition cls_state_ok :: "classifier \<Rightarrow> bool" where
  "cls_state_ok cls \<longleftrightarrow> classifier_inv cls \<and> card (cls_rules cls) < 2 ^ 31"

lemma classifier_inv_count: "classifier_inv cls \<Longrightarrow> classifier_count cls = int (card (cls_rules cls))"
  by (simp add: classifier_inv_def counts_ok_def classifier_count_def)

lemma insertable_replace:
  assumes "classifier_inv cls" and "insertable cls r" and "classifier_replace cls r = (cls', old)"
  shows "classifier_inv cls' \<and> cls_rules cls' = insert (hashed r) (cls_rules cls - {s. same_rule s r}) \<and>
    (case old of None \<Rightarrow> \<forall>s \<in> cls_rules cls. \<not> same_rule s r | Some s \<Rightarrow> s \<in> cls_rules cls \<and> same_rule s r)"
proof -
  have "card (cls_rules cls) + 1 < 2 ^ 32"
    using assms(2) classifier_inv_count [OF assms(1)] by (simp add: insertable_def)
  then show ?thesis using classifier_replace_correct [OF assms(1) _ _ _ assms(3)] assms(2)
    by (simp add: insertable_def)
qed

lemma replace_state_ok:
  assumes "cls_state_ok cls" and "insertable cls r" and "classifier_replace cls r = (cls', old)"
  shows "cls_state_ok cls'"
proof -
  have inv: "classifier_inv cls" using assms(1) by (simp add: cls_state_ok_def)
  note rep = insertable_replace [OF inv assms(2,3)]
  have "card (cls_rules cls') \<le> card (insert (hashed r) (cls_rules cls))"
    using rep by (intro card_mono) auto
  also have "\<dots> \<le> card (cls_rules cls) + 1" by (simp add: card_insert_if)
  also have "\<dots> < 2 ^ 31"
    using assms(2) classifier_inv_count [OF inv] by (simp add: insertable_def)
  finally show ?thesis using rep by (simp add: cls_state_ok_def)
qed

lemma remove_state_ok:
  assumes "cls_state_ok cls" and "r \<in> cls_rules cls" and "classifier_remove cls r = Some cls'"
  shows "cls_state_ok cls'"
proof -
  have "classifier_inv cls" "card (cls_rules cls) < 2 ^ 32" using assms(1) by (simp_all add: cls_state_ok_def)
  from classifier_remove_correct [OF this(1) assms(2) this(2)]
  have c: "classifier_inv cls'" "cls_rules cls' = cls_rules cls - {r}" using assms(3) by auto
  moreover have "card (cls_rules cls') \<le> card (cls_rules cls)" unfolding c(2) by (rule card_Diff1_le)
  ultimately show ?thesis using assms(1) by (simp add: cls_state_ok_def)
qed

lemma classifier_init_ok: "cls_state_ok classifier_init" and classifier_init_rules: "cls_rules classifier_init = {}"
  by (simp_all add: cls_state_ok_def classifier_inv_def tables_ok_def counts_ok_def classifier_init_def cls_rules_def
      hmap_bag.invar_empty hmap_bag.nodes_empty)

interpretation cls_system: transition_system "\<lambda>cls. cls = classifier_init" cls_step cls_state_ok
proof
  show "cls_state_ok t" if "cls_state_ok s" "cls_step s t" for s t
    using that(2,1)
  proof cases
    case (step_insert r)
    then show ?thesis using that(1) replace_state_ok
      by (auto simp: classifier_insert_def Let_def split: prod.splits if_splits)
  qed (use that(1) replace_state_ok remove_state_ok in blast)+
qed (simp add: classifier_init_ok)

lemma cls_reachable:
  assumes "cls_step\<^sup>*\<^sup>* classifier_init cls"
  shows "classifier_inv cls" and "tables_ok cls" and "card (cls_rules cls) < 2 ^ 32"
  using cls_system.inv_reachable [OF refl assms] by (simp_all add: cls_state_ok_def classifier_inv_def)

lemma tables_sorted: "tables_ok cls \<Longrightarrow> descending (table_max cls) (tables_priority cls)"
  by (simp add: tables_ok_def)

lemma rule_wf_init:
  assumes "flow_wf (match_flow m)" and "flow_wf (match_wc m)"
    and "\<forall>i < FLOW_U32S. match_flow m ! i AND match_wc m ! i = match_flow m ! i"
  shows "rule_wf (cls_rule_init a m prio)"
  using assms by (simp add: rule_wf_def cls_rule_init_def minimatch_init_def minimask_init_def minimask_expand_def expand_init)

text \<open>A rule that matches every packet, and the classifier that has just this rule.\<close>

definition any_rule :: "u32 \<Rightarrow> cls_rule" where
  "any_rule prio = cls_rule_init 1 \<lparr>match_flow = replicate 54 0, match_wc = replicate 54 0\<rparr> prio"

lemma any_rule_insertable: "insertable classifier_init (any_rule prio)"
  by (simp add: insertable_def any_rule_def rule_wf_init flow_wf_def FLOW_U32S_eq classifier_init_rules)
    (simp add: classifier_count_def classifier_init_def)

lemma any_rule_step:
  obtains cls' where "classifier_replace classifier_init (any_rule prio) = (cls', None)"
    and "cls_step\<^sup>*\<^sup>* classifier_init cls'" and "cls_rules cls' = {hashed (any_rule prio)}"
proof -
  obtain cls' old where r: "classifier_replace classifier_init (any_rule prio) = (cls', old)" by fastforce
  have inv: "classifier_inv classifier_init" using classifier_init_ok by (simp add: cls_state_ok_def)
  have "old = None \<and> cls_rules cls' = {hashed (any_rule prio)}"
    using insertable_replace [OF inv any_rule_insertable r] classifier_init_rules by (cases old) simp_all
  moreover have "cls_step\<^sup>*\<^sup>* classifier_init cls'" using step_replace [OF any_rule_insertable r] by blast
  ultimately show ?thesis using r that by simp
qed

section \<open>Properties\<close>

text \<open>
  C3. In every classifier reached from the empty one by insertions,
  replacements and removals, the invariant of the data structure holds: the hash map and the list
  by priority have the same tables, the list is sorted by descending priority of the tables' best rules,
  every table has a mask of its own, its chains are sorted by priority, and its best
  priority, the number of rules that have it and the numbers of rules are right.
\<close>

theorem classifier_invariant:
  assumes "cls_step\<^sup>*\<^sup>* classifier_init cls"
  shows "classifier_inv cls \<and> classifier_count cls = int (card (cls_rules cls)) \<and>
    (classifier_is_empty cls \<longleftrightarrow> cls_rules cls = {})"
  using cls_reachable [OF assms] classifier_inv_count
  by (simp add: classifier_is_empty_def classifier_count_def)

theorem classifier_invariant_witness:
  "\<exists>cls. cls_step\<^sup>*\<^sup>* classifier_init cls \<and> classifier_inv cls \<and> classifier_count cls = 1"
proof -
  obtain cls' where c: "cls_step\<^sup>*\<^sup>* classifier_init cls'" "cls_rules cls' = {hashed (any_rule 7)}"
    using any_rule_step [of 7] by metis
  then show ?thesis using classifier_invariant [OF c(1)] by auto
qed

text \<open>
  C4. \<^verbatim>\<open>classifier_replace\<close> on the data structure is replacement in the set
  of rules: the rule with the same match and priority, which is returned, goes out and the new
  rule comes in. \<^verbatim>\<open>classifier_insert\<close> does the same, and aborts exactly when there was such a rule.
\<close>

theorem classifier_replace_refines:
  assumes "classifier_inv cls" and "insertable cls r" and "classifier_replace cls r = (cls', old)"
  shows "cls_rules cls' = insert (hashed r) (cls_rules cls - {s. same_rule s r}) \<and>
    (case old of None \<Rightarrow> \<forall>s \<in> cls_rules cls. \<not> same_rule s r | Some s \<Rightarrow> s \<in> cls_rules cls \<and> same_rule s r) \<and>
    (classifier_insert cls r = None \<longleftrightarrow> (\<exists>s \<in> cls_rules cls. same_rule s r)) \<and>
    (old = None \<longrightarrow> classifier_insert cls r = Some cls')"
  using insertable_replace [OF assms] assms(3)
  by (cases old) (auto simp: classifier_insert_def)

theorem classifier_replace_refines_witness:
  "\<exists>cls'. classifier_insert classifier_init (any_rule 7) = Some cls' \<and> cls_rules cls' = {hashed (any_rule 7)}"
proof -
  obtain cls' where c: "classifier_replace classifier_init (any_rule 7) = (cls', None)" using any_rule_step [of 7] by metis
  have "classifier_inv classifier_init" using classifier_init_ok by (simp add: cls_state_ok_def)
  from classifier_replace_refines [OF this any_rule_insertable c] show ?thesis
    by (simp add: classifier_init_rules)
qed

text \<open>
  C5. Removing a rule of the classifier always succeeds (none of the
  pointers it follows is null), keeps the invariant and takes just that rule out of the set.
\<close>

theorem classifier_remove_refines:
  assumes "cls_step\<^sup>*\<^sup>* classifier_init cls" and "r \<in> cls_rules cls"
  shows "\<exists>cls'. classifier_remove cls r = Some cls' \<and> classifier_inv cls' \<and> cls_rules cls' = cls_rules cls - {r}"
  using classifier_remove_correct cls_reachable [OF assms(1)] assms(2) by blast

theorem classifier_remove_refines_witness:
  "\<exists>cls cls'. cls_rules cls = {hashed (any_rule 7)} \<and> classifier_remove cls (hashed (any_rule 7)) = Some cls' \<and>
     cls_rules cls' = {}"
proof -
  obtain cls where c: "cls_step\<^sup>*\<^sup>* classifier_init cls" "cls_rules cls = {hashed (any_rule 7)}"
    using any_rule_step [of 7] by metis
  then show ?thesis using classifier_remove_refines [OF c(1), of "hashed (any_rule 7)"] by auto
qed

text \<open>
  C1. \<^verbatim>\<open>classifier_lookup\<close> returns a rule that matches the packet and has the
  highest priority of all that do, and nothing exactly when no rule matches, although it stops at
  the first table whose best priority is too low. This does not depend on \<^verbatim>\<open>wc\<close>.
\<close>

theorem classifier_lookup_best:
  assumes "cls_step\<^sup>*\<^sup>* classifier_init cls" and "flow_wf f"
  shows "case fst (classifier_lookup cls f wc) of
      None \<Rightarrow> \<forall>s \<in> cls_rules cls. \<not> flow_matches f s
    | Some r \<Rightarrow> r \<in> cls_rules cls \<and> flow_matches f r \<and>
        (\<forall>s \<in> cls_rules cls. flow_matches f s \<longrightarrow> priority s \<le> priority r)"
  using lookup_first_best [OF cls_reachable(2) [OF assms(1)] subset_refl tables_sorted [OF cls_reachable(2) [OF assms(1)]] assms(2)]
  by (simp add: classifier_lookup_def best_match_def rules_in_all)

theorem classifier_lookup_best_witness:
  "\<exists>cls. fst (classifier_lookup cls (replicate 54 3) None) = Some (hashed (any_rule 7))"
proof -
  obtain cls where c: "cls_step\<^sup>*\<^sup>* classifier_init cls" "cls_rules cls = {hashed (any_rule 7)}"
    using any_rule_step [of 7] by metis
  have "flow_wf (replicate 54 0)" "flow_wf (replicate 54 (3 :: u32))" by (simp_all add: flow_wf_def FLOW_U32S_eq)
  moreover from this have "flow_matches (replicate 54 3) (hashed (any_rule 7))"
    by (simp add: flow_matches_iff any_rule_def cls_rule_init_def minimatch_init_def minimask_init_def expand_init FLOW_U32S_eq)
  ultimately show ?thesis
    using classifier_lookup_best [OF c(1), of "replicate 54 3" None] c(2) by (auto split: option.splits)
qed

text \<open>
  C2. The wildcards that \<^verbatim>\<open>classifier_lookup\<close> leaves in \<^verbatim>\<open>wc\<close> keep the bits that
  were there, and have all the bits the result depends on: any packet that agrees on them
  with the one looked up gets the same rule and the same wildcards. This is what makes it sound
  to cache the answer for the whole set of packets.
\<close>

theorem lookup_wildcards_sound:
  assumes "cls_step\<^sup>*\<^sup>* classifier_init cls" and "flow_wf f" and "flow_wf w"
  shows "\<exists>res w'. classifier_lookup cls f (Some w) = (res, Some w') \<and> flow_wf w' \<and>
    (\<forall>i < FLOW_U32S. w ! i AND w' ! i = w ! i) \<and>
    (\<forall>g. flow_wf g \<and> flow_equal_except f g w' \<longrightarrow> classifier_lookup cls g (Some w) = (res, Some w'))"
proof -
  note s = lookup_first_settled [OF cls_reachable(2) [OF assms(1)] subset_refl assms(2) _ assms(3)]
  obtain res w' where r: "classifier_lookup cls f (Some w) = (res, Some w')" "flow_wf w'" "wc_le w w'"
    using s [OF assms(2)] by (auto simp: settled_def classifier_lookup_def)
  moreover have "classifier_lookup cls g (Some w) = (res, Some w')" if "flow_wf g" "flow_equal_except f g w'" for g
    using s [OF that(1)] that(2) r(1) by (auto simp: settled_def classifier_lookup_def)
  ultimately show ?thesis by (auto simp: wc_le_def)
qed

theorem lookup_wildcards_sound_witness:
  "\<exists>cls res w'. cls_rules cls = {hashed (any_rule 7)} \<and>
     classifier_lookup cls (replicate 54 3) (Some (replicate 54 0)) = (res, Some w')"
proof -
  obtain cls where c: "cls_step\<^sup>*\<^sup>* classifier_init cls" "cls_rules cls = {hashed (any_rule 7)}"
    using any_rule_step [of 7] by metis
  have "flow_wf (replicate 54 0)" "flow_wf (replicate 54 (3 :: u32))" by (simp_all add: flow_wf_def FLOW_U32S_eq)
  then show ?thesis using lookup_wildcards_sound [OF c(1), of "replicate 54 3" "replicate 54 0"] c(2) by blast
qed

text \<open>
  C24. \<^verbatim>\<open>classifier_find_rule_exactly\<close> returns the rule of the classifier with the
  priority and the match of the target, and nothing exactly when there is none;
  \<^verbatim>\<open>classifier_find_match_exactly\<close> does so for a match that is not compressed.
\<close>

theorem find_exactly_correct:
  assumes "cls_step\<^sup>*\<^sup>* classifier_init cls" and "rule_wf target" and "flow_wf (match_flow m)" and "flow_wf (match_wc m)"
    and "\<forall>i < FLOW_U32S. match_flow m ! i AND match_wc m ! i = match_flow m ! i"
  shows "(classifier_find_rule_exactly cls target = Some r \<longleftrightarrow>
       r \<in> cls_rules cls \<and> rmatch r = rmatch target \<and> priority r = priority target) \<and>
    (classifier_find_rule_exactly cls target = None \<longleftrightarrow>
       (\<forall>s \<in> cls_rules cls. \<not> (rmatch s = rmatch target \<and> priority s = priority target))) \<and>
    (classifier_find_match_exactly cls m prio = Some r \<longleftrightarrow>
       r \<in> cls_rules cls \<and> rmatch r = minimatch_init m \<and> priority r = prio)"
proof -
  note f = find_rule_exactly_correct [OF cls_reachable(2) [OF assms(1)]]
  have "classifier_find_rule_exactly cls target = None \<longleftrightarrow> (\<forall>s \<in> cls_rules cls. \<not> same_rule s target)"
    using f [OF assms(2)] by (metis not_None_eq)
  then show ?thesis
    using f [OF assms(2)] f [OF rule_wf_init [OF assms(3-5)], of 0 prio r]
    by (simp add: same_rule_def classifier_find_match_exactly_def cls_rule_init_def)
qed

theorem find_exactly_correct_witness:
  "\<exists>cls. classifier_find_rule_exactly cls (any_rule 7) = Some (hashed (any_rule 7)) \<and>
     classifier_find_rule_exactly cls (any_rule 8) = None"
proof -
  obtain cls where c: "cls_step\<^sup>*\<^sup>* classifier_init cls" "cls_rules cls = {hashed (any_rule 7)}"
    using any_rule_step [of 7] by metis
  have w: "rule_wf (any_rule p)" "priority (any_rule p) = p" for p
    using any_rule_insertable [of p] by (simp_all add: insertable_def) (simp add: any_rule_def cls_rule_init_def)
  let ?m = "\<lparr>match_flow = replicate 54 0, match_wc = replicate 54 0\<rparr>"
  have "flow_wf (match_flow ?m)" "flow_wf (match_wc ?m)"
    "\<forall>i < FLOW_U32S. match_flow ?m ! i AND match_wc ?m ! i = match_flow ?m ! i"
    by (simp_all add: flow_wf_def FLOW_U32S_eq)
  note f = find_exactly_correct [OF c(1) w(1) this]
  show ?thesis using f [of 7 "hashed (any_rule 7)"] f [of 8] c(2) w(2) by (auto simp: hashed_simps)
qed

text \<open>
  C18. \<^verbatim>\<open>classifier_rule_overlaps\<close> is true exactly when some packet matches both the
  target and a rule of the classifier with the same priority, and \<^verbatim>\<open>cls_rule_is_loose_match\<close> exactly
  when every packet that matches the rule meets the criteria.
\<close>

theorem overlap_packets:
  assumes "cls_step\<^sup>*\<^sup>* classifier_init cls" and "rule_wf target" and "rule_wf r"
  shows "(classifier_rule_overlaps cls target \<longleftrightarrow>
       (\<exists>s \<in> cls_rules cls. priority s = priority target \<and>
          (\<exists>f. flow_wf f \<and> flow_matches f target \<and> flow_matches f s))) \<and>
    (cls_rule_is_loose_match r (rmatch target) \<longleftrightarrow>
       (\<forall>f. flow_wf f \<longrightarrow> flow_matches f r \<longrightarrow> flow_matches f target))"
  using overlaps_in_tables_iff [OF cls_reachable(2) [OF assms(1)] subset_refl tables_sorted [OF cls_reachable(2) [OF assms(1)]] assms(2)]
    loose_match_packets [OF assms(3,2)]
  by (simp add: classifier_rule_overlaps_def rules_in_all)

theorem overlap_packets_witness:
  "\<exists>cls. classifier_rule_overlaps cls (any_rule 7) \<and> \<not> classifier_rule_overlaps cls (any_rule 8)"
proof -
  obtain cls where c: "cls_step\<^sup>*\<^sup>* classifier_init cls" "cls_rules cls = {hashed (any_rule 7)}"
    using any_rule_step [of 7] by metis
  have w: "rule_wf (any_rule p)" "priority (any_rule p) = p" for p
    using any_rule_insertable [of p] by (simp_all add: insertable_def) (simp add: any_rule_def cls_rule_init_def)
  have z: "flow_wf (replicate 54 (0 :: u32))" by (simp add: flow_wf_def FLOW_U32S_eq)
  have "flow_matches (replicate 54 0) (any_rule 7)" "flow_matches (replicate 54 0) (hashed (any_rule 7))"
    using z by (simp_all add: flow_matches_iff any_rule_def cls_rule_init_def minimatch_init_def minimask_init_def expand_init FLOW_U32S_eq)
  then show ?thesis
    using overlap_packets [OF c(1) w(1) w(1), of 7 7] overlap_packets [OF c(1) w(1) w(1), of 8 8] c(2) w(2) z by auto
qed

end
