(* ===== verification/Reconnect.thy ===== *)
theory Reconnect
  imports Prelude "HOL-Library.Signed_Division"
begin

text \<open>
  \<^verbatim>\<open>lib/reconnect.c\<close>: the state machine that tells a client when to connect, probe and disconnect.
  Times (\<^verbatim>\<open>long long int\<close>, milliseconds) and the configured durations are integers; the counters are
  32-bit words, which wrap. Log messages are left out. \<^verbatim>\<open>0\<close> as an action is \<^term>\<open>None\<close>.
\<close>

section \<open>The state machine\<close>

datatype state = S_VOID | S_BACKOFF | S_CONNECTING | S_ACTIVE | S_IDLE | S_RECONNECT | S_LISTENING

datatype reconnect_action = RECONNECT_CONNECT | RECONNECT_DISCONNECT | RECONNECT_PROBE

datatype vlog_level = VLL_INFO | VLL_DBG

definition RECONNECT_DEFAULT_MIN_BACKOFF :: int where "RECONNECT_DEFAULT_MIN_BACKOFF = 1000"

definition RECONNECT_DEFAULT_MAX_BACKOFF :: int where "RECONNECT_DEFAULT_MAX_BACKOFF = 8000"

definition RECONNECT_DEFAULT_PROBE_INTERVAL :: int where "RECONNECT_DEFAULT_PROBE_INTERVAL = 5000"

definition is_connected_state :: "state \<Rightarrow> bool" where
  "is_connected_state st \<longleftrightarrow> st \<in> {S_ACTIVE, S_IDLE}"

record reconnect =
  fsm_name :: string
  min_backoff :: int
  max_backoff :: int
  probe_interval :: int
  is_passive :: bool
  fsm_info :: vlog_level
  fsm_state :: state
  state_entered :: int
  backoff :: int
  last_activity :: int
  last_connected :: int
  last_disconnected :: int
  max_tries :: u32
  creation_time :: int
  n_attempted_connections :: u32
  n_successful_connections :: u32
  total_connected_duration :: u32
  seqno :: u32

definition reconnect_state_name :: "state \<Rightarrow> string" where
  "reconnect_state_name st =
     (case st of S_VOID \<Rightarrow> ''VOID'' | S_BACKOFF \<Rightarrow> ''BACKOFF'' | S_CONNECTING \<Rightarrow> ''CONNECTING''
      | S_ACTIVE \<Rightarrow> ''ACTIVE'' | S_IDLE \<Rightarrow> ''IDLE'' | S_RECONNECT \<Rightarrow> ''RECONNECT''
      | S_LISTENING \<Rightarrow> ''LISTENING'')"

definition reconnect_create :: "int \<Rightarrow> reconnect" where
  "reconnect_create now =
     \<lparr>fsm_name = ''void'', min_backoff = RECONNECT_DEFAULT_MIN_BACKOFF, max_backoff = RECONNECT_DEFAULT_MAX_BACKOFF,
      probe_interval = RECONNECT_DEFAULT_PROBE_INTERVAL, is_passive = False, fsm_info = VLL_INFO,
      fsm_state = S_VOID, state_entered = now, backoff = 0, last_activity = now,
      last_connected = LLONG_MAX, last_disconnected = LLONG_MAX, max_tries = UINT_MAX,
      creation_time = now, n_attempted_connections = 0, n_successful_connections = 0,
      total_connected_duration = 0, seqno = 0\<rparr>"

definition reconnect_set_quiet :: "reconnect \<Rightarrow> bool \<Rightarrow> reconnect" where
  "reconnect_set_quiet fsm quiet = fsm\<lparr>fsm_info := if quiet then VLL_DBG else VLL_INFO\<rparr>"

definition reconnect_get_name :: "reconnect \<Rightarrow> string" where
  "reconnect_get_name fsm = fsm_name fsm"

definition reconnect_set_name :: "reconnect \<Rightarrow> string option \<Rightarrow> reconnect" where
  "reconnect_set_name fsm nm = fsm\<lparr>fsm_name := (case nm of Some n \<Rightarrow> n | None \<Rightarrow> ''void'')\<rparr>"

definition reconnect_get_min_backoff :: "reconnect \<Rightarrow> int" where
  "reconnect_get_min_backoff fsm = min_backoff fsm"

definition reconnect_get_max_backoff :: "reconnect \<Rightarrow> int" where
  "reconnect_get_max_backoff fsm = max_backoff fsm"

definition reconnect_get_probe_interval :: "reconnect \<Rightarrow> int" where
  "reconnect_get_probe_interval fsm = probe_interval fsm"

definition reconnect_set_max_tries :: "reconnect \<Rightarrow> u32 \<Rightarrow> reconnect" where
  "reconnect_set_max_tries fsm n = fsm\<lparr>max_tries := n\<rparr>"

definition reconnect_get_max_tries :: "reconnect \<Rightarrow> u32" where
  "reconnect_get_max_tries fsm = max_tries fsm"

definition reconnect_set_backoff :: "reconnect \<Rightarrow> int \<Rightarrow> int \<Rightarrow> reconnect" where
  "reconnect_set_backoff fsm min_b max_b =
     (let fsm1 = fsm\<lparr>min_backoff := max min_b 1000,
                     max_backoff := if max_b \<noteq> 0 then max max_b 1000 else RECONNECT_DEFAULT_MAX_BACKOFF\<rparr>;
          fsm2 = (if min_backoff fsm1 > max_backoff fsm1
                  then fsm1\<lparr>max_backoff := min_backoff fsm1\<rparr> else fsm1)
      in if fsm_state fsm2 = S_BACKOFF \<and> backoff fsm2 > max_b then fsm2\<lparr>backoff := max_b\<rparr> else fsm2)"

definition reconnect_set_probe_interval :: "reconnect \<Rightarrow> int \<Rightarrow> reconnect" where
  "reconnect_set_probe_interval fsm p = fsm\<lparr>probe_interval := if p \<noteq> 0 then max 1000 p else 0\<rparr>"

definition reconnect_is_passive :: "reconnect \<Rightarrow> bool" where
  "reconnect_is_passive fsm = is_passive fsm"

text \<open>Whether there may be another try, and the state with one try fewer.\<close>

definition reconnect_may_retry :: "reconnect \<Rightarrow> bool \<times> reconnect" where
  "reconnect_may_retry fsm =
     (let may_retry = max_tries fsm > 0
      in (may_retry,
          if may_retry \<and> max_tries fsm \<noteq> UINT_MAX then fsm\<lparr>max_tries := max_tries fsm - 1\<rparr> else fsm))"

definition reconnect_transition :: "reconnect \<Rightarrow> int \<Rightarrow> state \<Rightarrow> reconnect" where
  "reconnect_transition fsm now st =
     (let fsm1 = (if fsm_state fsm = S_CONNECTING
                  then fsm\<lparr>n_attempted_connections := n_attempted_connections fsm + 1,
                           n_successful_connections := n_successful_connections fsm + (if st = S_ACTIVE then 1 else 0)\<rparr>
                  else fsm);
          fsm2 = (if is_connected_state (fsm_state fsm1) \<noteq> is_connected_state st
                  then (if is_connected_state (fsm_state fsm1)
                        then fsm1\<lparr>total_connected_duration :=
                               total_connected_duration fsm1 + word_of_int (now - last_connected fsm1)\<rparr>
                        else fsm1)\<lparr>seqno := seqno fsm1 + 1\<rparr>
                  else fsm1)
      in fsm2\<lparr>fsm_state := st, state_entered := now\<rparr>)"

definition reconnect_set_passive :: "reconnect \<Rightarrow> bool \<Rightarrow> int \<Rightarrow> reconnect" where
  "reconnect_set_passive fsm p now =
     (if is_passive fsm \<noteq> p then
        let fsm1 = fsm\<lparr>is_passive := p\<rparr>;
            (go, fsm2) = (if p then (fsm_state fsm1 \<in> {S_CONNECTING, S_RECONNECT}, fsm1)
                          else if fsm_state fsm1 = S_LISTENING then reconnect_may_retry fsm1
                          else (False, fsm1))
        in if go then (reconnect_transition fsm2 now S_BACKOFF)\<lparr>backoff := 0\<rparr> else fsm2
      else fsm)"

definition reconnect_is_enabled :: "reconnect \<Rightarrow> bool" where
  "reconnect_is_enabled fsm \<longleftrightarrow> fsm_state fsm \<noteq> S_VOID"

definition reconnect_enable :: "reconnect \<Rightarrow> int \<Rightarrow> reconnect" where
  "reconnect_enable fsm now =
     (if fsm_state fsm = S_VOID then
        let (go, fsm1) = reconnect_may_retry fsm
        in if go then (reconnect_transition fsm1 now S_BACKOFF)\<lparr>backoff := 0\<rparr> else fsm1
      else fsm)"

definition reconnect_disable :: "reconnect \<Rightarrow> int \<Rightarrow> reconnect" where
  "reconnect_disable fsm now = (if fsm_state fsm \<noteq> S_VOID then reconnect_transition fsm now S_VOID else fsm)"

definition reconnect_force_reconnect :: "reconnect \<Rightarrow> int \<Rightarrow> reconnect" where
  "reconnect_force_reconnect fsm now =
     (if fsm_state fsm \<in> {S_CONNECTING, S_ACTIVE, S_IDLE} then reconnect_transition fsm now S_RECONNECT else fsm)"

text \<open>The error code only decides what is logged.\<close>

definition reconnect_disconnected :: "reconnect \<Rightarrow> int \<Rightarrow> int \<Rightarrow> reconnect" where
  "reconnect_disconnected fsm now error =
     (if fsm_state fsm \<notin> {S_BACKOFF, S_VOID} then
        let connected = fsm_state fsm \<in> {S_ACTIVE, S_IDLE};
            fsm1 = (if connected then fsm\<lparr>last_disconnected := now\<rparr> else fsm);
            fsm2 = (if connected \<and> (last_activity fsm1 - last_connected fsm1 \<ge> backoff fsm1 \<or> is_passive fsm1)
                    then fsm1\<lparr>backoff := if is_passive fsm1 then 0 else min_backoff fsm1\<rparr>
                    else if backoff fsm1 < min_backoff fsm1 then fsm1\<lparr>backoff := min_backoff fsm1\<rparr>
                    else if backoff fsm1 \<ge> max_backoff fsm1 sdiv 2 then fsm1\<lparr>backoff := max_backoff fsm1\<rparr>
                    else fsm1\<lparr>backoff := backoff fsm1 * 2\<rparr>);
            (retry, fsm3) = reconnect_may_retry fsm2
        in reconnect_transition fsm3 now (if retry then S_BACKOFF else S_VOID)
      else fsm)"

definition reconnect_connecting :: "reconnect \<Rightarrow> int \<Rightarrow> reconnect" where
  "reconnect_connecting fsm now =
     (if fsm_state fsm \<noteq> S_CONNECTING then reconnect_transition fsm now S_CONNECTING else fsm)"

definition reconnect_listening :: "reconnect \<Rightarrow> int \<Rightarrow> reconnect" where
  "reconnect_listening fsm now =
     (if fsm_state fsm \<noteq> S_LISTENING then reconnect_transition fsm now S_LISTENING else fsm)"

definition reconnect_listen_error :: "reconnect \<Rightarrow> int \<Rightarrow> int \<Rightarrow> reconnect" where
  "reconnect_listen_error fsm now error =
     (if fsm_state fsm = S_LISTENING then reconnect_disconnected fsm now error else fsm)"

definition reconnect_connected :: "reconnect \<Rightarrow> int \<Rightarrow> reconnect" where
  "reconnect_connected fsm now =
     (if \<not> is_connected_state (fsm_state fsm)
      then (reconnect_transition (reconnect_connecting fsm now) now S_ACTIVE)\<lparr>last_connected := now\<rparr>
      else fsm)"

definition reconnect_connect_failed :: "reconnect \<Rightarrow> int \<Rightarrow> int \<Rightarrow> reconnect" where
  "reconnect_connect_failed fsm now error = reconnect_disconnected (reconnect_connecting fsm now) now error"

definition reconnect_activity :: "reconnect \<Rightarrow> int \<Rightarrow> reconnect" where
  "reconnect_activity fsm now =
     (if fsm_state fsm \<noteq> S_ACTIVE then reconnect_transition fsm now S_ACTIVE else fsm)\<lparr>last_activity := now\<rparr>"

text \<open>The deadline of the current state; \<^term>\<open>None\<close> when the assertion at its start fails.\<close>

definition reconnect_deadline :: "reconnect \<Rightarrow> int option" where
  "reconnect_deadline fsm =
     (if state_entered fsm = LLONG_MIN then None
      else Some (case fsm_state fsm of
          S_VOID \<Rightarrow> LLONG_MAX
        | S_LISTENING \<Rightarrow> LLONG_MAX
        | S_BACKOFF \<Rightarrow> state_entered fsm + backoff fsm
        | S_CONNECTING \<Rightarrow> state_entered fsm + max 1000 (backoff fsm)
        | S_ACTIVE \<Rightarrow> if probe_interval fsm \<noteq> 0
                     then max (last_activity fsm) (state_entered fsm) + probe_interval fsm else LLONG_MAX
        | S_IDLE \<Rightarrow> if probe_interval fsm \<noteq> 0 then state_entered fsm + probe_interval fsm else LLONG_MAX
        | S_RECONNECT \<Rightarrow> state_entered fsm))"

definition reconnect_run :: "reconnect \<Rightarrow> int \<Rightarrow> (reconnect_action option \<times> reconnect) option" where
  "reconnect_run fsm now =
     (case reconnect_deadline fsm of
        None \<Rightarrow> None
      | Some deadline \<Rightarrow>
          Some (if now \<ge> deadline then
                  (case fsm_state fsm of
                     S_VOID \<Rightarrow> (None, fsm)
                   | S_BACKOFF \<Rightarrow> (Some RECONNECT_CONNECT, fsm)
                   | S_CONNECTING \<Rightarrow> (Some RECONNECT_DISCONNECT, fsm)
                   | S_ACTIVE \<Rightarrow> (Some RECONNECT_PROBE, reconnect_transition fsm now S_IDLE)
                   | S_IDLE \<Rightarrow> (Some RECONNECT_DISCONNECT, fsm)
                   | S_RECONNECT \<Rightarrow> (Some RECONNECT_DISCONNECT, fsm)
                   | S_LISTENING \<Rightarrow> (None, fsm))
                else (None, fsm)))"

definition reconnect_timeout :: "reconnect \<Rightarrow> int \<Rightarrow> int option" where
  "reconnect_timeout fsm now =
     (case reconnect_deadline fsm of
        None \<Rightarrow> None
      | Some deadline \<Rightarrow> Some (if deadline \<noteq> LLONG_MAX then max 0 (min INT_MAX (deadline - now)) else - 1))"

definition reconnect_is_connected :: "reconnect \<Rightarrow> bool" where
  "reconnect_is_connected fsm = is_connected_state (fsm_state fsm)"

definition reconnect_get_last_connect_elapsed :: "reconnect \<Rightarrow> int \<Rightarrow> u32" where
  "reconnect_get_last_connect_elapsed fsm now =
     (if last_connected fsm = LLONG_MAX then UINT_MAX else word_of_int (now - last_connected fsm))"

definition reconnect_get_last_disconnect_elapsed :: "reconnect \<Rightarrow> int \<Rightarrow> u32" where
  "reconnect_get_last_disconnect_elapsed fsm now =
     (if last_disconnected fsm = LLONG_MAX then UINT_MAX else word_of_int (now - last_disconnected fsm))"

record reconnect_stats =
  st_creation_time :: int
  st_last_activity :: int
  st_last_connected :: int
  st_last_disconnected :: int
  st_backoff :: int
  st_seqno :: u32
  st_is_connected :: bool
  st_msec_since_connect :: u32
  st_msec_since_disconnect :: u32
  st_total_connected_duration :: u32
  st_n_attempted_connections :: u32
  st_n_successful_connections :: u32
  st_state :: string
  st_state_elapsed :: u32

definition reconnect_get_stats :: "reconnect \<Rightarrow> int \<Rightarrow> reconnect_stats" where
  "reconnect_get_stats fsm now =
     \<lparr>st_creation_time = creation_time fsm, st_last_activity = last_activity fsm,
      st_last_connected = last_connected fsm, st_last_disconnected = last_disconnected fsm,
      st_backoff = backoff fsm, st_seqno = seqno fsm, st_is_connected = reconnect_is_connected fsm,
      st_msec_since_connect = reconnect_get_last_connect_elapsed fsm now,
      st_msec_since_disconnect = reconnect_get_last_disconnect_elapsed fsm now,
      st_total_connected_duration = total_connected_duration fsm +
        (if is_connected_state (fsm_state fsm) then reconnect_get_last_connect_elapsed fsm now else 0),
      st_n_attempted_connections = n_attempted_connections fsm,
      st_n_successful_connections = n_successful_connections fsm,
      st_state = reconnect_state_name (fsm_state fsm),
      st_state_elapsed = word_of_int (now - state_entered fsm)\<rparr>"

section \<open>Lemmas on the operations\<close>

lemma sdiv_two: "0 \<le> n \<Longrightarrow> n sdiv 2 = n div (2 :: int)"
  by (cases "n = 0") (simp_all add: signed_divide_int_def)

lemma may_retry_simps [simp]:
  "fst (reconnect_may_retry fsm) \<longleftrightarrow> 0 < max_tries fsm"
  "fsm_state (snd (reconnect_may_retry fsm)) = fsm_state fsm" "backoff (snd (reconnect_may_retry fsm)) = backoff fsm"
  "min_backoff (snd (reconnect_may_retry fsm)) = min_backoff fsm" "max_backoff (snd (reconnect_may_retry fsm)) = max_backoff fsm"
  "probe_interval (snd (reconnect_may_retry fsm)) = probe_interval fsm" "seqno (snd (reconnect_may_retry fsm)) = seqno fsm"
  "state_entered (snd (reconnect_may_retry fsm)) = state_entered fsm" "is_passive (snd (reconnect_may_retry fsm)) = is_passive fsm"
  "last_activity (snd (reconnect_may_retry fsm)) = last_activity fsm"
  by (simp_all add: reconnect_may_retry_def Let_def)

lemma transition_simps [simp]:
  "fsm_state (reconnect_transition fsm now st) = st" "state_entered (reconnect_transition fsm now st) = now"
  "backoff (reconnect_transition fsm now st) = backoff fsm"
  "min_backoff (reconnect_transition fsm now st) = min_backoff fsm"
  "max_backoff (reconnect_transition fsm now st) = max_backoff fsm"
  "probe_interval (reconnect_transition fsm now st) = probe_interval fsm"
  "is_passive (reconnect_transition fsm now st) = is_passive fsm"
  "last_activity (reconnect_transition fsm now st) = last_activity fsm"
  "max_tries (reconnect_transition fsm now st) = max_tries fsm"
  by (simp_all add: reconnect_transition_def Let_def)

lemma transition_seqno:
  "seqno (reconnect_transition fsm now st) =
     (if is_connected_state (fsm_state fsm) \<noteq> is_connected_state st then seqno fsm + 1 else seqno fsm)"
  by (simp add: reconnect_transition_def Let_def)

text \<open>The next backoff after a failed attempt.\<close>

definition next_backoff :: "reconnect \<Rightarrow> int" where
  "next_backoff fsm =
     (if backoff fsm < min_backoff fsm then min_backoff fsm
      else if backoff fsm \<ge> max_backoff fsm div 2 then max_backoff fsm else backoff fsm * 2)"

definition reconnect_inv :: "reconnect \<Rightarrow> bool" where
  "reconnect_inv fsm \<longleftrightarrow> 1000 \<le> min_backoff fsm \<and> min_backoff fsm \<le> max_backoff fsm \<and>
     (probe_interval fsm = 0 \<or> 1000 \<le> probe_interval fsm) \<and> 0 \<le> backoff fsm \<and>
     (odd (seqno fsm) \<longleftrightarrow> reconnect_is_connected fsm) \<and> state_entered fsm \<noteq> LLONG_MIN"

lemma next_backoff_bounds:
  assumes "reconnect_inv fsm"
  shows "min_backoff fsm \<le> next_backoff fsm" and "next_backoff fsm \<le> max_backoff fsm"
    and "min_backoff fsm \<le> backoff fsm \<Longrightarrow> min (max_backoff fsm) (2 * backoff fsm) \<le> next_backoff fsm"
  using assms by (auto simp: next_backoff_def reconnect_inv_def)

lemma disconnected_backoff:
  assumes "reconnect_inv fsm" and "fsm_state fsm \<notin> {S_BACKOFF, S_VOID}"
  shows "backoff (reconnect_disconnected fsm now e) =
    (if reconnect_is_connected fsm \<and> (last_activity fsm - last_connected fsm \<ge> backoff fsm \<or> is_passive fsm)
     then if is_passive fsm then 0 else min_backoff fsm else next_backoff fsm)"
  using assms
  by (simp add: reconnect_disconnected_def Let_def split_beta sdiv_two next_backoff_def
      reconnect_inv_def reconnect_is_connected_def is_connected_state_def)

lemma disconnected_simps:
  assumes "fsm_state fsm \<notin> {S_BACKOFF, S_VOID}"
  shows "fsm_state (reconnect_disconnected fsm now e) = (if 0 < max_tries fsm then S_BACKOFF else S_VOID)"
    and "state_entered (reconnect_disconnected fsm now e) = now"
    and "odd (seqno (reconnect_disconnected fsm now e)) \<longleftrightarrow>
       odd (seqno fsm) \<noteq> is_connected_state (fsm_state fsm)"
  using assms
  by (simp_all add: reconnect_disconnected_def Let_def split_beta transition_seqno is_connected_state_def)

lemma disconnected_config [simp]:
  "min_backoff (reconnect_disconnected fsm now e) = min_backoff fsm"
  "max_backoff (reconnect_disconnected fsm now e) = max_backoff fsm"
  "probe_interval (reconnect_disconnected fsm now e) = probe_interval fsm"
  by (simp_all add: reconnect_disconnected_def Let_def split_beta)

section \<open>Reachable states\<close>

inductive reconnect_step :: "reconnect \<Rightarrow> reconnect \<Rightarrow> bool" where
  step_quiet: "reconnect_step fsm (reconnect_set_quiet fsm q)"
| step_name: "reconnect_step fsm (reconnect_set_name fsm n)"
| step_tries: "reconnect_step fsm (reconnect_set_max_tries fsm k)"
| step_backoff: "0 \<le> max_b \<Longrightarrow> reconnect_step fsm (reconnect_set_backoff fsm min_b max_b)"
| step_probe: "reconnect_step fsm (reconnect_set_probe_interval fsm p)"
| step_passive: "now \<noteq> LLONG_MIN \<Longrightarrow> reconnect_step fsm (reconnect_set_passive fsm b now)"
| step_enable: "now \<noteq> LLONG_MIN \<Longrightarrow> reconnect_step fsm (reconnect_enable fsm now)"
| step_disable: "now \<noteq> LLONG_MIN \<Longrightarrow> reconnect_step fsm (reconnect_disable fsm now)"
| step_force: "now \<noteq> LLONG_MIN \<Longrightarrow> reconnect_step fsm (reconnect_force_reconnect fsm now)"
| step_disconnected: "now \<noteq> LLONG_MIN \<Longrightarrow> reconnect_step fsm (reconnect_disconnected fsm now e)"
| step_connecting: "now \<noteq> LLONG_MIN \<Longrightarrow> reconnect_step fsm (reconnect_connecting fsm now)"
| step_listening: "now \<noteq> LLONG_MIN \<Longrightarrow> reconnect_step fsm (reconnect_listening fsm now)"
| step_listen_error: "now \<noteq> LLONG_MIN \<Longrightarrow> reconnect_step fsm (reconnect_listen_error fsm now e)"
| step_connected: "now \<noteq> LLONG_MIN \<Longrightarrow> reconnect_step fsm (reconnect_connected fsm now)"
| step_connect_failed: "now \<noteq> LLONG_MIN \<Longrightarrow> reconnect_step fsm (reconnect_connect_failed fsm now e)"
| step_activity: "now \<noteq> LLONG_MIN \<Longrightarrow> reconnect_step fsm (reconnect_activity fsm now)"
| step_run: "now \<noteq> LLONG_MIN \<Longrightarrow> reconnect_run fsm now = Some (act, fsm') \<Longrightarrow> reconnect_step fsm fsm'"

lemma transition_inv:
  assumes "reconnect_inv fsm" and "now \<noteq> LLONG_MIN"
  shows "reconnect_inv (reconnect_transition fsm now st)"
  using assms by (simp add: reconnect_inv_def transition_seqno reconnect_is_connected_def)

lemma may_retry_inv: "reconnect_inv fsm \<Longrightarrow> reconnect_inv (snd (reconnect_may_retry fsm))"
  by (simp add: reconnect_inv_def reconnect_is_connected_def)

lemma backoff_zero_inv: "reconnect_inv fsm \<Longrightarrow> reconnect_inv (fsm\<lparr>backoff := 0\<rparr>)"
  by (simp add: reconnect_inv_def reconnect_is_connected_def)

lemma disconnected_inv:
  assumes "reconnect_inv fsm" and "now \<noteq> LLONG_MIN"
  shows "reconnect_inv (reconnect_disconnected fsm now e)"
proof (cases "fsm_state fsm \<in> {S_BACKOFF, S_VOID}")
  case True
  then show ?thesis using assms(1) by (simp add: reconnect_disconnected_def)
next
  case False
  have "0 \<le> backoff (reconnect_disconnected fsm now e)"
    using disconnected_backoff [OF assms(1) False] next_backoff_bounds [OF assms(1)] assms(1)
    by (auto simp: reconnect_inv_def)
  moreover have "\<not> odd (seqno (reconnect_disconnected fsm now e))" 
    unfolding disconnected_simps(3) [OF False] using assms(1) by (auto simp: reconnect_inv_def reconnect_is_connected_def)
  ultimately show ?thesis
    using assms disconnected_simps(1,2) [OF False] by (auto simp: reconnect_inv_def reconnect_is_connected_def is_connected_state_def)
qed

lemma connecting_inv:
  assumes "reconnect_inv fsm" and "now \<noteq> LLONG_MIN"
  shows "reconnect_inv (reconnect_connecting fsm now)"
  using assms transition_inv by (simp add: reconnect_connecting_def)

lemma set_passive_inv:
  assumes "reconnect_inv fsm" and "now \<noteq> LLONG_MIN"
  shows "reconnect_inv (reconnect_set_passive fsm b now)"
proof -
  have p: "reconnect_inv (fsm\<lparr>is_passive := b\<rparr>)"
    using assms(1) by (simp add: reconnect_inv_def reconnect_is_connected_def)
  show ?thesis
    using assms p may_retry_inv [OF p] backoff_zero_inv transition_inv
    by (cases b) (auto simp: reconnect_set_passive_def Let_def split_beta)
qed

lemma enable_inv:
  assumes "reconnect_inv fsm" and "now \<noteq> LLONG_MIN"
  shows "reconnect_inv (reconnect_enable fsm now)"
  using assms may_retry_inv backoff_zero_inv transition_inv
  by (simp add: reconnect_enable_def Let_def split_beta)

lemma set_backoff_inv:
  assumes "reconnect_inv fsm" and "0 \<le> max_b"
  shows "reconnect_inv (reconnect_set_backoff fsm min_b max_b)"
  using assms by (auto simp: reconnect_inv_def reconnect_set_backoff_def Let_def reconnect_is_connected_def
      RECONNECT_DEFAULT_MAX_BACKOFF_def split: if_splits)

lemma run_inv:
  assumes "reconnect_inv fsm" and "now \<noteq> LLONG_MIN" and "reconnect_run fsm now = Some (act, fsm')"
  shows "reconnect_inv fsm'"
  using assms transition_inv [OF assms(1,2)]
  by (auto simp: reconnect_run_def split: option.splits if_splits state.splits)

lemma field_inv:
  assumes "reconnect_inv fsm"
  shows "reconnect_inv (fsm\<lparr>last_connected := t\<rparr>)" "reconnect_inv (fsm\<lparr>last_activity := t\<rparr>)"
    "reconnect_inv (reconnect_set_quiet fsm q)" "reconnect_inv (reconnect_set_name fsm n)"
    "reconnect_inv (reconnect_set_max_tries fsm k)" "reconnect_inv (reconnect_set_probe_interval fsm p)"
  using assms
  by (simp_all add: reconnect_inv_def reconnect_is_connected_def reconnect_set_quiet_def reconnect_set_name_def
      reconnect_set_max_tries_def reconnect_set_probe_interval_def)

lemmas reconnect_ops_inv = transition_inv disconnected_inv connecting_inv set_passive_inv enable_inv set_backoff_inv field_inv

lemma reconnect_step_inv:
  assumes "reconnect_step fsm fsm'" and "reconnect_inv fsm"
  shows "reconnect_inv fsm'"
  using assms
  by cases (simp_all add: reconnect_ops_inv run_inv reconnect_disable_def reconnect_force_reconnect_def
      reconnect_listening_def reconnect_listen_error_def reconnect_connected_def
      reconnect_connect_failed_def reconnect_activity_def)

lemma create_inv: "now \<noteq> LLONG_MIN \<Longrightarrow> reconnect_inv (reconnect_create now)"
  by (simp add: reconnect_inv_def reconnect_create_def reconnect_is_connected_def is_connected_state_def
      RECONNECT_DEFAULT_MAX_BACKOFF_def RECONNECT_DEFAULT_MIN_BACKOFF_def RECONNECT_DEFAULT_PROBE_INTERVAL_def)

interpretation reconnect_system: transition_system
  "\<lambda>fsm. \<exists>now. now \<noteq> LLONG_MIN \<and> fsm = reconnect_create now" reconnect_step reconnect_inv
  by unfold_locales (auto intro: create_inv reconnect_step_inv)

lemma deadline_Some: "reconnect_inv fsm \<Longrightarrow> \<exists>d. reconnect_deadline fsm = Some d"
  by (simp add: reconnect_deadline_def reconnect_inv_def)

lemma reconnect_reachable:
  assumes "now0 \<noteq> LLONG_MIN" and "reconnect_step\<^sup>*\<^sup>* (reconnect_create now0) fsm"
  shows "reconnect_inv fsm"
  using reconnect_system.inv_reachable [OF _ assms(2)] assms(1) by blast

lemma connect_failed_backoff:
  assumes "reconnect_inv fsm" and "now \<noteq> LLONG_MIN"
  shows "reconnect_inv (reconnect_connect_failed fsm now e)"
    and "backoff (reconnect_connect_failed fsm now e) = next_backoff fsm"
    and "min_backoff (reconnect_connect_failed fsm now e) = min_backoff fsm"
    and "max_backoff (reconnect_connect_failed fsm now e) = max_backoff fsm"
proof -
  let ?f = "reconnect_connecting fsm now"
  have c: "fsm_state ?f = S_CONNECTING" "backoff ?f = backoff fsm" "min_backoff ?f = min_backoff fsm"
    "max_backoff ?f = max_backoff fsm" by (simp_all add: reconnect_connecting_def)
  have i: "reconnect_inv ?f" using connecting_inv [OF assms] .
  show "reconnect_inv (reconnect_connect_failed fsm now e)"
    using disconnected_inv [OF i assms(2)] by (simp add: reconnect_connect_failed_def)
  show "backoff (reconnect_connect_failed fsm now e) = next_backoff fsm"
    using disconnected_backoff [OF i, of now e] c
    by (simp add: reconnect_connect_failed_def reconnect_is_connected_def is_connected_state_def next_backoff_def)
  show "min_backoff (reconnect_connect_failed fsm now e) = min_backoff fsm"
    "max_backoff (reconnect_connect_failed fsm now e) = max_backoff fsm"
    using c by (simp_all add: reconnect_connect_failed_def)
qed

text \<open>The backoff after \<open>n + 1\<close> failures in a row, from a backoff of \<open>b\<close> that is not below the minimum.\<close>

definition doubled :: "int \<Rightarrow> int \<Rightarrow> nat \<Rightarrow> int" where
  "doubled b mx n = (if b * 2 ^ n < mx div 2 then b * 2 ^ Suc n else mx)"

lemma doubled_step:
  assumes "0 < b" and "b \<le> mx"
  shows "(if doubled b mx n \<ge> mx div 2 then mx else 2 * doubled b mx n) = doubled b mx (Suc n)" and "b \<le> doubled b mx n"
proof -
  have "(1 :: int) \<le> 2 ^ Suc n" by (rule one_le_power) simp
  then have le: "b * 2 ^ n \<le> b * 2 ^ Suc n" "b \<le> b * 2 ^ Suc n" using assms(1) by (simp_all add: mult_le_cancel_left1)
  have half: "mx div 2 \<le> mx" using assms by simp
  show "(if doubled b mx n \<ge> mx div 2 then mx else 2 * doubled b mx n) = doubled b mx (Suc n)"
    using le(1) half by (auto simp: doubled_def)
  show "b \<le> doubled b mx n" using le(2) assms(2) by (simp add: doubled_def)
qed

lemma connect_failed_from:
  assumes "reconnect_inv fsm" and "now \<noteq> LLONG_MIN" and "min_backoff fsm \<le> backoff fsm" and "backoff fsm \<le> max_backoff fsm"
    and "fsm' = ((\<lambda>f. reconnect_connect_failed f now e) ^^ Suc n) fsm"
  shows "reconnect_inv fsm' \<and> min_backoff fsm' = min_backoff fsm \<and> max_backoff fsm' = max_backoff fsm \<and>
    backoff fsm' = doubled (backoff fsm) (max_backoff fsm) n"
  using assms(5)
proof (induction n arbitrary: fsm')
  case 0
  then show ?case using connect_failed_backoff [OF assms(1,2), of e] assms(3) by (simp add: next_backoff_def doubled_def)
next
  case (Suc n)
  define g where "g = ((\<lambda>f. reconnect_connect_failed f now e) ^^ Suc n) fsm"
  have f: "fsm' = reconnect_connect_failed g now e" using Suc.prems by (simp add: g_def)
  have g: "reconnect_inv g" "min_backoff g = min_backoff fsm" "max_backoff g = max_backoff fsm"
    "backoff g = doubled (backoff fsm) (max_backoff fsm) n" using Suc.IH [OF g_def] by simp_all
  have pos: "0 < backoff fsm" using assms(1,3) by (simp add: reconnect_inv_def)
  have "backoff fsm' = next_backoff g" using connect_failed_backoff [OF g(1) assms(2), of e] by (simp add: f)
  also have "\<dots> = doubled (backoff fsm) (max_backoff fsm) (Suc n)"
    using doubled_step [OF pos assms(4), of n] assms(3) by (auto simp: next_backoff_def g split: if_splits)
  finally show ?case using connect_failed_backoff [OF g(1) assms(2), of e] g by (simp add: f)
qed

section \<open>Properties\<close>

text \<open>
  C6. In every state the client can bring the machine to, the configured
  durations are in their documented ranges, the backoff is not negative, the sequence number is odd
  exactly while connected (it counts connections and disconnections), and neither \<^verbatim>\<open>reconnect_run\<close>
  nor \<^verbatim>\<open>reconnect_timeout\<close> fails an assertion.
\<close>

theorem reconnect_invariant:
  assumes "now0 \<noteq> LLONG_MIN" and "reconnect_step\<^sup>*\<^sup>* (reconnect_create now0) fsm"
  shows "1000 \<le> min_backoff fsm \<and> min_backoff fsm \<le> max_backoff fsm \<and>
    (probe_interval fsm = 0 \<or> 1000 \<le> probe_interval fsm) \<and> 0 \<le> backoff fsm \<and>
    (odd (seqno fsm) \<longleftrightarrow> reconnect_is_connected fsm) \<and>
    reconnect_run fsm now \<noteq> None \<and> reconnect_timeout fsm now \<noteq> None"
  using reconnect_reachable [OF assms] deadline_Some [OF reconnect_reachable [OF assms]]
  by (auto simp: reconnect_inv_def reconnect_run_def reconnect_timeout_def)

theorem reconnect_invariant_witness:
  "reconnect_run (reconnect_connected (reconnect_create 5) 7) 9 \<noteq> None \<and>
   odd (seqno (reconnect_connected (reconnect_create 5) 7))"
proof -
  have "reconnect_step\<^sup>*\<^sup>* (reconnect_create 5) (reconnect_connected (reconnect_create 5) 7)"
    using step_connected [of 7 "reconnect_create 5"] by (auto simp: LLONG_MIN_def)
  from reconnect_invariant [OF _ this, of 9] show ?thesis
    by (simp add: LLONG_MIN_def reconnect_connected_def reconnect_create_def reconnect_is_connected_def is_connected_state_def)
qed

text \<open>
  C26. Consecutive failed attempts double the backoff up to the maximum. A machine whose backoff
  is below the minimum, as a new one is, waits for the minimum after the first failure. From a backoff that is
  not below the minimum, \<open>n + 1\<close> failures multiply it by \<open>2 ^ (n + 1)\<close>, or set it to the maximum once one
  more doubling would reach it.
\<close>

theorem reconnect_backoff_grows:
  assumes "reconnect_inv fsm" and "now \<noteq> LLONG_MIN"
    and "fsm' = ((\<lambda>f. reconnect_connect_failed f now e) ^^ Suc n) fsm"
  shows "backoff fsm' =
      (if backoff fsm < min_backoff fsm then
         (if n = 0 then min_backoff fsm
          else if min_backoff fsm * 2 ^ (n - 1) < max_backoff fsm div 2 then min_backoff fsm * 2 ^ n else max_backoff fsm)
       else if backoff fsm * 2 ^ n < max_backoff fsm div 2 then backoff fsm * 2 ^ Suc n else max_backoff fsm) \<and>
    min_backoff fsm \<le> backoff fsm' \<and> backoff fsm' \<le> max_backoff fsm"
proof -
  let ?fail = "\<lambda>f. reconnect_connect_failed f now e"
  define g where "g = ?fail fsm"
  note c = connect_failed_backoff [OF assms(1,2), of e, folded g_def]
  have b: "min_backoff g \<le> backoff g" "backoff g \<le> max_backoff g" "0 < min_backoff fsm"
    using next_backoff_bounds [OF assms(1)] c assms(1) by (simp_all add: reconnect_inv_def)
  have fsm': "fsm' = (?fail ^^ n) g" using funpow_Suc_right [of n ?fail] assms(3) by (simp only: g_def comp_apply)
  show ?thesis
  proof (cases n)
    case 0
    then have "backoff fsm' = next_backoff fsm" using fsm' c by simp
    then show ?thesis using next_backoff_bounds [OF assms(1)] 0 by (simp add: next_backoff_def)
  next
    case (Suc m)
    have d: "backoff fsm' = doubled (backoff g) (max_backoff fsm) m"
      using connect_failed_from [OF c(1) assms(2) b(1,2), of fsm' m e] fsm' c Suc by simp
    have bounds: "min_backoff fsm \<le> backoff fsm'" "backoff fsm' \<le> max_backoff fsm"
      unfolding d using doubled_step(2) [of "backoff g" "max_backoff fsm" m] b c(3,4) by (auto simp: doubled_def)
    show ?thesis
    proof (cases "backoff fsm < min_backoff fsm")
      case True
      then show ?thesis using d bounds c(2) Suc by (simp add: next_backoff_def doubled_def)
    next
      case False
      have "doubled (backoff g) (max_backoff fsm) m = doubled (backoff fsm) (max_backoff fsm) n"
      proof (cases "max_backoff fsm div 2 \<le> backoff fsm")
        case True
        have pow: "backoff fsm \<le> backoff fsm * 2 ^ n" "max_backoff fsm \<le> max_backoff fsm * 2 ^ m"
          using False b c(3,4) by (simp_all add: mult_le_cancel_left1)
        have "max_backoff fsm div 2 \<le> max_backoff fsm" using b c(3,4) by simp
        then show ?thesis using True False pow c(2) by (simp add: next_backoff_def doubled_def)
      next
        case small: False
        then have "backoff g = backoff fsm * 2" using False c(2) by (simp add: next_backoff_def)
        then show ?thesis using Suc by (simp add: doubled_def mult.assoc)
      qed
      then show ?thesis using d bounds False by (simp add: doubled_def)
    qed
  qed
qed

theorem reconnect_backoff_grows_witness:
  "backoff (((\<lambda>f. reconnect_connect_failed f 20 0) ^^ Suc 2) (reconnect_create 10)) = 4000"
proof -
  have "reconnect_inv (reconnect_create 10)" by (simp add: create_inv LLONG_MIN_def)
  moreover have "min_backoff (reconnect_create 10) = 1000" "max_backoff (reconnect_create 10) = 8000" "backoff (reconnect_create 10) = 0"
    by (simp_all add: reconnect_create_def RECONNECT_DEFAULT_MAX_BACKOFF_def RECONNECT_DEFAULT_MIN_BACKOFF_def)
  ultimately show ?thesis
    using reconnect_backoff_grows [where fsm = "reconnect_create 10" and now = 20 and e = 0 and n = 2, OF _ _ refl]
    by (simp add: LLONG_MIN_def)
qed

text \<open>
  C11. Keepalive: while connected and with a probe interval, nothing is asked for
  until the interval has passed since the last activity; then a probe is asked for, and, unless
  activity is reported, a disconnection when the interval has passed again. Activity puts
  the machine back where it was.
\<close>

theorem reconnect_keepalive:
  assumes "reconnect_inv fsm" and "fsm_state fsm = S_ACTIVE" and "0 < probe_interval fsm"
    and "base = max (last_activity fsm) (state_entered fsm)" and "t \<noteq> LLONG_MIN"
  shows "if t < base + probe_interval fsm then reconnect_run fsm t = Some (None, fsm)
    else \<exists>fsm'. reconnect_run fsm t = Some (Some RECONNECT_PROBE, fsm') \<and> fsm_state fsm' = S_IDLE \<and>
      seqno fsm' = seqno fsm \<and>
      (\<forall>u. reconnect_run fsm' u =
         Some (if u < t + probe_interval fsm then None else Some RECONNECT_DISCONNECT, fsm')) \<and>
      (\<forall>u. fsm_state (reconnect_activity fsm' u) = S_ACTIVE \<and> last_activity (reconnect_activity fsm' u) = u \<and>
         state_entered (reconnect_activity fsm' u) = u)"
  using assms
  by (simp add: reconnect_run_def reconnect_deadline_def reconnect_inv_def transition_seqno is_connected_state_def
      reconnect_activity_def)

theorem reconnect_keepalive_witness:
  "\<exists>fsm'. reconnect_run (reconnect_connected (reconnect_create 5) 7) 5007 = Some (Some RECONNECT_PROBE, fsm')"
proof -
  let ?f = "reconnect_connected (reconnect_create 5) 7"
  have "reconnect_inv ?f"
    using reconnect_step_inv [OF step_connected create_inv, of 7 5] by (simp add: LLONG_MIN_def)
  moreover have "fsm_state ?f = S_ACTIVE" "probe_interval ?f = 5000" "last_activity ?f = 5" "state_entered ?f = 7"
    by (simp_all add: reconnect_connected_def reconnect_create_def is_connected_state_def reconnect_connecting_def
        RECONNECT_DEFAULT_PROBE_INTERVAL_def)
  ultimately show ?thesis using reconnect_keepalive [of ?f 7 5007] by (auto simp: LLONG_MIN_def)
qed

text \<open>
  C17. \<^verbatim>\<open>reconnect_timeout\<close> neither oversleeps nor loses a wakeup: before the time it
  gives, \<^verbatim>\<open>reconnect_run\<close> asks for nothing and changes nothing, from that time on it asks for an
  action, and a negative timeout means that there is nothing to do at any time. (The result is
  cut at \<^verbatim>\<open>INT_MAX\<close>, after which the client asks again.)
\<close>

theorem reconnect_wakeup:
  assumes "reconnect_inv fsm" and "reconnect_timeout fsm now = Some t" and "now \<le> u" and "u < LLONG_MAX"
  shows "(t < 0 \<longrightarrow> reconnect_run fsm u = Some (None, fsm)) \<and>
    (0 \<le> t \<and> u < now + t \<longrightarrow> reconnect_run fsm u = Some (None, fsm)) \<and>
    (0 \<le> t \<and> t < INT_MAX \<and> now + t \<le> u \<longrightarrow> (\<exists>act fsm'. reconnect_run fsm u = Some (Some act, fsm')))"
proof -
  obtain d where d: "reconnect_deadline fsm = Some d" using deadline_Some [OF assms(1)] by blast
  have t: "t = (if d \<noteq> LLONG_MAX then max 0 (min INT_MAX (d - now)) else - 1)"
    using assms(2) d by (simp add: reconnect_timeout_def)
  have idle: "reconnect_run fsm u = Some (None, fsm)" if "u < d"
    using that d by (simp add: reconnect_run_def)
  have act: "\<exists>act fsm'. reconnect_run fsm u = Some (Some act, fsm')" if "d \<le> u"
  proof -
    have "fsm_state fsm \<noteq> S_VOID" "fsm_state fsm \<noteq> S_LISTENING"
      using that assms(4) d by (auto simp: reconnect_deadline_def split: if_splits)
    then show ?thesis using that d by (cases "fsm_state fsm") (simp_all add: reconnect_run_def)
  qed
  show ?thesis using t idle act assms(3,4) by (auto simp: INT_MAX_def split: if_splits)
qed

theorem reconnect_wakeup_witness:
  "reconnect_timeout (reconnect_enable (reconnect_create 5) 5) 5 = Some 0 \<and>
   (\<exists>act fsm'. reconnect_run (reconnect_enable (reconnect_create 5) 5) 6 = Some (Some act, fsm'))"
proof -
  let ?f = "reconnect_enable (reconnect_create 5) 5"
  have i: "reconnect_inv ?f" by (simp add: enable_inv create_inv LLONG_MIN_def)
  have "reconnect_timeout ?f 5 = Some 0"
    by (simp add: reconnect_timeout_def reconnect_deadline_def reconnect_enable_def reconnect_create_def
        reconnect_may_retry_def reconnect_transition_def is_connected_state_def UINT_MAX_def word_gt_0 LLONG_MIN_def LLONG_MAX_def INT_MAX_def Let_def)
  with reconnect_wakeup [OF i this, of 6] show ?thesis by (simp add: LLONG_MAX_def INT_MAX_def)
qed

text \<open>
  C34. The comment at \<^verbatim>\<open>reconnect_set_backoff\<close> says that 0 as \<^verbatim>\<open>max_backoff\<close> means
  the default. The stored maximum is the default then, but a machine that is waiting has its current
  backoff compared with the argument and set to 0, below the minimum, so that
  \<^verbatim>\<open>reconnect_run\<close> asks for a new connection at once.
\<close>

theorem set_backoff_default_bug:
  assumes "reconnect_inv fsm" and "fsm_state fsm = S_BACKOFF" and "0 < backoff fsm" and "state_entered fsm \<le> now"
    and "fsm' = reconnect_set_backoff fsm 0 0"
  shows "min_backoff fsm' = RECONNECT_DEFAULT_MIN_BACKOFF \<and> max_backoff fsm' = RECONNECT_DEFAULT_MAX_BACKOFF \<and>
    backoff fsm' = 0 \<and> reconnect_run fsm' now = Some (Some RECONNECT_CONNECT, fsm')"
  using assms
  by (simp add: reconnect_set_backoff_def RECONNECT_DEFAULT_MIN_BACKOFF_def RECONNECT_DEFAULT_MAX_BACKOFF_def
      reconnect_run_def reconnect_deadline_def reconnect_inv_def)

theorem set_backoff_default_bug_witness:
  "backoff (reconnect_connect_failed (reconnect_create 5) 7 0) = 1000 \<and>
   backoff (reconnect_set_backoff (reconnect_connect_failed (reconnect_create 5) 7 0) 0 0) = 0"
proof -
  let ?f = "reconnect_connect_failed (reconnect_create 5) 7 0"
  have i: "reconnect_inv (reconnect_create 5)" by (simp add: create_inv LLONG_MIN_def)
  have n: "(7 :: int) \<noteq> LLONG_MIN" by (simp add: LLONG_MIN_def)
  note c = connect_failed_backoff [OF i n, of 0]
  have b: "backoff ?f = 1000"
    using c(2) by (simp add: next_backoff_def reconnect_create_def RECONNECT_DEFAULT_MIN_BACKOFF_def)
  have "fsm_state (reconnect_connecting (reconnect_create 5) 7) = S_CONNECTING"
    "max_tries (reconnect_connecting (reconnect_create 5) 7) = - 1"
    by (simp_all add: reconnect_connecting_def reconnect_create_def UINT_MAX_def)
  then have "fsm_state ?f = S_BACKOFF" "state_entered ?f = 7"
    using disconnected_simps(1,2) [of "reconnect_connecting (reconnect_create 5) 7" 7 0]
    by (simp_all add: reconnect_connect_failed_def word_gt_0)
  then show ?thesis using set_backoff_default_bug [OF c(1), of 7] b by simp
qed

end
