(* ===== verification/Packets.thy ===== *)
theory Packets
  imports Prelude
begin

text \<open>
  Ethernet addresses (\<^verbatim>\<open>lib/packets.h\<close>), as lists of six bytes, and the big-endian numbers that protocols put on the wire.
\<close>

section \<open>Addresses\<close>

type_synonym eth_addr = "u8 list"

definition eth_addr_is_multicast :: "eth_addr \<Rightarrow> bool" where
  "eth_addr_is_multicast ea \<longleftrightarrow> ea ! 0 AND 1 \<noteq> 0"

definition eth_addr_is_broadcast :: "eth_addr \<Rightarrow> bool" where
  "eth_addr_is_broadcast ea \<longleftrightarrow> ea ! 0 AND ea ! 1 AND ea ! 2 AND ea ! 3 AND ea ! 4 AND ea ! 5 = 0xff"

definition eth_addr_equals :: "eth_addr \<Rightarrow> eth_addr \<Rightarrow> bool" where
  "eth_addr_equals a b \<longleftrightarrow> a = b"

section \<open>Byte order\<close>

definition be_bytes :: "nat \<Rightarrow> 'a::len word \<Rightarrow> u8 list" where
  "be_bytes n v = map (\<lambda>i. ucast (drop_bit (8 * (n - 1 - i)) v)) [0..<n]"

definition of_be :: "u8 list \<Rightarrow> 'a::len word" where
  "of_be bs = foldl (\<lambda>acc b. push_bit 8 acc OR ucast b) 0 bs"

lemma length_be_bytes [simp]: "length (be_bytes n v) = n"
  by (simp add: be_bytes_def)

lemma bit_of_be:
  "bit (of_be bs :: 'a::len word) k \<longleftrightarrow>
     k < LENGTH('a) \<and> k < 8 * length bs \<and> bit (bs ! (length bs - 1 - k div 8)) (k mod 8)"
proof (induction bs arbitrary: k rule: rev_induct)
  case Nil
  then show ?case by (simp add: of_be_def)
next
  case (snoc b bs)
  have s: "(of_be (bs @ [b]) :: 'a word) = push_bit 8 (of_be bs) OR ucast b" by (simp add: of_be_def)
  show ?case
  proof (cases "k < 8")
    case True
    then show ?thesis unfolding s by (auto simp: bit_simps nth_append dest: bit_imp_le_length)
  next
    case False
    then obtain m where m: "k = m + 8" by (metis add.commute le_iff_add not_le)
    have "(m + 8) div 8 = Suc (m div 8)" by simp
    moreover have "\<not> bit b k" using False bit_imp_le_length [of b k] by auto
    ultimately show ?thesis unfolding s using snoc [of m]
      by (auto simp: bit_simps nth_append m dest: bit_imp_le_length)
  qed
qed

lemma of_be_bytes:
  assumes "LENGTH('a) = 8 * n"
  shows "of_be (be_bytes n (v :: 'a::len word)) = v"
proof (rule bit_word_eqI)
  fix k assume k: "k < LENGTH('a)"
  then have d: "k div 8 < n" using assms by auto
  then have "n - Suc (k div 8) < n" "n - Suc (n - Suc (k div 8)) = k div 8" by auto
  then have "be_bytes n v ! (n - Suc (k div 8)) = ucast (drop_bit (8 * (k div 8)) v)"
    by (simp add: be_bytes_def)
  then show "bit (of_be (be_bytes n v) :: 'a word) k = bit v k"
    using k assms by (simp add: bit_of_be bit_simps)
qed

end
