(* ===== verification/Stp.thy ===== *)
theory Stp
  imports Packets "HOL-Library.Signed_Division"
begin

text \<open>
  \<^verbatim>\<open>lib/stp.c\<close>: the spanning tree protocol of IEEE 802.1D-1998. The bridge is a record with its 255
  ports in a list; a pointer to a port is its index. Identifiers are 64-bit words, port
  identifiers (which the code keeps in an \<^verbatim>\<open>int\<close>, always with 16 bits) 16-bit words, path costs 32-bit
  words that are read as signed where the code declares them \<^verbatim>\<open>int\<close>. Times are integers,
  with the wrap-around of \<^verbatim>\<open>int\<close> written out where the code converts milliseconds to timer ticks.
  What \<^verbatim>\<open>send_bpdu\<close> is called with is collected in \<open>sent\<close>; a callback that delivers the BPDU through a patch port
  to a bridge of the same process, and so enters this code again, is not modelled. The mutex, the reference count, the list
  of all bridges and the log are left out.
\<close>

section \<open>Data\<close>

type_synonym stp_identifier = u64

definition STP_MAX_PORTS :: nat where "STP_MAX_PORTS = 255"

definition STP_DEFAULT_BRIDGE_PRIORITY :: u64 where "STP_DEFAULT_BRIDGE_PRIORITY = 32768"

definition STP_DEFAULT_PORT_PRIORITY :: u16 where "STP_DEFAULT_PORT_PRIORITY = 128"

definition STP_DEFAULT_MAX_AGE :: int where "STP_DEFAULT_MAX_AGE = 20000"

definition STP_DEFAULT_HELLO_TIME :: int where "STP_DEFAULT_HELLO_TIME = 2000"

definition STP_DEFAULT_FWD_DELAY :: int where "STP_DEFAULT_FWD_DELAY = 15000"

definition MESSAGE_AGE_INCREMENT :: int where "MESSAGE_AGE_INCREMENT = 1"

definition STP_CONFIG_TOPOLOGY_CHANGE_ACK :: u8 where "STP_CONFIG_TOPOLOGY_CHANGE_ACK = 0x80"

definition STP_CONFIG_TOPOLOGY_CHANGE :: u8 where "STP_CONFIG_TOPOLOGY_CHANGE = 0x01"

text \<open>\<open>STP_ZERO\<close> is the value 0 that memory from \<^verbatim>\<open>xzalloc\<close> has; it is no member of the enumeration.\<close>

datatype stp_state = STP_ZERO | STP_DISABLED | STP_LISTENING | STP_LEARNING | STP_FORWARDING | STP_BLOCKING

datatype stp_role = STP_ROLE_ROOT | STP_ROLE_DESIGNATED | STP_ROLE_ALTERNATE | STP_ROLE_DISABLED

record stp_timer =
  active :: bool
  timer_value :: int

record stp_port =
  port_aux :: "nat option"
  port_id :: u16
  port_state :: stp_state
  path_cost :: u32
  port_designated_root :: u64
  port_designated_cost :: u32
  port_designated_bridge :: u64
  port_designated_port :: u16
  topology_change_ack :: bool
  config_pending :: bool
  change_detection_enabled :: bool
  message_age_timer :: stp_timer
  forward_delay_timer :: stp_timer
  hold_timer :: stp_timer
  tx_count :: int
  rx_count :: int
  error_count :: int
  state_changed :: bool

record stp =
  stp_name :: string
  bridge_id :: u64
  max_age :: int
  hello_time :: int
  forward_delay :: int
  bridge_max_age :: int
  bridge_hello_time :: int
  bridge_forward_delay :: int
  rq_max_age :: int
  rq_hello_time :: int
  rq_forward_delay :: int
  elapsed_remainder :: int
  designated_root :: u64
  root_path_cost :: u32
  root_port :: "nat option"
  topology_change_detected :: bool
  topology_change :: bool
  hello_timer :: stp_timer
  tcn_timer :: stp_timer
  topology_change_timer :: stp_timer
  ports :: "stp_port list"
  fdb_needs_flush :: bool
  first_changed_port :: nat
  sent :: "(nat \<times> u8 list) list"

text \<open>A configuration BPDU, with the values of its fields in host byte order.\<close>

record stp_config_bpdu =
  cfg_flags :: u8
  cfg_root_id :: u64
  cfg_root_path_cost :: u32
  cfg_bridge_id :: u64
  cfg_port_id :: u16
  cfg_message_age :: u16
  cfg_max_age :: u16
  cfg_hello_time :: u16
  cfg_forward_delay :: u16

text \<open>
  The packed structure in memory, and reading its fields: protocol id, version and type (all 0),
  then the fields in the order of the declaration, in network byte order.
\<close>

definition config_bytes :: "stp_config_bpdu \<Rightarrow> u8 list" where
  "config_bytes c =
     be_bytes 2 (0 :: u16) @ [0, 0] @ [cfg_flags c] @ be_bytes 8 (cfg_root_id c) @ be_bytes 4 (cfg_root_path_cost c) @
     be_bytes 8 (cfg_bridge_id c) @ be_bytes 2 (cfg_port_id c) @ be_bytes 2 (cfg_message_age c) @
     be_bytes 2 (cfg_max_age c) @ be_bytes 2 (cfg_hello_time c) @ be_bytes 2 (cfg_forward_delay c)"

definition config_of_bytes :: "u8 list \<Rightarrow> stp_config_bpdu" where
  "config_of_bytes b =
     \<lparr>cfg_flags = b ! 4, cfg_root_id = of_be (take 8 (drop 5 b)), cfg_root_path_cost = of_be (take 4 (drop 13 b)),
      cfg_bridge_id = of_be (take 8 (drop 17 b)), cfg_port_id = of_be (take 2 (drop 25 b)),
      cfg_message_age = of_be (take 2 (drop 27 b)), cfg_max_age = of_be (take 2 (drop 29 b)),
      cfg_hello_time = of_be (take 2 (drop 31 b)), cfg_forward_delay = of_be (take 2 (drop 33 b))\<rparr>"

definition tcn_bytes :: "u8 list" where
  "tcn_bytes = be_bytes 2 (0 :: u16) @ [0, 0x80]"

text \<open>A port of the bridge, and changing it.\<close>

definition port_at :: "stp \<Rightarrow> nat \<Rightarrow> stp_port" where
  "port_at s i = ports s ! i"

definition set_port :: "stp \<Rightarrow> nat \<Rightarrow> (stp_port \<Rightarrow> stp_port) \<Rightarrow> stp" where
  "set_port s i f = s\<lparr>ports := (ports s)[i := f (ports s ! i)]\<rparr>"

definition enabled :: "stp \<Rightarrow> nat \<Rightarrow> bool" where
  "enabled s i \<longleftrightarrow> port_state (port_at s i) \<noteq> STP_DISABLED"

text \<open>
  \<^verbatim>\<open>FOR_EACH_ENABLED_PORT\<close>: the next port is looked for after the body has run, so whether a port is
  enabled is decided in the state that the bodies of the ports before it have left.
\<close>

definition for_each_enabled_port :: "(stp \<Rightarrow> nat \<Rightarrow> stp) \<Rightarrow> stp \<Rightarrow> stp" where
  "for_each_enabled_port body s = foldl (\<lambda>s i. if enabled s i then body s i else s) s [0..<STP_MAX_PORTS]"

section \<open>Timers\<close>

definition stp_start_timer :: "int \<Rightarrow> stp_timer" where
  "stp_start_timer v = \<lparr>active = True, timer_value = v\<rparr>"

definition stp_stop_timer :: "stp_timer \<Rightarrow> stp_timer" where
  "stp_stop_timer t = t\<lparr>active := False\<rparr>"

definition stp_timer_expired :: "stp_timer \<Rightarrow> int \<Rightarrow> int \<Rightarrow> bool \<times> stp_timer" where
  "stp_timer_expired t elapsed timeout =
     (if active t then
        let t1 = t\<lparr>timer_value := timer_value t + elapsed\<rparr>
        in if timer_value t1 \<ge> timeout then (True, t1\<lparr>active := False\<rparr>) else (False, t1)
      else (False, t))"

text \<open>The value of an expression of type \<^verbatim>\<open>int\<close>, 32 bits wide.\<close>

definition c_int :: "int \<Rightarrow> int" where
  "c_int x = sint (word_of_int x :: u32)"

definition ms_to_timer :: "int \<Rightarrow> int" where
  "ms_to_timer ms = c_int (ms * 0x100) sdiv 1000"

definition timer_to_ms :: "int \<Rightarrow> int" where
  "timer_to_ms timer = c_int (timer * 1000) sdiv 0x100"

definition clamp :: "int \<Rightarrow> int \<Rightarrow> int \<Rightarrow> int" where
  "clamp x min_x max_x = (if x < min_x then min_x else if x > max_x then max_x else x)"

section \<open>Roles\<close>

definition stp_is_root_bridge :: "stp \<Rightarrow> bool" where
  "stp_is_root_bridge s \<longleftrightarrow> bridge_id s = designated_root s"

definition stp_is_designated_port :: "stp \<Rightarrow> nat \<Rightarrow> bool" where
  "stp_is_designated_port s i \<longleftrightarrow>
     port_designated_bridge (port_at s i) = bridge_id s \<and> port_designated_port (port_at s i) = port_id (port_at s i)"

definition stp_is_designated_for_some_port :: "stp \<Rightarrow> bool" where
  "stp_is_designated_for_some_port s \<longleftrightarrow>
     list_ex (\<lambda>i. enabled s i \<and> port_designated_bridge (port_at s i) = bridge_id s) [0..<STP_MAX_PORTS]"

definition stp_update_bridge_timers :: "stp \<Rightarrow> stp" where
  "stp_update_bridge_timers s =
     (let ht = clamp (rq_hello_time s) 1000 10000;
          ma = clamp (rq_max_age s) (max (2 * (ht + 1000)) 6000) 40000;
          fd = clamp (rq_forward_delay s) (ma sdiv 2 + 1000) 30000;
          s1 = s\<lparr>bridge_hello_time := ms_to_timer ht, bridge_max_age := ms_to_timer ma,
                 bridge_forward_delay := ms_to_timer fd\<rparr>
      in if stp_is_root_bridge s1
         then s1\<lparr>max_age := bridge_max_age s1, hello_time := bridge_hello_time s1,
                 forward_delay := bridge_forward_delay s1\<rparr>
         else s1)"

section \<open>Sending\<close>

text \<open>
  The packet is an Ethernet header (destination the address of all bridges, source left zero for the
  client to fill in, the length), an LLC header and the BPDU.
\<close>

definition bpdu_packet :: "u8 list \<Rightarrow> u8 list" where
  "bpdu_packet bpdu =
     [0x01, 0x80, 0xC2, 0, 0, 0] @ replicate 6 0 @ be_bytes 2 (word_of_nat (3 + length bpdu) :: u16) @
     [0x42, 0x42, 0x03] @ bpdu"

definition stp_send_bpdu :: "stp \<Rightarrow> nat \<Rightarrow> u8 list \<Rightarrow> stp" where
  "stp_send_bpdu s i bpdu =
     set_port (s\<lparr>sent := sent s @ [(i, bpdu_packet bpdu)]\<rparr>) i (\<lambda>p. p\<lparr>tx_count := tx_count p + 1\<rparr>)"

definition transmitted_config :: "stp \<Rightarrow> nat \<Rightarrow> stp_config_bpdu" where
  "transmitted_config s i =
     (let p = port_at s i in
      \<lparr>cfg_flags = (if topology_change_ack p then STP_CONFIG_TOPOLOGY_CHANGE_ACK else 0) OR
                   (if topology_change s then STP_CONFIG_TOPOLOGY_CHANGE else 0),
       cfg_root_id = designated_root s, cfg_root_path_cost = root_path_cost s, cfg_bridge_id = bridge_id s,
       cfg_port_id = port_id p,
       cfg_message_age =
         (if stp_is_root_bridge s then 0
          else word_of_int (timer_value (message_age_timer (port_at s (the (root_port s)))) + MESSAGE_AGE_INCREMENT)),
       cfg_max_age = word_of_int (max_age s), cfg_hello_time = word_of_int (hello_time s),
       cfg_forward_delay = word_of_int (forward_delay s)\<rparr>)"

definition stp_transmit_config :: "stp \<Rightarrow> nat \<Rightarrow> stp" where
  "stp_transmit_config s i =
     (if \<not> stp_is_root_bridge s \<and> root_port s = None then s
      else if active (hold_timer (port_at s i)) then set_port s i (\<lambda>p. p\<lparr>config_pending := True\<rparr>)
      else
        let config = transmitted_config s i
        in if uint (cfg_message_age config) < max_age s
           then set_port
                  (stp_send_bpdu (set_port s i (\<lambda>p. p\<lparr>topology_change_ack := False, config_pending := False\<rparr>))
                     i (config_bytes config))
                  i (\<lambda>p. p\<lparr>hold_timer := stp_start_timer 0\<rparr>)
           else s)"

definition stp_config_bpdu_generation :: "stp \<Rightarrow> stp" where
  "stp_config_bpdu_generation =
     for_each_enabled_port (\<lambda>s i. if stp_is_designated_port s i then stp_transmit_config s i else s)"

definition stp_transmit_tcn :: "stp \<Rightarrow> stp" where
  "stp_transmit_tcn s = (case root_port s of None \<Rightarrow> s | Some p \<Rightarrow> stp_send_bpdu s p tcn_bytes)"

section \<open>Topology changes and port states\<close>

definition stp_topology_change_detection :: "stp \<Rightarrow> stp" where
  "stp_topology_change_detection s =
     (let s1 = (if stp_is_root_bridge s
                then s\<lparr>topology_change := True, topology_change_timer := stp_start_timer 0\<rparr>
                else if \<not> topology_change_detected s
                then (stp_transmit_tcn s)\<lparr>tcn_timer := stp_start_timer 0\<rparr>
                else s)
      in s1\<lparr>fdb_needs_flush := True, topology_change_detected := True\<rparr>)"

definition stp_topology_change_acknowledged :: "stp \<Rightarrow> stp" where
  "stp_topology_change_acknowledged s =
     s\<lparr>topology_change_detected := False, tcn_timer := stp_stop_timer (tcn_timer s)\<rparr>"

definition stp_acknowledge_topology_change :: "stp \<Rightarrow> nat \<Rightarrow> stp" where
  "stp_acknowledge_topology_change s i =
     stp_transmit_config (set_port s i (\<lambda>p. p\<lparr>topology_change_ack := True\<rparr>)) i"

definition stp_set_port_state :: "stp \<Rightarrow> nat \<Rightarrow> stp_state \<Rightarrow> stp" where
  "stp_set_port_state s i st =
     (let s1 = (if st \<noteq> port_state (port_at s i) \<and> \<not> state_changed (port_at s i)
                then (set_port s i (\<lambda>p. p\<lparr>state_changed := True\<rparr>))
                       \<lparr>first_changed_port := if i < first_changed_port s then i else first_changed_port s\<rparr>
                else s)
      in set_port s1 i (\<lambda>p. p\<lparr>port_state := st\<rparr>))"

definition stp_make_forwarding :: "stp \<Rightarrow> nat \<Rightarrow> stp" where
  "stp_make_forwarding s i =
     (if port_state (port_at s i) = STP_BLOCKING
      then set_port (stp_set_port_state s i STP_LISTENING) i (\<lambda>p. p\<lparr>forward_delay_timer := stp_start_timer 0\<rparr>)
      else s)"

definition stp_make_blocking :: "stp \<Rightarrow> nat \<Rightarrow> stp" where
  "stp_make_blocking s i =
     (if port_state (port_at s i) \<notin> {STP_DISABLED, STP_BLOCKING} then
        let s1 = (if port_state (port_at s i) \<in> {STP_FORWARDING, STP_LEARNING} \<and> change_detection_enabled (port_at s i)
                  then stp_topology_change_detection s else s)
        in set_port (stp_set_port_state s1 i STP_BLOCKING) i
             (\<lambda>p. p\<lparr>forward_delay_timer := stp_stop_timer (forward_delay_timer p)\<rparr>)
      else s)"

definition stp_port_state_selection :: "stp \<Rightarrow> stp" where
  "stp_port_state_selection =
     for_each_enabled_port (\<lambda>s i.
       if Some i = root_port s
       then stp_make_forwarding (set_port s i (\<lambda>p. p\<lparr>config_pending := False, topology_change_ack := False\<rparr>)) i
       else if stp_is_designated_port s i
       then stp_make_forwarding (set_port s i (\<lambda>p. p\<lparr>message_age_timer := stp_stop_timer (message_age_timer p)\<rparr>)) i
       else stp_make_blocking (set_port s i (\<lambda>p. p\<lparr>config_pending := False, topology_change_ack := False\<rparr>)) i)"

section \<open>Choosing the root and the designated ports\<close>

definition stp_become_designated_port :: "stp \<Rightarrow> nat \<Rightarrow> stp" where
  "stp_become_designated_port s i =
     set_port s i (\<lambda>p. p\<lparr>port_designated_root := designated_root s, port_designated_cost := root_path_cost s,
       port_designated_bridge := bridge_id s, port_designated_port := port_id p\<rparr>)"

definition stp_supersedes_root :: "stp_port \<Rightarrow> stp_port \<Rightarrow> bool" where
  "stp_supersedes_root root p =
     (let p_cost = sint (port_designated_cost p + path_cost p);
          root_cost = sint (port_designated_cost root + path_cost root)
      in if port_designated_root p \<noteq> port_designated_root root
         then port_designated_root p < port_designated_root root
         else if p_cost \<noteq> root_cost then p_cost < root_cost
         else if port_designated_bridge p \<noteq> port_designated_bridge root
         then port_designated_bridge p < port_designated_bridge root
         else if port_designated_port p \<noteq> port_designated_port root
         then port_designated_port p < port_designated_port root
         else port_id p < port_id root)"

definition select_root :: "stp \<Rightarrow> nat list \<Rightarrow> nat option" where
  "select_root s is = foldl (\<lambda>root i.
     if \<not> enabled s i then root
     else if stp_is_designated_port s i \<or> port_designated_root (port_at s i) \<ge> bridge_id s then root
     else if (case root of Some r \<Rightarrow> \<not> stp_supersedes_root (port_at s r) (port_at s i) | None \<Rightarrow> False) then root
     else Some i) None is"

definition stp_root_selection :: "stp \<Rightarrow> stp" where
  "stp_root_selection s =
     (let root = select_root s [0..<STP_MAX_PORTS];
          s1 = s\<lparr>root_port := root\<rparr>
      in case root of
           None \<Rightarrow> s1\<lparr>designated_root := bridge_id s1, root_path_cost := 0\<rparr>
         | Some r \<Rightarrow> s1\<lparr>designated_root := port_designated_root (port_at s1 r),
                       root_path_cost := port_designated_cost (port_at s1 r) + path_cost (port_at s1 r)\<rparr>)"

definition stp_designated_port_selection :: "stp \<Rightarrow> stp" where
  "stp_designated_port_selection =
     for_each_enabled_port (\<lambda>s i.
       let p = port_at s i in
       if stp_is_designated_port s i
          \<or> port_designated_root p \<noteq> designated_root s
          \<or> root_path_cost s < port_designated_cost p
          \<or> (root_path_cost s = port_designated_cost p
              \<and> (bridge_id s < port_designated_bridge p
                  \<or> (bridge_id s = port_designated_bridge p \<and> port_id p \<le> port_designated_port p)))
       then stp_become_designated_port s i else s)"

definition stp_configuration_update :: "stp \<Rightarrow> stp" where
  "stp_configuration_update s = stp_designated_port_selection (stp_root_selection s)"

definition stp_become_root_bridge :: "stp \<Rightarrow> stp" where
  "stp_become_root_bridge s =
     (let s1 = stp_topology_change_detection
                 (s\<lparr>max_age := bridge_max_age s, hello_time := bridge_hello_time s,
                    forward_delay := bridge_forward_delay s\<rparr>);
          s2 = stp_config_bpdu_generation (s1\<lparr>tcn_timer := stp_stop_timer (tcn_timer s1)\<rparr>)
      in s2\<lparr>hello_timer := stp_start_timer 0\<rparr>)"

definition stp_initialize_port :: "stp \<Rightarrow> nat \<Rightarrow> stp_state \<Rightarrow> stp option" where
  "stp_initialize_port s i st =
     (if st \<notin> {STP_DISABLED, STP_BLOCKING} then None
      else Some (set_port (stp_set_port_state (stp_become_designated_port s i) i st) i
             (\<lambda>p. p\<lparr>topology_change_ack := False, config_pending := False, change_detection_enabled := True,
                    port_aux := None,
                    message_age_timer := stp_stop_timer (message_age_timer p),
                    forward_delay_timer := stp_stop_timer (forward_delay_timer p),
                    hold_timer := stp_stop_timer (hold_timer p),
                    tx_count := 0, rx_count := 0, error_count := 0\<rparr>)))"

section \<open>Creation\<close>

definition zero_timer :: stp_timer where
  "zero_timer = \<lparr>active = False, timer_value = 0\<rparr>"

definition zero_port :: stp_port where
  "zero_port =
     \<lparr>port_aux = None, port_id = 0, port_state = STP_ZERO, path_cost = 0, port_designated_root = 0,
      port_designated_cost = 0, port_designated_bridge = 0, port_designated_port = 0,
      topology_change_ack = False, config_pending = False, change_detection_enabled = False,
      message_age_timer = zero_timer, forward_delay_timer = zero_timer, hold_timer = zero_timer,
      tx_count = 0, rx_count = 0, error_count = 0, state_changed = False\<rparr>"

definition create_port :: "stp \<Rightarrow> nat \<Rightarrow> stp option" where
  "create_port s i =
     stp_initialize_port
       (set_port s i (\<lambda>p. p\<lparr>port_id := word_of_nat (i + 1) OR push_bit 8 STP_DEFAULT_PORT_PRIORITY, path_cost := 19\<rparr>))
       i STP_DISABLED"

definition stp_create :: "string \<Rightarrow> stp_identifier \<Rightarrow> stp option" where
  "stp_create nm bid =
     (let id = (if drop_bit 48 bid = 0 then bid OR push_bit 48 STP_DEFAULT_BRIDGE_PRIORITY else bid);
          s0 = \<lparr>stp_name = nm, bridge_id = id, max_age = 0, hello_time = 0, forward_delay = 0,
                bridge_max_age = 0, bridge_hello_time = 0, bridge_forward_delay = 0,
                rq_max_age = STP_DEFAULT_MAX_AGE, rq_hello_time = STP_DEFAULT_HELLO_TIME,
                rq_forward_delay = STP_DEFAULT_FWD_DELAY, elapsed_remainder = 0,
                designated_root = 0, root_path_cost = 0, root_port = None,
                topology_change_detected = False, topology_change = False,
                hello_timer = zero_timer, tcn_timer = zero_timer, topology_change_timer = zero_timer,
                ports = replicate STP_MAX_PORTS zero_port, fdb_needs_flush = False,
                first_changed_port = 0, sent = []\<rparr>;
          s1 = stp_update_bridge_timers s0;
          s2 = s1\<lparr>max_age := bridge_max_age s1, hello_time := bridge_hello_time s1,
                  forward_delay := bridge_forward_delay s1, designated_root := bridge_id s1,
                  tcn_timer := stp_stop_timer (tcn_timer s1),
                  topology_change_timer := stp_stop_timer (topology_change_timer s1),
                  hello_timer := stp_start_timer 0, first_changed_port := STP_MAX_PORTS\<rparr>
      in foldl (\<lambda>os i. case os of None \<Rightarrow> None | Some s \<Rightarrow> create_port s i) (Some s2) [0..<STP_MAX_PORTS])"

section \<open>Received BPDUs\<close>

definition stp_supersedes_port_info :: "stp \<Rightarrow> nat \<Rightarrow> stp_config_bpdu \<Rightarrow> bool" where
  "stp_supersedes_port_info s i config =
     (let p = port_at s i in
      if cfg_root_id config \<noteq> port_designated_root p then cfg_root_id config < port_designated_root p
      else if cfg_root_path_cost config \<noteq> port_designated_cost p
      then cfg_root_path_cost config < port_designated_cost p
      else if cfg_bridge_id config \<noteq> port_designated_bridge p
      then cfg_bridge_id config < port_designated_bridge p
      else cfg_bridge_id config \<noteq> bridge_id s \<or> cfg_port_id config \<le> port_designated_port p)"

definition stp_record_config_information :: "stp \<Rightarrow> nat \<Rightarrow> stp_config_bpdu \<Rightarrow> stp" where
  "stp_record_config_information s i config =
     set_port s i (\<lambda>p. p\<lparr>port_designated_root := cfg_root_id config, port_designated_cost := cfg_root_path_cost config,
       port_designated_bridge := cfg_bridge_id config, port_designated_port := cfg_port_id config,
       message_age_timer := stp_start_timer (uint (cfg_message_age config))\<rparr>)"

definition stp_record_config_timeout_values :: "stp \<Rightarrow> stp_config_bpdu \<Rightarrow> stp" where
  "stp_record_config_timeout_values s config =
     s\<lparr>max_age := uint (cfg_max_age config), hello_time := uint (cfg_hello_time config),
       forward_delay := uint (cfg_forward_delay config),
       topology_change := (cfg_flags config AND STP_CONFIG_TOPOLOGY_CHANGE \<noteq> 0)\<rparr>"

text \<open>What follows when a BPDU supersedes what the port knew.\<close>

definition stp_lost_root :: "stp \<Rightarrow> bool \<Rightarrow> stp" where
  "stp_lost_root s root =
     (if \<not> stp_is_root_bridge s \<and> root then
        let s1 = s\<lparr>hello_timer := stp_stop_timer (hello_timer s)\<rparr>
        in if topology_change_detected s1
           then (stp_transmit_tcn (s1\<lparr>topology_change_timer := stp_stop_timer (topology_change_timer s1)\<rparr>))
                  \<lparr>tcn_timer := stp_start_timer 0\<rparr>
           else s1
      else s)"

definition stp_config_from_root :: "stp \<Rightarrow> stp_config_bpdu \<Rightarrow> stp" where
  "stp_config_from_root s config =
     (let s1 = stp_config_bpdu_generation (stp_record_config_timeout_values s config);
          s2 = (if cfg_flags config AND STP_CONFIG_TOPOLOGY_CHANGE_ACK \<noteq> 0
                then stp_topology_change_acknowledged s1 else s1)
      in if cfg_flags config AND STP_CONFIG_TOPOLOGY_CHANGE \<noteq> 0 then s2\<lparr>fdb_needs_flush := True\<rparr> else s2)"

definition stp_received_config_bpdu :: "stp \<Rightarrow> nat \<Rightarrow> stp_config_bpdu \<Rightarrow> stp" where
  "stp_received_config_bpdu s i config =
     (if cfg_message_age config \<ge> cfg_max_age config then s
      else if port_state (port_at s i) \<noteq> STP_DISABLED then
        let root = stp_is_root_bridge s in
        if stp_supersedes_port_info s i config then
          let s1 = stp_port_state_selection (stp_configuration_update (stp_record_config_information s i config));
              s2 = stp_lost_root s1 root
          in if Some i = root_port s2 then stp_config_from_root s2 config else s2
        else if stp_is_designated_port s i then stp_transmit_config s i
        else s
      else s)"

definition stp_received_tcn_bpdu :: "stp \<Rightarrow> nat \<Rightarrow> stp" where
  "stp_received_tcn_bpdu s i =
     (if port_state (port_at s i) \<noteq> STP_DISABLED \<and> stp_is_designated_port s i
      then stp_acknowledge_topology_change (stp_topology_change_detection s) i else s)"

definition bpdu_error :: "stp \<Rightarrow> nat \<Rightarrow> stp" where
  "bpdu_error s i = set_port s i (\<lambda>p. p\<lparr>error_count := error_count p + 1\<rparr>)"

definition bpdu_received :: "stp \<Rightarrow> nat \<Rightarrow> stp" where
  "bpdu_received s i = set_port s i (\<lambda>p. p\<lparr>rx_count := rx_count p + 1\<rparr>)"

definition stp_received_bpdu :: "stp \<Rightarrow> nat \<Rightarrow> u8 list \<Rightarrow> stp" where
  "stp_received_bpdu s i bpdu =
     (if port_state (port_at s i) = STP_DISABLED then s
      else if length bpdu < 4 then bpdu_error s i
      else if of_be (take 2 bpdu) \<noteq> (0 :: u16) then bpdu_error s i
      else if bpdu ! 3 = 0x00 then
        if length bpdu < 35 then bpdu_error s i
        else bpdu_received (stp_received_config_bpdu s i (config_of_bytes bpdu)) i
      else if bpdu ! 3 = 0x80 then
        if length bpdu \<noteq> 4 then bpdu_error s i
        else bpdu_received (stp_received_tcn_bpdu s i) i
      else bpdu_error s i)"

section \<open>Expiry of timers\<close>

definition stp_hello_timer_expiry :: "stp \<Rightarrow> stp" where
  "stp_hello_timer_expiry s = (stp_config_bpdu_generation s)\<lparr>hello_timer := stp_start_timer 0\<rparr>"

definition stp_message_age_timer_expiry :: "stp \<Rightarrow> nat \<Rightarrow> stp" where
  "stp_message_age_timer_expiry s i =
     (let root = stp_is_root_bridge s;
          s1 = stp_port_state_selection (stp_configuration_update (stp_become_designated_port s i))
      in if stp_is_root_bridge s1 \<and> \<not> root then
           let s2 = stp_topology_change_detection
                      (s1\<lparr>max_age := bridge_max_age s1, hello_time := bridge_hello_time s1,
                          forward_delay := bridge_forward_delay s1\<rparr>);
               s3 = stp_config_bpdu_generation (s2\<lparr>tcn_timer := stp_stop_timer (tcn_timer s2)\<rparr>)
           in s3\<lparr>hello_timer := stp_start_timer 0\<rparr>
         else s1)"

definition stp_forward_delay_timer_expiry :: "stp \<Rightarrow> nat \<Rightarrow> stp" where
  "stp_forward_delay_timer_expiry s i =
     (if port_state (port_at s i) = STP_LISTENING
      then set_port (stp_set_port_state s i STP_LEARNING) i (\<lambda>p. p\<lparr>forward_delay_timer := stp_start_timer 0\<rparr>)
      else if port_state (port_at s i) = STP_LEARNING
      then let s1 = stp_set_port_state s i STP_FORWARDING
           in if stp_is_designated_for_some_port s1 \<and> change_detection_enabled (port_at s1 i)
              then stp_topology_change_detection s1 else s1
      else s)"

definition stp_tcn_timer_expiry :: "stp \<Rightarrow> stp" where
  "stp_tcn_timer_expiry s = (stp_transmit_tcn s)\<lparr>tcn_timer := stp_start_timer 0\<rparr>"

definition stp_topology_change_timer_expiry :: "stp \<Rightarrow> stp" where
  "stp_topology_change_timer_expiry s = s\<lparr>topology_change_detected := False, topology_change := False\<rparr>"

definition stp_hold_timer_expiry :: "stp \<Rightarrow> nat \<Rightarrow> stp" where
  "stp_hold_timer_expiry s i = (if config_pending (port_at s i) then stp_transmit_config s i else s)"

definition tick_message_age :: "int \<Rightarrow> stp \<Rightarrow> nat \<Rightarrow> stp" where
  "tick_message_age elapsed s i =
     (let (expired, t) = stp_timer_expired (message_age_timer (port_at s i)) elapsed (max_age s);
          s1 = set_port s i (\<lambda>p. p\<lparr>message_age_timer := t\<rparr>)
      in if expired then stp_message_age_timer_expiry s1 i else s1)"

definition tick_forward_delay :: "int \<Rightarrow> stp \<Rightarrow> nat \<Rightarrow> stp" where
  "tick_forward_delay elapsed s i =
     (let (expired, t) = stp_timer_expired (forward_delay_timer (port_at s i)) elapsed (forward_delay s);
          s1 = set_port s i (\<lambda>p. p\<lparr>forward_delay_timer := t\<rparr>)
      in if expired then stp_forward_delay_timer_expiry s1 i else s1)"

definition tick_hold :: "int \<Rightarrow> stp \<Rightarrow> nat \<Rightarrow> stp" where
  "tick_hold elapsed s i =
     (let (expired, t) = stp_timer_expired (hold_timer (port_at s i)) elapsed (ms_to_timer 1000);
          s1 = set_port s i (\<lambda>p. p\<lparr>hold_timer := t\<rparr>)
      in if expired then stp_hold_timer_expiry s1 i else s1)"

definition tick_bridge :: "int \<Rightarrow> stp \<Rightarrow> stp" where
  "tick_bridge elapsed s =
     (let (e1, t1) = stp_timer_expired (hello_timer s) elapsed (hello_time s);
          s1 = s\<lparr>hello_timer := t1\<rparr>;
          s2 = (if e1 then stp_hello_timer_expiry s1 else s1);
          (e2, t2) = stp_timer_expired (tcn_timer s2) elapsed (bridge_hello_time s2);
          s3 = s2\<lparr>tcn_timer := t2\<rparr>;
          s4 = (if e2 then stp_tcn_timer_expiry s3 else s3);
          (e3, t3) = stp_timer_expired (topology_change_timer s4) elapsed (max_age s4 + forward_delay s4);
          s5 = s4\<lparr>topology_change_timer := t3\<rparr>
      in if e3 then stp_topology_change_timer_expiry s5 else s5)"

text \<open>The ticks that have passed, and the bridge with what is left over.\<close>

definition elapsed_ticks :: "stp \<Rightarrow> int \<Rightarrow> int \<times> stp" where
  "elapsed_ticks s ms =
     (let ms' = c_int (clamp ms 0 (2 ^ 31 - 1 - 1000) + elapsed_remainder s);
          elapsed = ms_to_timer ms'
      in (elapsed, s\<lparr>elapsed_remainder := c_int (ms' - timer_to_ms elapsed)\<rparr>))"

definition stp_tick :: "stp \<Rightarrow> int \<Rightarrow> stp" where
  "stp_tick s ms =
     (let (elapsed, s1) = elapsed_ticks s ms
      in if elapsed = 0 then s1
         else
           let s2 = tick_bridge elapsed s1;
               s3 = for_each_enabled_port (tick_message_age elapsed) s2
           in for_each_enabled_port (\<lambda>s i. tick_hold elapsed (tick_forward_delay elapsed s i) i) s3)"

section \<open>Configuration and queries\<close>

definition stp_regained_root :: "stp \<Rightarrow> bool \<Rightarrow> stp" where
  "stp_regained_root s root = (if stp_is_root_bridge s \<and> \<not> root then stp_become_root_bridge s else s)"

definition set_bridge_id :: "stp \<Rightarrow> stp_identifier \<Rightarrow> stp" where
  "set_bridge_id s new_id =
     (if new_id \<noteq> bridge_id s then
        let root = stp_is_root_bridge s;
            s1 = for_each_enabled_port (\<lambda>s i. if stp_is_designated_port s i
                   then set_port s i (\<lambda>p. p\<lparr>port_designated_bridge := new_id\<rparr>) else s) s;
            s2 = stp_port_state_selection (stp_configuration_update (s1\<lparr>bridge_id := new_id\<rparr>))
        in stp_regained_root s2 root
      else s)"

definition stp_set_bridge_id :: "stp \<Rightarrow> stp_identifier \<Rightarrow> stp" where
  "stp_set_bridge_id s bid =
     (let mac_bits = push_bit 48 1 - 1;
          pri_bits = NOT mac_bits
      in set_bridge_id s ((bridge_id s AND pri_bits) OR (bid AND mac_bits)))"

definition stp_set_bridge_priority :: "stp \<Rightarrow> u16 \<Rightarrow> stp" where
  "stp_set_bridge_priority s new_priority =
     (let mac_bits = push_bit 48 1 - 1
      in set_bridge_id s ((bridge_id s AND mac_bits) OR push_bit 48 (ucast new_priority)))"

definition stp_set_hello_time :: "stp \<Rightarrow> int \<Rightarrow> stp" where
  "stp_set_hello_time s ms = stp_update_bridge_timers (s\<lparr>rq_hello_time := ms\<rparr>)"

definition stp_set_max_age :: "stp \<Rightarrow> int \<Rightarrow> stp" where
  "stp_set_max_age s ms = stp_update_bridge_timers (s\<lparr>rq_max_age := ms\<rparr>)"

definition stp_set_forward_delay :: "stp \<Rightarrow> int \<Rightarrow> stp" where
  "stp_set_forward_delay s ms = stp_update_bridge_timers (s\<lparr>rq_forward_delay := ms\<rparr>)"

definition stp_get_hello_time :: "stp \<Rightarrow> int" where
  "stp_get_hello_time s = timer_to_ms (bridge_hello_time s)"

definition stp_get_max_age :: "stp \<Rightarrow> int" where
  "stp_get_max_age s = timer_to_ms (bridge_max_age s)"

definition stp_get_forward_delay :: "stp \<Rightarrow> int" where
  "stp_get_forward_delay s = timer_to_ms (bridge_forward_delay s)"

definition stp_check_and_reset_fdb_flush :: "stp \<Rightarrow> bool \<times> stp" where
  "stp_check_and_reset_fdb_flush s = (fdb_needs_flush s, s\<lparr>fdb_needs_flush := False\<rparr>)"

definition stp_get_port :: "stp \<Rightarrow> int \<Rightarrow> nat option" where
  "stp_get_port s port_no = (if port_no \<ge> 0 \<and> port_no < int STP_MAX_PORTS then Some (nat port_no) else None)"

function changed_port_from :: "stp \<Rightarrow> nat \<Rightarrow> nat option \<times> stp" where
  "changed_port_from s p =
     (if p < STP_MAX_PORTS then
        if state_changed (port_at s p)
        then (Some p, (set_port s p (\<lambda>q. q\<lparr>state_changed := False\<rparr>))\<lparr>first_changed_port := p + 1\<rparr>)
        else changed_port_from s (p + 1)
      else (None, s\<lparr>first_changed_port := STP_MAX_PORTS\<rparr>))"
  by pat_completeness auto
termination
  by (relation "measure (\<lambda>(s, p). STP_MAX_PORTS - p)") auto

declare changed_port_from.simps [simp del]

definition stp_get_changed_port :: "stp \<Rightarrow> nat option \<times> stp" where
  "stp_get_changed_port s = changed_port_from s (first_changed_port s)"

definition stp_state_name :: "stp_state \<Rightarrow> string option" where
  "stp_state_name st =
     (case st of STP_DISABLED \<Rightarrow> Some ''disabled'' | STP_LISTENING \<Rightarrow> Some ''listening''
      | STP_LEARNING \<Rightarrow> Some ''learning'' | STP_FORWARDING \<Rightarrow> Some ''forwarding''
      | STP_BLOCKING \<Rightarrow> Some ''blocking'' | STP_ZERO \<Rightarrow> None)"

definition stp_forward_in_state :: "stp_state \<Rightarrow> bool" where
  "stp_forward_in_state st \<longleftrightarrow> st \<in> {STP_DISABLED, STP_FORWARDING}"

definition stp_learn_in_state :: "stp_state \<Rightarrow> bool" where
  "stp_learn_in_state st \<longleftrightarrow> st \<in> {STP_DISABLED, STP_LEARNING, STP_FORWARDING}"

definition stp_port_get_role :: "stp \<Rightarrow> nat \<Rightarrow> stp_role" where
  "stp_port_get_role s i =
     (if (case root_port s of Some r \<Rightarrow> port_id (port_at s r) = port_id (port_at s i) | None \<Rightarrow> False) then STP_ROLE_ROOT
      else if stp_is_designated_port s i then STP_ROLE_DESIGNATED
      else if port_state (port_at s i) = STP_DISABLED then STP_ROLE_DISABLED
      else STP_ROLE_ALTERNATE)"

definition stp_port_set_aux :: "stp \<Rightarrow> nat \<Rightarrow> nat option \<Rightarrow> stp" where
  "stp_port_set_aux s i a = set_port s i (\<lambda>p. p\<lparr>port_aux := a\<rparr>)"

definition stp_port_disable :: "stp \<Rightarrow> nat \<Rightarrow> stp" where
  "stp_port_disable s i =
     (if port_state (port_at s i) \<noteq> STP_DISABLED then
        let root = stp_is_root_bridge s;
            s1 = stp_set_port_state (stp_become_designated_port s i) i STP_DISABLED;
            s2 = set_port s1 i (\<lambda>p. p\<lparr>topology_change_ack := False, config_pending := False,
                   message_age_timer := stp_stop_timer (message_age_timer p),
                   forward_delay_timer := stp_stop_timer (forward_delay_timer p)\<rparr>);
            s3 = stp_regained_root (stp_port_state_selection (stp_configuration_update s2)) root
        in set_port s3 i (\<lambda>p. p\<lparr>port_aux := None\<rparr>)
      else s)"

definition stp_port_enable :: "stp \<Rightarrow> nat \<Rightarrow> stp option" where
  "stp_port_enable s i =
     (if port_state (port_at s i) = STP_DISABLED
      then map_option stp_port_state_selection (stp_initialize_port s i STP_BLOCKING)
      else Some s)"

definition stp_port_set_priority :: "stp \<Rightarrow> nat \<Rightarrow> u8 \<Rightarrow> stp" where
  "stp_port_set_priority s i new_priority =
     (let new_port_id = (port_id (port_at s i) AND 0xff) OR push_bit 8 (ucast new_priority)
      in if port_id (port_at s i) \<noteq> new_port_id then
           let s1 = (if stp_is_designated_port s i
                     then set_port s i (\<lambda>p. p\<lparr>port_designated_port := new_port_id\<rparr>) else s);
               s2 = set_port s1 i (\<lambda>p. p\<lparr>port_id := new_port_id\<rparr>)
           in if bridge_id s2 = port_designated_bridge (port_at s2 i)
                 \<and> port_id (port_at s2 i) < port_designated_port (port_at s2 i)
              then stp_port_state_selection (stp_become_designated_port s2 i) else s2
         else s)"

definition stp_convert_speed_to_cost :: "u32 \<Rightarrow> u16" where
  "stp_convert_speed_to_cost speed =
     (if speed \<ge> 10000 then 2 else if speed \<ge> 1000 then 4 else if speed \<ge> 100 then 19
      else if speed \<ge> 16 then 62 else if speed \<ge> 10 then 100 else if speed \<ge> 4 then 250 else 19)"

definition stp_port_set_path_cost :: "stp \<Rightarrow> nat \<Rightarrow> u16 \<Rightarrow> stp" where
  "stp_port_set_path_cost s i cost =
     (if path_cost (port_at s i) \<noteq> ucast cost
      then stp_port_state_selection (stp_configuration_update (set_port s i (\<lambda>p. p\<lparr>path_cost := ucast cost\<rparr>)))
      else s)"

definition stp_port_set_speed :: "stp \<Rightarrow> nat \<Rightarrow> u32 \<Rightarrow> stp" where
  "stp_port_set_speed s i speed = stp_port_set_path_cost s i (stp_convert_speed_to_cost speed)"

definition stp_port_enable_change_detection :: "stp \<Rightarrow> nat \<Rightarrow> stp" where
  "stp_port_enable_change_detection s i = set_port s i (\<lambda>p. p\<lparr>change_detection_enabled := True\<rparr>)"

definition stp_port_disable_change_detection :: "stp \<Rightarrow> nat \<Rightarrow> stp" where
  "stp_port_disable_change_detection s i = set_port s i (\<lambda>p. p\<lparr>change_detection_enabled := False\<rparr>)"

definition stp_role_name :: "stp_role \<Rightarrow> string" where
  "stp_role_name role =
     (case role of STP_ROLE_ROOT \<Rightarrow> ''root'' | STP_ROLE_DESIGNATED \<Rightarrow> ''designated''
      | STP_ROLE_ALTERNATE \<Rightarrow> ''alternate'' | STP_ROLE_DISABLED \<Rightarrow> ''disabled'')"

section \<open>The command \<^verbatim>\<open>stp/tcn\<close>\<close>

text \<open>The list of all bridges, the position of the first one with a name, and the command with its reply.\<close>

fun stp_find :: "stp list \<Rightarrow> string \<Rightarrow> nat option" where
  "stp_find [] nm = None"
| "stp_find (s # stps) nm = (if stp_name s = nm then Some 0 else map_option Suc (stp_find stps nm))"

definition stp_unixctl_tcn :: "stp list \<Rightarrow> string option \<Rightarrow> (string + string) \<times> stp list" where
  "stp_unixctl_tcn stps arg =
     (case arg of
        Some nm \<Rightarrow>
          (case stp_find stps nm of
             None \<Rightarrow> (Inl ''no such stp object'', stps)
           | Some k \<Rightarrow> (Inr ''OK'', stps[k := stp_topology_change_detection (stps ! k)]))
      | None \<Rightarrow> (Inr ''OK'', map stp_topology_change_detection stps))"

end
