(* ===== verification/Stp_Inv.thy ===== *)
theory Stp_Inv
  imports Stp
begin

text \<open>
  The invariant of the spanning tree protocol: every operation of \<^verbatim>\<open>lib/stp.c\<close> keeps the ports well
  formed, the root port consistent with the root bridge, and every port that is neither the
  root port nor a designated port blocking.
\<close>

section \<open>The invariant\<close>

definition port_ok :: "nat \<Rightarrow> nat \<Rightarrow> stp_port \<Rightarrow> bool" where
  "port_ok first i p \<longleftrightarrow> port_state p \<noteq> STP_ZERO \<and> port_id p AND 0xff = word_of_nat (i + 1) \<and>
     (active (forward_delay_timer p) \<longleftrightarrow> port_state p \<in> {STP_LISTENING, STP_LEARNING}) \<and>
     (state_changed p \<longrightarrow> first \<le> i)"

definition ports_ok :: "stp \<Rightarrow> bool" where
  "ports_ok s \<longleftrightarrow> length (ports s) = STP_MAX_PORTS \<and> first_changed_port s \<le> STP_MAX_PORTS \<and>
     (\<forall>i < STP_MAX_PORTS. port_ok (first_changed_port s) i (port_at s i))"

definition root_ok :: "stp \<Rightarrow> bool" where
  "root_ok s \<longleftrightarrow>
     (case root_port s of
        None \<Rightarrow> designated_root s = bridge_id s \<and> root_path_cost s = 0
      | Some r \<Rightarrow> r < STP_MAX_PORTS \<and> enabled s r \<and> designated_root s < bridge_id s)"

definition roles_ok :: "stp \<Rightarrow> bool" where
  "roles_ok s \<longleftrightarrow> (\<forall>i < STP_MAX_PORTS. enabled s i \<longrightarrow> root_port s \<noteq> Some i \<longrightarrow> \<not> stp_is_designated_port s i \<longrightarrow>
     port_state (port_at s i) = STP_BLOCKING)"

definition stp_inv :: "stp \<Rightarrow> bool" where
  "stp_inv s \<longleftrightarrow> ports_ok s \<and> root_ok s \<and> roles_ok s"

section \<open>What the invariant depends on\<close>

definition port_status :: "stp_port \<Rightarrow> u16 \<times> stp_state \<times> u32 \<times> stp_timer \<times> bool" where
  "port_status p = (port_id p, port_state p, path_cost p, forward_delay_timer p, state_changed p)"

definition port_vector :: "stp_port \<Rightarrow> u64 \<times> u32 \<times> u64 \<times> u16" where
  "port_vector p = (port_designated_root p, port_designated_cost p, port_designated_bridge p, port_designated_port p)"

definition bridge_status :: "stp \<Rightarrow> u64 \<times> u64 \<times> u32 \<times> nat option" where
  "bridge_status s = (bridge_id s, designated_root s, root_path_cost s, root_port s)"

definition ports_status :: "stp \<Rightarrow> nat \<times> (u16 \<times> stp_state \<times> u32 \<times> stp_timer \<times> bool) list" where
  "ports_status s = (first_changed_port s, map port_status (ports s))"

definition ports_vector :: "stp \<Rightarrow> (u64 \<times> u32 \<times> u64 \<times> u16) list" where
  "ports_vector s = map port_vector (ports s)"

abbreviation same_core :: "stp \<Rightarrow> stp \<Rightarrow> bool" where
  "same_core s s' \<equiv> bridge_status s' = bridge_status s \<and> ports_status s' = ports_status s \<and>
     ports_vector s' = ports_vector s"

lemma port_at_set_port: "i < length (ports s) \<Longrightarrow> port_at (set_port s i f) j = (if j = i then f (port_at s i) else port_at s j)"
  by (simp add: port_at_def set_port_def nth_list_update)

lemma set_port_sel [simp]:
  "bridge_id (set_port s i f) = bridge_id s" "designated_root (set_port s i f) = designated_root s"
  "root_path_cost (set_port s i f) = root_path_cost s" "root_port (set_port s i f) = root_port s"
  "first_changed_port (set_port s i f) = first_changed_port s" "length (ports (set_port s i f)) = length (ports s)"
  "bridge_status (set_port s i f) = bridge_status s"
  by (simp_all add: set_port_def bridge_status_def)

lemma map_update_same: "(\<And>x. g (f x) = g x) \<Longrightarrow> map g (xs[i := f (xs ! i)]) = map g xs"
  by (cases "i < length xs") (simp_all add: map_update list_update_same_conv list_update_beyond)

lemma set_port_status: "(\<And>p. port_status (f p) = port_status p) \<Longrightarrow> ports_status (set_port s i f) = ports_status s"
  by (simp add: ports_status_def set_port_def map_update_same)

lemma set_port_vector: "(\<And>p. port_vector (f p) = port_vector p) \<Longrightarrow> ports_vector (set_port s i f) = ports_vector s"
  by (simp add: ports_vector_def set_port_def map_update_same)

lemma status_nth:
  assumes "ports_status s' = ports_status s"
  shows "length (ports s') = length (ports s)" and "first_changed_port s' = first_changed_port s"
    and "i < length (ports s) \<Longrightarrow> port_status (port_at s' i) = port_status (port_at s i)"
proof -
  have m: "map port_status (ports s') = map port_status (ports s)" and
    f: "first_changed_port s' = first_changed_port s" using assms by (simp_all add: ports_status_def)
  show l: "length (ports s') = length (ports s)" using map_eq_imp_length_eq [OF m] .
  show "first_changed_port s' = first_changed_port s" by (rule f)
  show "port_status (port_at s' i) = port_status (port_at s i)" if "i < length (ports s)"
    using arg_cong [OF m, of "\<lambda>xs. xs ! i"] that l by (simp add: port_at_def)
qed

lemma vector_nth:
  assumes "ports_vector s' = ports_vector s"
  shows "i < length (ports s) \<Longrightarrow> port_vector (port_at s' i) = port_vector (port_at s i)"
proof -
  have m: "map port_vector (ports s') = map port_vector (ports s)" using assms by (simp add: ports_vector_def)
  show "port_vector (port_at s' i) = port_vector (port_at s i)" if "i < length (ports s)"
    using arg_cong [OF m, of "\<lambda>xs. xs ! i"] that map_eq_imp_length_eq [OF m] by (simp add: port_at_def)
qed

lemma port_ok_status: "port_status q = port_status p \<Longrightarrow> port_ok f i q = port_ok f i p"
  by (simp add: port_ok_def port_status_def)

lemma ports_ok_status:
  assumes "ports_status s' = ports_status s" and "ports_ok s"
  shows "ports_ok s'"
proof -
  have l: "length (ports s) = STP_MAX_PORTS" using assms(2) by (simp add: ports_ok_def)
  have "port_ok (first_changed_port s) i (port_at s' i)" if "i < STP_MAX_PORTS" for i
    using port_ok_status [OF status_nth(3) [OF assms(1)]] that assms(2) l by (simp add: ports_ok_def)
  then show ?thesis using assms(2) status_nth(1,2) [OF assms(1)] by (simp add: ports_ok_def)
qed

lemma enabled_status:
  assumes "ports_status s' = ports_status s" and "i < length (ports s)"
  shows "enabled s' i = enabled s i" and "port_state (port_at s' i) = port_state (port_at s i)"
  using status_nth(3) [OF assms] by (simp_all add: enabled_def port_status_def)

lemma root_ok_status:
  assumes "ports_status s' = ports_status s" and "bridge_status s' = bridge_status s" and "length (ports s) = STP_MAX_PORTS"
  shows "root_ok s' = root_ok s"
  using assms(2,3) enabled_status(1) [OF assms(1)]
  by (auto simp: root_ok_def bridge_status_def split: option.splits)

lemma designated_core:
  assumes "same_core s s'" and "i < length (ports s)"
  shows "stp_is_designated_port s' i = stp_is_designated_port s i"
proof -
  have "ports_status s' = ports_status s" "ports_vector s' = ports_vector s" using assms(1) by simp_all
  from status_nth(3) [OF this(1) assms(2)] vector_nth [OF this(2) assms(2)] assms(1)
  show ?thesis by (simp add: stp_is_designated_port_def port_status_def port_vector_def bridge_status_def)
qed

lemma stp_inv_core:
  assumes "same_core s s'" and "stp_inv s"
  shows "stp_inv s'"
proof -
  have st: "ports_status s' = ports_status s" and l: "length (ports s) = STP_MAX_PORTS" and p: "ports_ok s"
    using assms by (simp_all add: stp_inv_def ports_ok_def)
  have "roles_ok s'"
    unfolding roles_ok_def
  proof (intro allI impI)
    fix i assume i: "i < STP_MAX_PORTS" "enabled s' i" "root_port s' \<noteq> Some i" "\<not> stp_is_designated_port s' i"
    then have "enabled s i" "root_port s \<noteq> Some i" "\<not> stp_is_designated_port s i"
      using enabled_status [OF st] designated_core [OF assms(1)] assms(1) l by (simp_all add: bridge_status_def)
    then have "port_state (port_at s i) = STP_BLOCKING" using assms(2) i(1) by (simp add: stp_inv_def roles_ok_def)
    then show "port_state (port_at s' i) = STP_BLOCKING" using enabled_status(2) [OF st] i(1) l by simp
  qed
  then show ?thesis
    using assms ports_ok_status [OF st p] root_ok_status [OF st _ l] by (simp add: stp_inv_def)
qed

section \<open>Operations that leave the core alone\<close>

named_theorems core

lemma core_trans: "same_core s t \<Longrightarrow> same_core t u \<Longrightarrow> same_core s u"
  by simp

lemma set_port_core:
  "(\<And>p. port_status (f p) = port_status p) \<Longrightarrow> (\<And>p. port_vector (f p) = port_vector p) \<Longrightarrow> same_core s (set_port s i f)"
  by (simp add: set_port_status set_port_vector)

lemma port_fields_core [core, simp]:
  "same_core s (set_port s i (\<lambda>p. p\<lparr>config_pending := b\<rparr>))"
  "same_core s (set_port s i (\<lambda>p. p\<lparr>topology_change_ack := b\<rparr>))"
  "same_core s (set_port s i (\<lambda>p. p\<lparr>topology_change_ack := b, config_pending := c\<rparr>))"
  "same_core s (set_port s i (\<lambda>p. p\<lparr>config_pending := b, topology_change_ack := c\<rparr>))"
  "same_core s (set_port s i (\<lambda>p. p\<lparr>change_detection_enabled := b\<rparr>))"
  "same_core s (set_port s i (\<lambda>p. p\<lparr>hold_timer := t\<rparr>))"
  "same_core s (set_port s i (\<lambda>p. p\<lparr>message_age_timer := t\<rparr>))"
  "same_core s (set_port s i (\<lambda>p. p\<lparr>message_age_timer := stp_stop_timer (message_age_timer p)\<rparr>))"
  "same_core s (set_port s i (\<lambda>p. p\<lparr>tx_count := tx_count p + 1\<rparr>))"
  "same_core s (set_port s i (\<lambda>p. p\<lparr>rx_count := rx_count p + 1\<rparr>))"
  "same_core s (set_port s i (\<lambda>p. p\<lparr>error_count := error_count p + 1\<rparr>))"
  "same_core s (set_port s i (\<lambda>p. p\<lparr>port_aux := a\<rparr>))"
  by (rule set_port_core; simp add: port_status_def port_vector_def)+

lemma bridge_fields_core [core, simp]:
  "same_core s (s\<lparr>sent := x\<rparr>)" "same_core s (s\<lparr>hello_timer := t\<rparr>)" "same_core s (s\<lparr>tcn_timer := t\<rparr>)"
  "same_core s (s\<lparr>topology_change_timer := t\<rparr>)" "same_core s (s\<lparr>topology_change := b\<rparr>)"
  "same_core s (s\<lparr>topology_change_detected := b\<rparr>)" "same_core s (s\<lparr>fdb_needs_flush := b\<rparr>)"
  "same_core s (s\<lparr>max_age := n\<rparr>)" "same_core s (s\<lparr>hello_time := n\<rparr>)" "same_core s (s\<lparr>forward_delay := n\<rparr>)"
  "same_core s (s\<lparr>bridge_max_age := n\<rparr>)" "same_core s (s\<lparr>bridge_hello_time := n\<rparr>)" "same_core s (s\<lparr>bridge_forward_delay := n\<rparr>)"
  "same_core s (s\<lparr>rq_max_age := n\<rparr>)" "same_core s (s\<lparr>rq_hello_time := n\<rparr>)" "same_core s (s\<lparr>rq_forward_delay := n\<rparr>)"
  "same_core s (s\<lparr>elapsed_remainder := n\<rparr>)"
  by (simp_all add: bridge_status_def ports_status_def ports_vector_def)

lemma send_core [core, simp]: "same_core s (stp_send_bpdu s i bpdu)"
  by (simp add: stp_send_bpdu_def)

lemma transmit_config_core [core, simp]: "same_core s (stp_transmit_config s i)"
  by (simp add: stp_transmit_config_def Let_def)

lemma for_each_induct:
  assumes "P s" and "\<And>s i. i < STP_MAX_PORTS \<Longrightarrow> enabled s i \<Longrightarrow> P s \<Longrightarrow> P (body s i)"
  shows "P (for_each_enabled_port body s)"
proof -
  have "P (foldl (\<lambda>s i. if enabled s i then body s i else s) s is)" if "set is \<subseteq> {..<STP_MAX_PORTS}" for "is"
    using that assms(1) by (induction "is" arbitrary: s) (auto intro: assms(2))
  from this [of "[0..<STP_MAX_PORTS]"] show ?thesis by (simp add: for_each_enabled_port_def atLeast0LessThan)
qed

lemma for_each_core:
  assumes "\<And>s i. same_core s (body s i)"
  shows "same_core s (for_each_enabled_port body s)"
  by (rule for_each_induct [of "same_core s"]) (use assms in auto)

lemma generation_core [core, simp]: "same_core s (stp_config_bpdu_generation s)"
  unfolding stp_config_bpdu_generation_def by (rule for_each_core) simp

lemma transmit_tcn_core [core, simp]: "same_core s (stp_transmit_tcn s)"
  by (simp add: stp_transmit_tcn_def split: option.splits)

lemma detection_core [core, simp]: "same_core s (stp_topology_change_detection s)"
  by (simp add: stp_topology_change_detection_def Let_def)

lemma bridge_ops_core [core, simp]:
  "same_core s (stp_topology_change_acknowledged s)" "same_core s (stp_acknowledge_topology_change s i)"
  "same_core s (stp_become_root_bridge s)" "same_core s (stp_regained_root s b)" "same_core s (stp_lost_root s b)"
  "same_core s (stp_record_config_timeout_values s c)" "same_core s (stp_config_from_root s c)"
  "same_core s (stp_hello_timer_expiry s)" "same_core s (stp_tcn_timer_expiry s)"
  "same_core s (stp_topology_change_timer_expiry s)" "same_core s (stp_hold_timer_expiry s i)"
  "same_core s (bpdu_error s i)" "same_core s (bpdu_received s i)" "same_core s (stp_received_tcn_bpdu s i)"
  "same_core s (stp_update_bridge_timers s)"
  by (simp_all add: stp_topology_change_acknowledged_def stp_acknowledge_topology_change_def
      stp_become_root_bridge_def stp_regained_root_def stp_lost_root_def stp_record_config_timeout_values_def
      stp_config_from_root_def stp_hello_timer_expiry_def stp_tcn_timer_expiry_def stp_topology_change_timer_expiry_def
      stp_hold_timer_expiry_def bpdu_error_def bpdu_received_def stp_received_tcn_bpdu_def stp_update_bridge_timers_def Let_def)

lemma tick_bridge_core [core, simp]: "same_core s (tick_bridge e s)"
  by (simp add: tick_bridge_def Let_def split_beta)

section \<open>Operations that change the core\<close>

lemma become_designated_status [simp]:
  "ports_status (stp_become_designated_port s i) = ports_status s"
  "bridge_status (stp_become_designated_port s i) = bridge_status s"
  by (simp_all add: stp_become_designated_port_def set_port_status port_status_def)

lemma record_information_status [simp]:
  "ports_status (stp_record_config_information s i c) = ports_status s"
  by (simp add: stp_record_config_information_def set_port_status port_status_def)

lemma for_each_status:
  assumes "\<And>s i. ports_status (body s i) = ports_status s" and "\<And>s i. bridge_status (body s i) = bridge_status s"
  shows "ports_status (for_each_enabled_port body s) = ports_status s"
    and "bridge_status (for_each_enabled_port body s) = bridge_status s"
  by (rule for_each_induct [of "\<lambda>t. ports_status t = ports_status s"];
      use assms in simp) (rule for_each_induct [of "\<lambda>t. bridge_status t = bridge_status s"]; use assms in simp)

lemma designated_selection_status [simp]:
  "ports_status (stp_designated_port_selection s) = ports_status s"
  "bridge_status (stp_designated_port_selection s) = bridge_status s"
  unfolding stp_designated_port_selection_def
  by (rule for_each_status; simp add: Let_def)+

lemma root_selection_status [simp]: "ports_status (stp_root_selection s) = ports_status s"
  by (simp add: stp_root_selection_def Let_def ports_status_def split: option.splits)

lemma select_root_candidate:
  assumes "select_root s is = Some r"
  shows "r \<in> set is" and "enabled s r" and "\<not> stp_is_designated_port s r"
    and "port_designated_root (port_at s r) < bridge_id s"
proof -
  have "r \<in> set is \<and> enabled s r \<and> \<not> stp_is_designated_port s r \<and> port_designated_root (port_at s r) < bridge_id s"
    using assms
  proof (induction "is" arbitrary: r rule: rev_induct)
    case Nil
    then show ?case by (simp add: select_root_def)
  next
    case (snoc i "is")
    define root where "root = select_root s is"
    have "select_root s (is @ [i]) = (if \<not> enabled s i then root
       else if stp_is_designated_port s i \<or> port_designated_root (port_at s i) \<ge> bridge_id s then root
       else if (case root of Some r \<Rightarrow> \<not> stp_supersedes_root (port_at s r) (port_at s i) | None \<Rightarrow> False) then root
       else Some i)"
      by (simp add: root_def select_root_def)
    then show ?case using snoc root_def by (auto split: if_splits simp: not_le)
  qed
  then show "r \<in> set is" and "enabled s r" and "\<not> stp_is_designated_port s r"
    and "port_designated_root (port_at s r) < bridge_id s" by simp_all
qed

lemma root_selection_ok: "length (ports s) = STP_MAX_PORTS \<Longrightarrow> root_ok (stp_root_selection s)"
  using select_root_candidate [of s "[0..<STP_MAX_PORTS]"]
  by (auto simp: stp_root_selection_def root_ok_def Let_def port_at_def enabled_def split: option.splits)

lemma configuration_update_ok:
  assumes "ports_ok s"
  shows "ports_ok (stp_configuration_update s)" and "root_ok (stp_configuration_update s)"
proof -
  have l: "length (ports s) = STP_MAX_PORTS" using assms by (simp add: ports_ok_def)
  have st: "ports_status (stp_configuration_update s) = ports_status s" by (simp add: stp_configuration_update_def)
  show "ports_ok (stp_configuration_update s)" by (rule ports_ok_status [OF st assms])
  have "length (ports (stp_root_selection s)) = STP_MAX_PORTS"
    using status_nth(1) [of "stp_root_selection s" s] l by simp
  then show "root_ok (stp_configuration_update s)"
    using root_ok_status [of "stp_configuration_update s" "stp_root_selection s"] root_selection_ok [OF l]
    by (simp add: stp_configuration_update_def)
qed

text \<open>
  Changing the state of one port, together with its forward delay timer: \<open>framed i s s'\<close> says that
  nothing else the invariant depends on changes.
\<close>

definition framed :: "nat \<Rightarrow> stp \<Rightarrow> stp \<Rightarrow> bool" where
  "framed i s s' \<longleftrightarrow> bridge_status s' = bridge_status s \<and> ports_vector s' = ports_vector s \<and>
     length (ports s') = length (ports s) \<and> first_changed_port s' \<le> first_changed_port s \<and>
     port_id (port_at s' i) = port_id (port_at s i) \<and> (enabled s' i \<longleftrightarrow> enabled s i) \<and>
     (\<forall>j < length (ports s). j \<noteq> i \<longrightarrow> port_status (port_at s' j) = port_status (port_at s j)) \<and>
     port_ok (first_changed_port s') i (port_at s' i)"

lemma ports_ok_replace:
  assumes "ports_ok s" and "length (ports s') = length (ports s)" and "first_changed_port s' \<le> first_changed_port s"
    and "\<And>j. j < STP_MAX_PORTS \<Longrightarrow> j \<noteq> i \<Longrightarrow> port_status (port_at s' j) = port_status (port_at s j)"
    and "port_ok (first_changed_port s') i (port_at s' i)"
  shows "ports_ok s'"
proof -
  have "port_ok (first_changed_port s') j (port_at s' j)" if j: "j < STP_MAX_PORTS" for j
  proof (cases "j = i")
    case False
    moreover have "port_ok (first_changed_port s) j (port_at s j)" using assms(1) j by (simp add: ports_ok_def)
    ultimately show ?thesis using assms(3) assms(4) [OF j] by (auto simp: port_ok_def port_status_def)
  qed (use assms(5) in simp)
  then show ?thesis using assms by (auto simp: ports_ok_def)
qed

lemma framed_ports_ok: "framed i s s' \<Longrightarrow> ports_ok s \<Longrightarrow> ports_ok s'"
  by (rule ports_ok_replace [where i = i and s = s]) (auto simp: framed_def ports_ok_def)

lemma framed_facts:
  assumes "framed i s s'" and "j < length (ports s)"
  shows "enabled s' j = enabled s j" and "stp_is_designated_port s' j = stp_is_designated_port s j"
    and "j \<noteq> i \<Longrightarrow> port_state (port_at s' j) = port_state (port_at s j)"
proof -
  have v: "port_vector (port_at s' j) = port_vector (port_at s j)"
    using assms vector_nth [of s' s j] by (simp add: framed_def)
  have st: "j \<noteq> i \<Longrightarrow> port_status (port_at s' j) = port_status (port_at s j)" using assms by (simp add: framed_def)
  show "enabled s' j = enabled s j" using assms st by (cases "j = i") (auto simp: framed_def enabled_def port_status_def)
  show "j \<noteq> i \<Longrightarrow> port_state (port_at s' j) = port_state (port_at s j)" using st by (simp add: port_status_def)
  have "port_id (port_at s' j) = port_id (port_at s j)"
    using assms st by (cases "j = i") (auto simp: framed_def port_status_def)
  then show "stp_is_designated_port s' j = stp_is_designated_port s j"
    using v assms(1) by (simp add: stp_is_designated_port_def port_vector_def framed_def bridge_status_def)
qed

lemma framed_core:
  assumes "same_core s t" and "framed i t u" and "i < length (ports s)"
  shows "framed i s u"
proof -
  have st: "ports_status t = ports_status s" using assms(1) by simp
  have "port_status (port_at t j) = port_status (port_at s j)" if "j < length (ports s)" for j
    by (rule status_nth(3) [OF st that])
  then show ?thesis
    using assms status_nth(1,2) [OF st] enabled_status(1) [OF st assms(3)]
    by (auto simp: framed_def port_status_def)
qed

lemma framed_same:
  assumes "same_core s t" and "ports_ok s" and "i < STP_MAX_PORTS"
  shows "framed i s t"
proof -
  have l: "length (ports s) = STP_MAX_PORTS" using assms(2) by (simp add: ports_ok_def)
  have "framed i t t"
    using ports_ok_status [of t s] assms by (simp add: framed_def ports_ok_def)
  then show ?thesis using framed_core assms(1,3) l by simp
qed

lemma set_state_sel:
  assumes "i < length (ports s)"
  shows "port_at (stp_set_port_state s i st) j =
      (if j = i then (port_at s i)\<lparr>state_changed := state_changed (port_at s i) \<or> st \<noteq> port_state (port_at s i), port_state := st\<rparr>
       else port_at s j)"
    and "first_changed_port (stp_set_port_state s i st) =
      (if st \<noteq> port_state (port_at s i) \<and> \<not> state_changed (port_at s i) then min i (first_changed_port s) else first_changed_port s)"
    and "length (ports (stp_set_port_state s i st)) = length (ports s)"
    and "bridge_status (stp_set_port_state s i st) = bridge_status s"
    and "ports_vector (stp_set_port_state s i st) = ports_vector s"
proof -
  have [simp]: "port_at (s\<lparr>first_changed_port := n\<rparr>) j = port_at s j" for s n j by (simp add: port_at_def)
  have [simp]: "ports_vector (s\<lparr>first_changed_port := n\<rparr>) = ports_vector s" for s n by (simp add: ports_vector_def)
  have [simp]: "bridge_status (s\<lparr>first_changed_port := n\<rparr>) = bridge_status s" for s n by (simp add: bridge_status_def)
  show "port_at (stp_set_port_state s i st) j =
      (if j = i then (port_at s i)\<lparr>state_changed := state_changed (port_at s i) \<or> st \<noteq> port_state (port_at s i), port_state := st\<rparr>
       else port_at s j)"
    using assms by (auto simp: stp_set_port_state_def Let_def port_at_set_port)
  show "first_changed_port (stp_set_port_state s i st) =
      (if st \<noteq> port_state (port_at s i) \<and> \<not> state_changed (port_at s i) then min i (first_changed_port s) else first_changed_port s)"
    by (auto simp: stp_set_port_state_def Let_def)
  show "length (ports (stp_set_port_state s i st)) = length (ports s)" by (simp add: stp_set_port_state_def Let_def)
  show "bridge_status (stp_set_port_state s i st) = bridge_status s" by (simp add: stp_set_port_state_def Let_def)
  show "ports_vector (stp_set_port_state s i st) = ports_vector s"
    by (simp add: stp_set_port_state_def Let_def set_port_vector port_vector_def)
qed

lemma set_state_framed:
  assumes "ports_ok s" and "i < STP_MAX_PORTS" and "st \<noteq> STP_ZERO" and "enabled s i \<longleftrightarrow> st \<noteq> STP_DISABLED"
    and "active (g (port_at (stp_set_port_state s i st) i)) \<longleftrightarrow> st \<in> {STP_LISTENING, STP_LEARNING}"
  shows "framed i s (set_port (stp_set_port_state s i st) i (\<lambda>p. p\<lparr>forward_delay_timer := g p\<rparr>))"
proof -
  have l: "length (ports s) = STP_MAX_PORTS" using assms(1) by (simp add: ports_ok_def)
  have i: "i < length (ports s)" "i < length (ports (stp_set_port_state s i st))"
    using assms(2) l set_state_sel(3) [of i s st] by simp_all
  let ?s = "set_port (stp_set_port_state s i st) i (\<lambda>p. p\<lparr>forward_delay_timer := g p\<rparr>)"
  have at: "port_at ?s j = (if j = i then (port_at (stp_set_port_state s i st) i)
       \<lparr>forward_delay_timer := g (port_at (stp_set_port_state s i st) i)\<rparr> else port_at s j)" for j
    using port_at_set_port [OF i(2)] set_state_sel(1) [OF i(1)] by simp
  have vec: "ports_vector ?s = ports_vector s"
    using set_state_sel(5) [OF i(1)] by (simp add: set_port_vector port_vector_def)
  have ok: "port_ok (first_changed_port s) i (port_at s i)" using assms(1,2) by (simp add: ports_ok_def)
  have "first_changed_port s \<le> i" if "state_changed (port_at s i)" using ok that by (simp add: port_ok_def)
  then have "port_ok (first_changed_port ?s) i (port_at ?s i)"
    using ok assms(3,5) by (auto simp: at port_ok_def set_state_sel(1,2) [OF i(1)])
  moreover have "first_changed_port ?s \<le> first_changed_port s" by (simp add: set_state_sel(2) [OF i(1)])
  moreover have "enabled ?s i = enabled s i" using assms(4) by (simp add: enabled_def at set_state_sel(1) [OF i(1)])
  ultimately show ?thesis
    using vec set_state_sel(3,4) [OF i(1)] by (simp add: framed_def at set_state_sel(1) [OF i(1)])
qed

lemma make_forwarding_framed:
  assumes "ports_ok s" and "i < STP_MAX_PORTS"
  shows "framed i s (stp_make_forwarding s i)"
  using assms framed_same [OF _ assms]
  by (auto simp: stp_make_forwarding_def enabled_def stp_start_timer_def intro!: set_state_framed)

lemma make_blocking_framed:
  assumes "ports_ok s" and "i < STP_MAX_PORTS"
  shows "framed i s (stp_make_blocking s i)"
    and "enabled s i \<Longrightarrow> port_state (port_at (stp_make_blocking s i) i) = STP_BLOCKING"
proof -
  have l: "i < length (ports s)" using assms by (simp add: ports_ok_def)
  define s1 where "s1 = (if port_state (port_at s i) \<in> {STP_FORWARDING, STP_LEARNING} \<and> change_detection_enabled (port_at s i)
                  then stp_topology_change_detection s else s)"
  have c: "same_core s s1" by (simp add: s1_def)
  then have st: "ports_status s1 = ports_status s" by simp
  have ok: "ports_ok s1" by (rule ports_ok_status [OF st assms(1)])
  have l1: "i < length (ports s1)" using ok assms(2) by (simp add: ports_ok_def)
  have eq: "stp_make_blocking s i = (if port_state (port_at s i) \<notin> {STP_DISABLED, STP_BLOCKING}
      then set_port (stp_set_port_state s1 i STP_BLOCKING) i
             (\<lambda>p. p\<lparr>forward_delay_timer := stp_stop_timer (forward_delay_timer p)\<rparr>) else s)"
    by (simp add: stp_make_blocking_def s1_def Let_def)
  show "framed i s (stp_make_blocking s i)"
  proof (cases "port_state (port_at s i) \<notin> {STP_DISABLED, STP_BLOCKING}")
    case True
    then have "enabled s1 i" using enabled_status(1) [OF st l] by (simp add: enabled_def)
    then have "framed i s1 (stp_make_blocking s i)"
      using True unfolding eq by (auto intro!: set_state_framed [OF ok assms(2)] simp: stp_stop_timer_def)
    then show ?thesis by (rule framed_core [OF c _ l])
  next
    case False
    then show ?thesis using framed_same [OF _ assms, of s] by (simp add: eq)
  qed
  show "port_state (port_at (stp_make_blocking s i) i) = STP_BLOCKING" if "enabled s i"
    using that l1 set_state_sel(1,3) [OF l1] by (auto simp: eq port_at_set_port enabled_def)
qed

text \<open>The body of \<^verbatim>\<open>stp_port_state_selection\<close>.\<close>

definition select_state :: "stp \<Rightarrow> nat \<Rightarrow> stp" where
  "select_state s i =
     (if Some i = root_port s
      then stp_make_forwarding (set_port s i (\<lambda>p. p\<lparr>config_pending := False, topology_change_ack := False\<rparr>)) i
      else if stp_is_designated_port s i
      then stp_make_forwarding (set_port s i (\<lambda>p. p\<lparr>message_age_timer := stp_stop_timer (message_age_timer p)\<rparr>)) i
      else stp_make_blocking (set_port s i (\<lambda>p. p\<lparr>config_pending := False, topology_change_ack := False\<rparr>)) i)"

lemma state_selection_eq: "stp_port_state_selection = for_each_enabled_port select_state"
  by (simp add: stp_port_state_selection_def select_state_def [abs_def])

lemma select_state_framed:
  assumes "ports_ok s" and "i < STP_MAX_PORTS"
  shows "framed i s (select_state s i)"
    and "enabled s i \<Longrightarrow> root_port s \<noteq> Some i \<Longrightarrow> \<not> stp_is_designated_port s i \<Longrightarrow>
      port_state (port_at (select_state s i) i) = STP_BLOCKING"
proof -
  have l: "i < length (ports s)" using assms by (simp add: ports_ok_def)
  let ?a = "set_port s i (\<lambda>p. p\<lparr>config_pending := False, topology_change_ack := False\<rparr>)"
  let ?b = "set_port s i (\<lambda>p. p\<lparr>message_age_timer := stp_stop_timer (message_age_timer p)\<rparr>)"
  have a: "same_core s ?a" and b: "same_core s ?b" by simp_all
  have oka: "ports_ok ?a" and okb: "ports_ok ?b" using ports_ok_status assms(1) a b by blast+
  show "framed i s (select_state s i)"
    unfolding select_state_def
    using framed_core [OF a make_forwarding_framed [OF oka assms(2)] l]
      framed_core [OF b make_forwarding_framed [OF okb assms(2)] l]
      framed_core [OF a make_blocking_framed(1) [OF oka assms(2)] l] by simp
  have "enabled ?a i = enabled s i" using a enabled_status(1) l by blast
  then show "port_state (port_at (select_state s i) i) = STP_BLOCKING"
    if "enabled s i" "root_port s \<noteq> Some i" "\<not> stp_is_designated_port s i"
    using that make_blocking_framed(2) [OF oka assms(2)] by (auto simp: select_state_def)
qed

text \<open>The loop: after the ports of \<open>is\<close> have been visited.\<close>

definition selected :: "stp \<Rightarrow> nat set \<Rightarrow> stp \<Rightarrow> bool" where
  "selected s done t \<longleftrightarrow> bridge_status t = bridge_status s \<and> ports_ok t \<and>
     (\<forall>i < STP_MAX_PORTS. enabled t i = enabled s i \<and> stp_is_designated_port t i = stp_is_designated_port s i \<and>
        (i \<in> done \<and> enabled s i \<and> root_port s \<noteq> Some i \<and> \<not> stp_is_designated_port s i \<longrightarrow>
           port_state (port_at t i) = STP_BLOCKING))"

lemma selected_step:
  assumes "selected s done t" and "i < STP_MAX_PORTS"
  shows "selected s (insert i done) (if enabled t i then select_state t i else t)"
proof (cases "enabled t i")
  case False
  then show ?thesis using assms by (auto simp: selected_def)
next
  case True
  have ok: "ports_ok t" and l: "length (ports t) = STP_MAX_PORTS" and root: "root_port t = root_port s"
    using assms(1) by (simp_all add: selected_def ports_ok_def bridge_status_def)
  note fr = select_state_framed [OF ok assms(2)]
  note facts = framed_facts [OF fr(1), unfolded l]
  have b: "bridge_status (select_state t i) = bridge_status s" using fr(1) assms(1) by (simp add: framed_def selected_def)
  have "port_state (port_at (select_state t i) j) = STP_BLOCKING"
    if "j < STP_MAX_PORTS" "j \<in> insert i done" "enabled s j" "root_port s \<noteq> Some j" "\<not> stp_is_designated_port s j" for j
    using that fr(2) facts(3) [of j] assms(1) root by (cases "j = i") (auto simp: selected_def)
  then show ?thesis
    using True b framed_ports_ok [OF fr(1) ok] facts(1,2) assms(1) by (simp add: selected_def)
qed

lemma selection_selected:
  assumes "ports_ok s"
  shows "selected s {..<STP_MAX_PORTS} (stp_port_state_selection s)"
proof -
  have "selected s (set is) (foldl (\<lambda>s i. if enabled s i then select_state s i else s) s is)"
    if "set is \<subseteq> {..<STP_MAX_PORTS}" for "is"
    using that
  proof (induction "is" rule: rev_induct)
    case Nil
    then show ?case using assms by (simp add: selected_def)
  next
    case (snoc i "is")
    then show ?case using selected_step by simp
  qed
  from this [of "[0..<STP_MAX_PORTS]"] show ?thesis
    by (simp add: state_selection_eq for_each_enabled_port_def atLeast0LessThan)
qed

lemma state_selection_inv:
  assumes "ports_ok s" and "root_ok s"
  shows "stp_inv (stp_port_state_selection s)"
proof -
  note sel = selection_selected [OF assms(1)]
  have "root_ok (stp_port_state_selection s)"
    using sel assms(2) by (auto simp: selected_def root_ok_def bridge_status_def split: option.splits)
  moreover have "roles_ok (stp_port_state_selection s)"
    using sel by (auto simp: selected_def roles_ok_def bridge_status_def)
  ultimately show ?thesis using sel by (simp add: selected_def stp_inv_def)
qed

lemma reselect_inv:
  assumes "ports_ok s"
  shows "stp_inv (stp_port_state_selection (stp_configuration_update s))"
  using state_selection_inv configuration_update_ok [OF assms] by simp

section \<open>Every operation keeps the invariant\<close>

lemma stp_inv_ports: "stp_inv s \<Longrightarrow> ports_ok s"
  by (simp add: stp_inv_def)

lemma received_config_inv:
  assumes "stp_inv s"
  shows "stp_inv (stp_received_config_bpdu s i c)"
proof -
  have "ports_ok (stp_record_config_information s i c)"
    using ports_ok_status [OF record_information_status stp_inv_ports [OF assms]] .
  note r = reselect_inv [OF this]
  show ?thesis
    using assms stp_inv_core [OF _ r] stp_inv_core [OF transmit_config_core assms]
    by (simp add: stp_received_config_bpdu_def Let_def)
qed

lemma received_bpdu_inv:
  assumes "stp_inv s"
  shows "stp_inv (stp_received_bpdu s i bpdu)"
  using assms stp_inv_core [OF _ assms] stp_inv_core [OF _ received_config_inv [OF assms]]
  by (simp add: stp_received_bpdu_def)

lemma message_age_expiry_inv:
  assumes "stp_inv s"
  shows "stp_inv (stp_message_age_timer_expiry s i)"
proof -
  have "ports_ok (stp_become_designated_port s i)"
    using ports_ok_status [OF become_designated_status(1) stp_inv_ports [OF assms]] .
  note r = reselect_inv [OF this]
  show ?thesis
    using r stp_inv_core [OF _ r] by (simp add: stp_message_age_timer_expiry_def Let_def)
qed

lemma tick_message_age_inv:
  assumes "stp_inv s"
  shows "stp_inv (tick_message_age e s i)"
  using message_age_expiry_inv stp_inv_core [OF _ assms] by (simp add: tick_message_age_def Let_def split_beta)

lemma framed_inv:
  assumes "framed i s s'" and "stp_inv s" and "i < STP_MAX_PORTS"
    and "port_state (port_at s i) = STP_BLOCKING \<longrightarrow> port_state (port_at s' i) = STP_BLOCKING"
  shows "stp_inv s'"
proof -
  have l: "length (ports s) = STP_MAX_PORTS" using assms(2) by (simp add: stp_inv_def ports_ok_def)
  note f = framed_facts [OF assms(1), unfolded l]
  have b: "root_port s' = root_port s" "designated_root s' = designated_root s" "bridge_id s' = bridge_id s"
    "root_path_cost s' = root_path_cost s" using assms(1) by (simp_all add: framed_def bridge_status_def)
  have "roles_ok s'" unfolding roles_ok_def b
    using f assms(2,4) by (metis roles_ok_def stp_inv_def)
  moreover have "root_ok s'" using assms(2) f(1) by (auto simp: stp_inv_def root_ok_def b split: option.splits)
  ultimately show ?thesis using framed_ports_ok [OF assms(1)] assms(2) by (simp add: stp_inv_def)
qed

text \<open>
  The forward delay timer: when it expires the port moves on and the timer is started again or
  stays stopped, so the invariant of the timer holds again at the end.
\<close>

lemma tick_forward_delay_inv:
  assumes "stp_inv s" and "i < STP_MAX_PORTS"
  shows "stp_inv (tick_forward_delay e s i)"
proof -
  have l: "i < length (ports s)" and ok: "ports_ok s" using assms by (simp_all add: stp_inv_def ports_ok_def)
  have p: "port_ok (first_changed_port s) i (port_at s i)" using ok assms(2) by (simp add: ports_ok_def)
  obtain x t where t: "stp_timer_expired (forward_delay_timer (port_at s i)) e (forward_delay s) = (x, t)" by fastforce
  define s1 where "s1 = set_port s i (\<lambda>p. p\<lparr>forward_delay_timer := t\<rparr>)"
  have at1: "port_at s1 j = (if j = i then (port_at s i)\<lparr>forward_delay_timer := t\<rparr> else port_at s j)" for j
    using port_at_set_port [OF l] by (simp add: s1_def)
  have l1: "i < length (ports s1)" using l by (simp add: s1_def)
  have v1: "ports_vector s1 = ports_vector s" "bridge_status s1 = bridge_status s" "length (ports s1) = length (ports s)"
    "first_changed_port s1 = first_changed_port s"
    by (simp_all add: s1_def set_port_vector port_vector_def)
  have act: "active t \<longleftrightarrow> active (forward_delay_timer (port_at s i)) \<and> \<not> x"
    "x \<longrightarrow> active (forward_delay_timer (port_at s i))"
    using t by (auto simp: stp_timer_expired_def Let_def split: if_splits)
  have tick: "tick_forward_delay e s i = (if x then stp_forward_delay_timer_expiry s1 i else s1)"
    by (simp add: tick_forward_delay_def t s1_def)
  define s2 where "s2 = (if port_state (port_at s i) = STP_LISTENING
      then set_port (stp_set_port_state s1 i STP_LEARNING) i (\<lambda>p. p\<lparr>forward_delay_timer := stp_start_timer 0\<rparr>)
      else stp_set_port_state s1 i STP_FORWARDING)"
  have l2: "i < length (ports (stp_set_port_state s1 i st))" for st using l1 set_state_sel(3) [OF l1] by simp
  show ?thesis
  proof (cases x)
    case False
    then have "framed i s s1" using p act by (simp add: framed_def at1 v1 enabled_def port_ok_def)
    then show ?thesis using False framed_inv [OF _ assms(1,2)] by (simp add: tick at1)
  next
    case True
    have x: "port_state (port_at s i) = STP_LISTENING \<or> port_state (port_at s i) = STP_LEARNING" "\<not> active t"
      using p act True by (simp_all add: port_ok_def)
    have "framed i s s2"
      using x p
      by (auto simp: framed_def s2_def v1 at1 set_state_sel [OF l1] port_at_set_port [OF l2] set_port_vector port_vector_def
          enabled_def port_ok_def stp_start_timer_def)
    then have i2: "stp_inv s2" using x(1) by (intro framed_inv [OF _ assms(1,2)]) auto
    have "same_core s2 (stp_forward_delay_timer_expiry s1 i)"
      using x(1) by (auto simp: s2_def stp_forward_delay_timer_expiry_def Let_def at1)
    then show ?thesis using True stp_inv_core [OF _ i2] by (simp add: tick)
  qed
qed

lemma tick_hold_inv:
  assumes "stp_inv s"
  shows "stp_inv (tick_hold e s i)"
  using stp_inv_core [OF _ assms] by (simp add: tick_hold_def Let_def split_beta)

lemma tick_inv:
  assumes "stp_inv s"
  shows "stp_inv (stp_tick s ms)"
proof -
  have i1: "stp_inv (s\<lparr>elapsed_remainder := n\<rparr>)" for n using stp_inv_core [OF _ assms] by simp
  have i2: "stp_inv (tick_bridge e (s\<lparr>elapsed_remainder := n\<rparr>))" for e n using stp_inv_core [OF _ i1] by simp
  have i3: "stp_inv (for_each_enabled_port (tick_message_age e) (tick_bridge e (s\<lparr>elapsed_remainder := n\<rparr>)))" for e n
    by (rule for_each_induct) (use i2 tick_message_age_inv in simp_all)
  have i4: "stp_inv (for_each_enabled_port (\<lambda>s i. tick_hold e (tick_forward_delay e s i) i)
      (for_each_enabled_port (tick_message_age e) (tick_bridge e (s\<lparr>elapsed_remainder := n\<rparr>))))" for e n
    by (rule for_each_induct) (use i3 tick_forward_delay_inv tick_hold_inv in simp_all)
  show ?thesis using i1 i4 by (simp add: stp_tick_def elapsed_ticks_def Let_def)
qed

lemma stop_port_ok:
  assumes "ports_ok s" and "i < STP_MAX_PORTS" and "st \<in> {STP_DISABLED, STP_BLOCKING}"
    and "\<And>p. port_id (f p) = port_id p" and "\<And>p. port_state (f p) = port_state p"
    and "\<And>p. state_changed (f p) = state_changed p" and "\<And>p. \<not> active (forward_delay_timer (f p))"
  shows "ports_ok (set_port (stp_set_port_state s i st) i f)"
proof -
  have l: "i < length (ports s)" using assms(1,2) by (simp add: ports_ok_def)
  have l2: "i < length (ports (stp_set_port_state s i st))" using l set_state_sel(3) [OF l] by simp
  have ok: "port_ok (first_changed_port s) i (port_at s i)" using assms(1,2) by (simp add: ports_ok_def)
  show ?thesis
  proof (rule ports_ok_replace [OF assms(1), where i = i])
    show "port_ok (first_changed_port (set_port (stp_set_port_state s i st) i f)) i
        (port_at (set_port (stp_set_port_state s i st) i f) i)"
      using ok assms(3-7) by (auto simp: port_at_set_port [OF l2] port_ok_def set_state_sel [OF l])
  qed (simp_all add: port_at_set_port [OF l2] set_state_sel [OF l])
qed

lemma initialize_port_ok:
  assumes "ports_ok s" and "i < STP_MAX_PORTS" and "st \<in> {STP_DISABLED, STP_BLOCKING}"
  obtains s' where "stp_initialize_port s i st = Some s'" and "ports_ok s'" and "bridge_status s' = bridge_status s"
    and "\<And>j. j < STP_MAX_PORTS \<Longrightarrow> j \<noteq> i \<Longrightarrow> enabled s' j = enabled s j"
    and "\<And>j. j < STP_MAX_PORTS \<Longrightarrow> j \<noteq> i \<Longrightarrow> port_at s' j = port_at s j"
proof -
  have d: "ports_ok (stp_become_designated_port s i)"
    using ports_ok_status [OF become_designated_status(1) assms(1)] .
  have l: "i < length (ports s)" "i < length (ports (stp_become_designated_port s i))"
    using assms(1,2) d by (simp_all add: ports_ok_def)
  have l2: "i < length (ports (stp_set_port_state (stp_become_designated_port s i) i st))" for st
    using l set_state_sel(3) by simp
  have pd: "j \<noteq> i \<Longrightarrow> port_at (stp_become_designated_port s i) j = port_at s j" for j
    using l by (simp add: stp_become_designated_port_def port_at_set_port)
  obtain s' where s': "stp_initialize_port s i st = Some s'"
    using assms(3) by (auto simp: stp_initialize_port_def)
  have "ports_ok s'"
    using s' assms(3) stop_port_ok [OF d assms(2,3)] by (auto simp: stp_initialize_port_def stp_stop_timer_def split: if_splits)
  moreover have "bridge_status s' = bridge_status s"
    using s' set_state_sel(4) [OF l(2)] by (auto simp: stp_initialize_port_def split: if_splits)
  moreover have at: "port_at s' j = port_at s j" if "j \<noteq> i" for j
    using s' that pd set_state_sel(1) [OF l(2)] by (auto simp: stp_initialize_port_def port_at_set_port [OF l2] split: if_splits)
  ultimately show ?thesis using that s' by (simp add: enabled_def)
qed

lemma port_enable_inv:
  assumes "stp_inv s" and "i < STP_MAX_PORTS"
  shows "\<exists>s'. stp_port_enable s i = Some s' \<and> stp_inv s'"
proof (cases "port_state (port_at s i) = STP_DISABLED")
  case True
  obtain s' where s': "stp_initialize_port s i STP_BLOCKING = Some s'" "ports_ok s'" "bridge_status s' = bridge_status s"
    "\<And>j. j < STP_MAX_PORTS \<Longrightarrow> j \<noteq> i \<Longrightarrow> enabled s' j = enabled s j"
    by (rule initialize_port_ok [OF stp_inv_ports [OF assms(1)] assms(2), of STP_BLOCKING]) auto
  have "root_port s \<noteq> Some i" using assms(1) True by (auto simp: stp_inv_def root_ok_def enabled_def)
  then have "root_ok s'"
    using assms(1) s'(3,4) by (auto simp: stp_inv_def root_ok_def bridge_status_def split: option.splits)
  then show ?thesis using True s' state_selection_inv by (simp add: stp_port_enable_def)
next
  case False
  then show ?thesis using assms(1) by (simp add: stp_port_enable_def)
qed

lemma port_disable_inv:
  assumes "stp_inv s" and "i < STP_MAX_PORTS"
  shows "stp_inv (stp_port_disable s i)"
proof -
  let ?f = "\<lambda>p. p\<lparr>topology_change_ack := False, config_pending := False,
                   message_age_timer := stp_stop_timer (message_age_timer p),
                   forward_delay_timer := stp_stop_timer (forward_delay_timer p)\<rparr>"
  have d: "ports_ok (stp_become_designated_port s i)"
    using ports_ok_status [OF become_designated_status(1) stp_inv_ports [OF assms(1)]] .
  have "ports_ok (set_port (stp_set_port_state (stp_become_designated_port s i) i STP_DISABLED) i ?f)"
    by (rule stop_port_ok [OF d assms(2)]) (simp_all add: stp_stop_timer_def)
  from stp_inv_core [OF _ reselect_inv [OF this]] assms(1) show ?thesis
    by (simp add: stp_port_disable_def Let_def)
qed

lemma set_path_cost_inv:
  assumes "stp_inv s" and "i < STP_MAX_PORTS"
  shows "stp_inv (stp_port_set_path_cost s i c)"
proof -
  have l: "i < length (ports s)" using assms by (simp add: stp_inv_def ports_ok_def)
  have "ports_ok (set_port s i (\<lambda>p. p\<lparr>path_cost := ucast c\<rparr>))"
    using assms by (intro ports_ok_replace [OF stp_inv_ports [OF assms(1)], where i = i])
      (simp_all add: port_at_set_port [OF l] stp_inv_def ports_ok_def port_ok_def)
  from reselect_inv [OF this] assms(1) show ?thesis by (simp add: stp_port_set_path_cost_def)
qed

lemma set_bridge_id_inv:
  assumes "stp_inv s"
  shows "stp_inv (set_bridge_id s bid)"
proof -
  define s1 where "s1 = for_each_enabled_port (\<lambda>s i. if stp_is_designated_port s i
                   then set_port s i (\<lambda>p. p\<lparr>port_designated_bridge := bid\<rparr>) else s) s"
  have "ports_status s1 = ports_status s"
    unfolding s1_def by (rule for_each_status) (simp_all add: set_port_status port_status_def)
  then have "ports_status (s1\<lparr>bridge_id := bid\<rparr>) = ports_status s" by (simp add: ports_status_def)
  note r = reselect_inv [OF ports_ok_status [OF this stp_inv_ports [OF assms]]]
  show ?thesis using assms stp_inv_core [OF _ r] by (simp add: set_bridge_id_def Let_def s1_def)
qed

lemma priority_bits: "((x :: u16) AND 0xff OR push_bit 8 (ucast (n :: u8))) AND 0xff = x AND 0xff"
proof (rule bit_word_eqI)
  fix k assume "k < LENGTH(16)"
  have ff: "(0xff :: u16) = mask 8" by (simp add: mask_eq_exp_minus_1)
  show "bit ((x AND 0xff OR push_bit 8 (ucast n)) AND 0xff) k = bit (x AND 0xff) k"
    unfolding ff by (auto simp: bit_simps)
qed

lemma set_priority_inv:
  assumes "stp_inv s" and "i < STP_MAX_PORTS"
  shows "stp_inv (stp_port_set_priority s i n)"
proof -
  have l: "i < length (ports s)" using assms by (simp add: stp_inv_def ports_ok_def)
  define new_id where "new_id = (port_id (port_at s i) AND 0xff) OR push_bit 8 (ucast n)"
  have id: "new_id AND 0xff = port_id (port_at s i) AND 0xff" unfolding new_id_def by (rule priority_bits)
  define s1 where "s1 = (if stp_is_designated_port s i
                     then set_port s i (\<lambda>p. p\<lparr>port_designated_port := new_id\<rparr>) else s)"
  define s2 where "s2 = set_port s1 i (\<lambda>p. p\<lparr>port_id := new_id\<rparr>)"
  have l1: "i < length (ports s1)" using l by (simp add: s1_def)
  have at: "port_at s2 j = (if j = i then (port_at s i)\<lparr>port_designated_port :=
        (if stp_is_designated_port s i then new_id else port_designated_port (port_at s i)), port_id := new_id\<rparr>
      else port_at s j)" for j
    using l l1 by (simp add: s2_def s1_def port_at_set_port)
  have b: "bridge_status s2 = bridge_status s" "length (ports s2) = length (ports s)"
    "first_changed_port s2 = first_changed_port s" by (simp_all add: s2_def s1_def)
  have ok: "ports_ok s2"
    using assms b by (intro ports_ok_replace [OF stp_inv_ports [OF assms(1)], where i = i])
      (auto simp: at stp_inv_def ports_ok_def port_ok_def id)
  have root: "root_ok s2" using assms(1) b by (auto simp: stp_inv_def root_ok_def bridge_status_def enabled_def at split: option.splits)
  have "stp_is_designated_port s2 j" if "stp_is_designated_port s j" for j
    using that b(1) by (auto simp: stp_is_designated_port_def at bridge_status_def)
  then have "roles_ok s2"
    using assms(1) b(1) by (auto simp: stp_inv_def roles_ok_def enabled_def at bridge_status_def)
  then have i2: "stp_inv s2" using ok root by (simp add: stp_inv_def)
  have "ports_ok (stp_become_designated_port s2 i)" "root_ok (stp_become_designated_port s2 i)"
    using ports_ok_status [OF become_designated_status(1) ok]
      root_ok_status [OF become_designated_status(1,2)] root ok by (simp_all add: ports_ok_def)
  then have i3: "stp_inv (stp_port_state_selection (stp_become_designated_port s2 i))" by (rule state_selection_inv)
  have "stp_port_set_priority s i n = (if port_id (port_at s i) \<noteq> new_id then
           if bridge_id s2 = port_designated_bridge (port_at s2 i)
                 \<and> port_id (port_at s2 i) < port_designated_port (port_at s2 i)
              then stp_port_state_selection (stp_become_designated_port s2 i) else s2
         else s)"
    unfolding stp_port_set_priority_def Let_def new_id_def [symmetric] s1_def [symmetric] s2_def [symmetric] ..
  then show ?thesis using i2 i3 assms(1) by simp
qed

text \<open>Handing out a port whose state has changed.\<close>

lemma changed_port_from_result:
  assumes "p \<le> STP_MAX_PORTS"
  shows "case changed_port_from s p of
      (None, s') \<Rightarrow> (\<forall>i < STP_MAX_PORTS. p \<le> i \<longrightarrow> \<not> state_changed (port_at s i)) \<and>
        s' = s\<lparr>first_changed_port := STP_MAX_PORTS\<rparr>
    | (Some q, s') \<Rightarrow> p \<le> q \<and> q < STP_MAX_PORTS \<and> state_changed (port_at s q) \<and>
        (\<forall>i < q. p \<le> i \<longrightarrow> \<not> state_changed (port_at s i)) \<and>
        s' = (set_port s q (\<lambda>r. r\<lparr>state_changed := False\<rparr>))\<lparr>first_changed_port := q + 1\<rparr>"
  using assms
proof (induction s p rule: changed_port_from.induct)
  case (1 s p)
  show ?case
  proof (cases "p < STP_MAX_PORTS \<and> \<not> state_changed (port_at s p)")
    case True
    have eq: "changed_port_from s p = changed_port_from s (p + 1)" using True by (simp add: changed_port_from.simps [of s p])
    have "\<not> state_changed (port_at s i)" if "i \<le> p" "p \<le> i" for i using that True by (simp add: le_antisym)
    then have skip: "(\<forall>i < n. p + 1 \<le> i \<longrightarrow> \<not> state_changed (port_at s i)) \<longrightarrow>
        (\<forall>i < n. p \<le> i \<longrightarrow> \<not> state_changed (port_at s i))" for n
      using not_less_eq_eq by auto
    obtain r t where rt: "changed_port_from s (p + 1) = (r, t)" by fastforce
    have "p + 1 \<le> STP_MAX_PORTS" using True by simp
    from "1.IH" [OF _ _ this] True show ?thesis unfolding eq rt using skip by (cases r) auto
  next
    case False
    then have "p = STP_MAX_PORTS \<or> p < STP_MAX_PORTS \<and> state_changed (port_at s p)" using "1.prems" by auto
    then show ?thesis by (elim disjE) (subst changed_port_from.simps, simp)+
  qed
qed

lemma get_changed_port_inv:
  assumes "stp_inv s" and "stp_get_changed_port s = (q, s')"
  shows "stp_inv s'"
proof -
  have ok: "ports_ok s" and l: "length (ports s) = STP_MAX_PORTS" and f: "first_changed_port s \<le> STP_MAX_PORTS"
    using assms(1) by (simp_all add: stp_inv_def ports_ok_def)
  have low: "first_changed_port s \<le> i" if "i < STP_MAX_PORTS" "state_changed (port_at s i)" for i
    using ok that by (simp add: ports_ok_def port_ok_def)
  note r = changed_port_from_result [OF f, of s, folded stp_get_changed_port_def, unfolded assms(2)]
  define at where "at = (\<lambda>i. if q = Some i then (port_at s i)\<lparr>state_changed := False\<rparr> else port_at s i)"
  have sel: "port_id (at i) = port_id (port_at s i)" "port_state (at i) = port_state (port_at s i)"
    "forward_delay_timer (at i) = forward_delay_timer (port_at s i)"
    "port_designated_bridge (at i) = port_designated_bridge (port_at s i)"
    "port_designated_port (at i) = port_designated_port (port_at s i)" for i by (simp_all add: at_def)
  have at: "port_at s' i = at i" if "i < STP_MAX_PORTS" for i
  proof (cases q)
    case None
    then show ?thesis using r by (simp add: at_def port_at_def)
  next
    case (Some j)
    then show ?thesis using r l that by (auto simp: at_def set_port_def port_at_def nth_list_update)
  qed
  have b: "bridge_status s' = bridge_status s \<and> length (ports s') = length (ports s) \<and>
      first_changed_port s' \<le> STP_MAX_PORTS"
    using r by (cases q) (auto simp: bridge_status_def set_port_def)
  have "first_changed_port s' \<le> i" if i: "i < STP_MAX_PORTS" "state_changed (at i)" for i
  proof (cases q)
    case None
    then show ?thesis using r i low by (auto simp: at_def)
  next
    case (Some j)
    then have "i \<noteq> j" "state_changed (port_at s i)" using i by (auto simp: at_def split: if_splits)
    then have "\<not> i < j" using r Some low [OF i(1)] by auto
    then show ?thesis using r Some \<open>i \<noteq> j\<close> by simp
  qed
  then have "ports_ok s'" using ok l b by (simp add: ports_ok_def port_ok_def at sel)
  moreover have en: "enabled s' i = enabled s i" "port_state (port_at s' i) = port_state (port_at s i)"
    "stp_is_designated_port s' i = stp_is_designated_port s i" if "i < STP_MAX_PORTS" for i
    using that b by (simp_all add: enabled_def at sel stp_is_designated_port_def bridge_status_def)
  then have "root_ok s' \<and> roles_ok s'"
    using assms(1) b by (simp add: stp_inv_def root_ok_def roles_ok_def bridge_status_def cong: option.case_cong)
      (auto split: option.splits)
  ultimately show ?thesis by (simp add: stp_inv_def)
qed

section \<open>Creation\<close>

lemma default_port_id: "i < 255 \<Longrightarrow> ((word_of_nat (i + 1) :: u16) OR push_bit 8 STP_DEFAULT_PORT_PRIORITY) AND 0xff = word_of_nat (i + 1)"
proof -
  assume "i < 255"
  then have "take_bit 8 (i + 1) = i + 1" by (simp add: take_bit_nat_eq_self)
  then have "take_bit 8 (word_of_nat (i + 1) :: u16) = word_of_nat (i + 1)" by (metis take_bit_of_nat)
  moreover have ff: "(0xff :: u16) = mask 8" by (simp add: mask_eq_exp_minus_1)
  moreover have "(x OR push_bit 8 y) AND mask 8 = x AND mask 8" for x y :: u16
    by (rule bit_word_eqI) (auto simp: bit_simps)
  ultimately show ?thesis by (simp only: take_bit_eq_mask)
qed

definition created :: "(u64 \<times> u64 \<times> u32 \<times> nat option) \<Rightarrow> nat \<Rightarrow> stp \<Rightarrow> bool" where
  "created b k s \<longleftrightarrow> length (ports s) = STP_MAX_PORTS \<and> first_changed_port s \<le> STP_MAX_PORTS \<and> bridge_status s = b \<and>
     (\<forall>j < k. port_ok (first_changed_port s) j (port_at s j) \<and> \<not> enabled s j \<and> port_aux (port_at s j) = None) \<and>
     (\<forall>j. k \<le> j \<and> j < STP_MAX_PORTS \<longrightarrow> port_at s j = zero_port)"

lemma create_port_step:
  assumes "created b k s" and "k < STP_MAX_PORTS"
  shows "\<exists>s'. create_port s k = Some s' \<and> created b (Suc k) s'"
proof -
  have l: "k < length (ports s)" and z: "port_at s k = zero_port" using assms by (simp_all add: created_def)
  define s1 where "s1 = stp_become_designated_port (set_port s k (\<lambda>p. p\<lparr>port_id := word_of_nat (k + 1) OR
      push_bit 8 STP_DEFAULT_PORT_PRIORITY, path_cost := 19\<rparr>)) k"
  have l1: "k < length (ports s1)" using l by (simp add: s1_def stp_become_designated_port_def)
  have l2: "k < length (ports (stp_set_port_state s1 k STP_DISABLED))" using l1 set_state_sel(3) [OF l1] by simp
  have at1: "j \<noteq> k \<Longrightarrow> port_at s1 j = port_at s j" "port_id (port_at s1 k) = word_of_nat (k + 1) OR push_bit 8 STP_DEFAULT_PORT_PRIORITY"
    "port_state (port_at s1 k) = STP_ZERO" "\<not> state_changed (port_at s1 k)" for j
    using l z by (simp_all add: s1_def stp_become_designated_port_def port_at_set_port zero_port_def)
  have b1: "bridge_status s1 = bridge_status s" "length (ports s1) = length (ports s)" "first_changed_port s1 = first_changed_port s"
    by (simp_all add: s1_def stp_become_designated_port_def)
  define f where "f = (\<lambda>p :: stp_port. p\<lparr>topology_change_ack := False, config_pending := False, change_detection_enabled := True,
                    port_aux := None, message_age_timer := stp_stop_timer (message_age_timer p),
                    forward_delay_timer := stp_stop_timer (forward_delay_timer p),
                    hold_timer := stp_stop_timer (hold_timer p), tx_count := 0, rx_count := 0, error_count := 0\<rparr>)"
  define s' where "s' = set_port (stp_set_port_state s1 k STP_DISABLED) k f"
  have cr: "create_port s k = Some s'" by (simp add: create_port_def stp_initialize_port_def s1_def s'_def f_def)
  have at': "port_at s' j = (if j = k then f (port_at (stp_set_port_state s1 k STP_DISABLED) k) else port_at s j)" for j
    using port_at_set_port [OF l2] set_state_sel(1) [OF l1] at1 by (simp add: s'_def)
  have fst': "first_changed_port s' = min k (first_changed_port s)"
    using set_state_sel(2) [OF l1] at1 b1 by (simp add: s'_def)
  have "port_ok (first_changed_port s') k (port_at s' k) \<and> \<not> enabled s' k \<and> port_aux (port_at s' k) = None"
    using at1 default_port_id [of k] assms(2)
    by (simp add: at' fst' f_def port_ok_def set_state_sel(1) [OF l1] enabled_def stp_stop_timer_def STP_MAX_PORTS_def)
  moreover have "port_ok (first_changed_port s') j (port_at s' j) \<and> \<not> enabled s' j \<and> port_aux (port_at s' j) = None" if "j < k" for j
    using that assms(1) by (auto simp: created_def at' fst' port_ok_def enabled_def)
  moreover have "bridge_status s' = b" "length (ports s') = STP_MAX_PORTS"
    using set_state_sel(3,4) [OF l1] b1 assms(1) by (simp_all add: s'_def created_def)
  ultimately have "created b (Suc k) s'"
    using assms by (auto simp: created_def at' fst' less_Suc_eq)
  then show ?thesis using cr by blast
qed

lemma stp_create_fresh:
  "\<exists>s. stp_create nm bid = Some s \<and> stp_inv s \<and> (\<forall>i < STP_MAX_PORTS. \<not> enabled s i \<and> port_aux (port_at s i) = None)"
proof -
  have loop: "\<exists>s'. foldl (\<lambda>os i. case os of None \<Rightarrow> None | Some s \<Rightarrow> create_port s i) (Some s) [0..<k] = Some s' \<and> created b k s'"
    if "created b 0 s" "k \<le> STP_MAX_PORTS" for b s k
    using that
  proof (induction k)
    case (Suc k)
    then obtain s' where s': "foldl (\<lambda>os i. case os of None \<Rightarrow> None | Some s \<Rightarrow> create_port s i) (Some s) [0..<k] = Some s'"
      "created b k s'" by auto
    then show ?case using create_port_step [OF s'(2)] Suc.prems(2) by simp
  qed auto
  have all: "stp_inv s \<and> (\<forall>i < STP_MAX_PORTS. \<not> enabled s i \<and> port_aux (port_at s i) = None)"
    if "created (i, i, 0, None) STP_MAX_PORTS s" for i s
    using that by (auto simp: created_def stp_inv_def ports_ok_def root_ok_def roles_ok_def bridge_status_def)
  have u: "ports (stp_update_bridge_timers s) = ports s" "bridge_id (stp_update_bridge_timers s) = bridge_id s"
    "root_path_cost (stp_update_bridge_timers s) = root_path_cost s" "root_port (stp_update_bridge_timers s) = root_port s" for s
    by (simp_all add: stp_update_bridge_timers_def Let_def)
  define id where "id = (if drop_bit 48 bid = 0 then bid OR push_bit 48 STP_DEFAULT_BRIDGE_PRIORITY else bid)"
  have "\<exists>s0. stp_create nm bid =
      foldl (\<lambda>os i. case os of None \<Rightarrow> None | Some s \<Rightarrow> create_port s i) (Some s0) [0..<STP_MAX_PORTS] \<and> created (id, id, 0, None) 0 s0"
    unfolding stp_create_def id_def [symmetric] Let_def
    by (intro exI conjI, rule refl) (simp add: created_def bridge_status_def u port_at_def)
  then show ?thesis using loop [of "(id, id, 0, None)" _ STP_MAX_PORTS] all by fastforce
qed

lemma stp_create_inv: "\<exists>s. stp_create nm bid = Some s \<and> stp_inv s"
  using stp_create_fresh by blast

end
