(* ===== verification/Stp_Props.thy ===== *)
theory Stp_Props
  imports Stp_Inv "HOL-Library.Product_Lexorder"
begin

text \<open>
  The properties of \<^verbatim>\<open>lib/stp.c\<close>: the invariant in every reachable state, the choice of the root port,
  the encoding of BPDUs, the bridge timers, the conversion of milliseconds to ticks, and the
  time a port waits before it forwards.
\<close>

section \<open>Reachable states\<close>

inductive stp_step :: "stp \<Rightarrow> stp \<Rightarrow> bool" where
  step_tick: "stp_step s (stp_tick s ms)"
| step_bridge_id: "stp_step s (stp_set_bridge_id s bid)"
| step_bridge_priority: "stp_step s (stp_set_bridge_priority s prio)"
| step_hello_time: "stp_step s (stp_set_hello_time s ms)"
| step_max_age: "stp_step s (stp_set_max_age s ms)"
| step_forward_delay: "stp_step s (stp_set_forward_delay s ms)"
| step_flush: "stp_step s (snd (stp_check_and_reset_fdb_flush s))"
| step_changed: "stp_step s (snd (stp_get_changed_port s))"
| step_received: "i < STP_MAX_PORTS \<Longrightarrow> stp_step s (stp_received_bpdu s i bpdu)"
| step_enable: "i < STP_MAX_PORTS \<Longrightarrow> stp_port_enable s i = Some s' \<Longrightarrow> stp_step s s'"
| step_disable: "i < STP_MAX_PORTS \<Longrightarrow> stp_step s (stp_port_disable s i)"
| step_priority: "i < STP_MAX_PORTS \<Longrightarrow> stp_step s (stp_port_set_priority s i prio)"
| step_path_cost: "i < STP_MAX_PORTS \<Longrightarrow> stp_step s (stp_port_set_path_cost s i cost)"
| step_speed: "i < STP_MAX_PORTS \<Longrightarrow> stp_step s (stp_port_set_speed s i speed)"
| step_aux: "i < STP_MAX_PORTS \<Longrightarrow> stp_step s (stp_port_set_aux s i a)"
| step_detection_on: "i < STP_MAX_PORTS \<Longrightarrow> stp_step s (stp_port_enable_change_detection s i)"
| step_detection_off: "i < STP_MAX_PORTS \<Longrightarrow> stp_step s (stp_port_disable_change_detection s i)"
| step_tcn: "stp_step s (stp_topology_change_detection s)"

lemma timer_setters_core:
  "same_core s (stp_set_hello_time s ms)" "same_core s (stp_set_max_age s ms)" "same_core s (stp_set_forward_delay s ms)"
  "same_core s (snd (stp_check_and_reset_fdb_flush s))" "same_core s (stp_port_set_aux s i a)"
  "same_core s (stp_port_enable_change_detection s i)" "same_core s (stp_port_disable_change_detection s i)"
  by (simp_all add: stp_set_hello_time_def stp_set_max_age_def stp_set_forward_delay_def stp_check_and_reset_fdb_flush_def
      stp_port_set_aux_def stp_port_enable_change_detection_def stp_port_disable_change_detection_def)

lemma stp_step_inv:
  assumes "stp_step s s'" and "stp_inv s"
  shows "stp_inv s'"
  using assms
proof cases
  case (step_enable i)
  then show ?thesis using port_enable_inv [OF assms(2)] by fastforce
next
  case step_changed
  then show ?thesis using get_changed_port_inv [OF assms(2)] by (metis prod.collapse)
next
  case step_tcn
  have "same_core s (stp_topology_change_detection s)" by (simp add: core)
  then show ?thesis using step_tcn stp_inv_core assms(2) by blast
qed (simp_all add: tick_inv set_bridge_id_inv received_bpdu_inv port_disable_inv set_priority_inv set_path_cost_inv
    stp_set_bridge_id_def stp_set_bridge_priority_def Let_def stp_port_set_speed_def
    stp_inv_core [OF timer_setters_core(1)] stp_inv_core [OF timer_setters_core(2)] stp_inv_core [OF timer_setters_core(3)]
    stp_inv_core [OF timer_setters_core(4)] stp_inv_core [OF timer_setters_core(5)]
    stp_inv_core [OF timer_setters_core(6)] stp_inv_core [OF timer_setters_core(7)])

interpretation stp_system: transition_system "\<lambda>s. \<exists>nm bid. stp_create nm bid = Some s" stp_step stp_inv
proof
  fix s assume "\<exists>nm bid. stp_create nm bid = Some s"
  then show "stp_inv s" using stp_create_inv by (metis option.sel)
qed (rule stp_step_inv)

lemma port_id_distinct:
  assumes "ports_ok s" and "i < STP_MAX_PORTS" and "j < STP_MAX_PORTS"
  shows "port_id (port_at s i) = port_id (port_at s j) \<longleftrightarrow> i = j"
proof
  assume eq: "port_id (port_at s i) = port_id (port_at s j)"
  have "port_id (port_at s k) AND 0xff = word_of_nat (k + 1)" if "k < STP_MAX_PORTS" for k
    using assms(1) that by (simp add: ports_ok_def port_ok_def)
  then have "(word_of_nat (i + 1) :: u16) = word_of_nat (j + 1)" using eq assms(2,3) by metis
  then have "unat (word_of_nat (i + 1) :: u16) = unat (word_of_nat (j + 1) :: u16)" by (rule arg_cong)
  moreover have "unat (word_of_nat (k + 1) :: u16) = k + 1" if "k < STP_MAX_PORTS" for k
    using that by (subst unat_of_nat) (simp add: STP_MAX_PORTS_def)
  ultimately show "i = j" using assms(2,3) by simp
qed simp

lemma role_root:
  assumes "stp_inv s" and "i < STP_MAX_PORTS"
  shows "stp_port_get_role s i = STP_ROLE_ROOT \<longleftrightarrow> root_port s = Some i"
  using assms port_id_distinct [of s _ i]
  by (auto simp: stp_port_get_role_def stp_inv_def root_ok_def split: option.splits)

section \<open>Choosing the root port\<close>

definition priority_vector :: "stp_port \<Rightarrow> u64 \<times> int \<times> u64 \<times> u16 \<times> u16" where
  "priority_vector p = (port_designated_root p, sint (port_designated_cost p + path_cost p),
     port_designated_bridge p, port_designated_port p, port_id p)"

lemma supersedes_root_iff: "stp_supersedes_root root p \<longleftrightarrow> priority_vector p < priority_vector root"
  by (auto simp: stp_supersedes_root_def priority_vector_def Let_def less_prod_def')

definition root_candidate :: "stp \<Rightarrow> nat \<Rightarrow> bool" where
  "root_candidate s i \<longleftrightarrow> enabled s i \<and> \<not> stp_is_designated_port s i \<and> port_designated_root (port_at s i) < bridge_id s"

lemma select_root_best:
  "case select_root s is of
     None \<Rightarrow> \<forall>i \<in> set is. \<not> root_candidate s i
   | Some r \<Rightarrow> r \<in> set is \<and> root_candidate s r \<and>
       (\<forall>i \<in> set is. root_candidate s i \<longrightarrow> priority_vector (port_at s r) \<le> priority_vector (port_at s i))"
proof (induction "is" rule: rev_induct)
  case Nil
  then show ?case by (simp add: select_root_def)
next
  case (snoc i "is")
  have step: "select_root s (is @ [i]) = (if \<not> root_candidate s i then select_root s is
      else case select_root s is of
             None \<Rightarrow> Some i
           | Some r \<Rightarrow> if priority_vector (port_at s r) \<le> priority_vector (port_at s i) then Some r else Some i)"
    by (auto simp: select_root_def root_candidate_def supersedes_root_iff not_le not_less split: option.splits)
  show ?case
  proof (cases "select_root s is")
    case None
    then show ?thesis using snoc step by auto
  next
    case (Some r)
    have le: "priority_vector (port_at s i) \<le> priority_vector (port_at s j)"
      if "\<not> priority_vector (port_at s r) \<le> priority_vector (port_at s i)" "j \<in> set is" "root_candidate s j" for j
    proof -
      have "priority_vector (port_at s r) \<le> priority_vector (port_at s j)" using that Some snoc by simp
      then show ?thesis using that(1) by (meson le_cases order_trans)
    qed
    show ?thesis using snoc step Some le by (cases "root_candidate s i") auto
  qed
qed

section \<open>The encoding of BPDUs\<close>

lemma config_of_config_bytes:
  "config_of_bytes (config_bytes c) = c" "length (config_bytes c) = 35"
  by (simp_all add: config_of_bytes_def config_bytes_def of_be_bytes nth_append)

section \<open>Time\<close>

lemma c_int_id: "- (2 ^ 31) \<le> x \<Longrightarrow> x < 2 ^ 31 \<Longrightarrow> c_int x = x"
  by (simp add: c_int_def sint_sbintrunc' signed_take_bit_int_eq_self)

lemma sdiv_pos: "0 \<le> n \<Longrightarrow> 0 < d \<Longrightarrow> n sdiv d = n div (d :: int)"
  by (cases "n = 0") (simp_all add: signed_divide_int_def)

lemma ms_to_timer_eq: "0 \<le> ms \<Longrightarrow> ms < 2 ^ 23 \<Longrightarrow> ms_to_timer ms = ms * 256 div 1000"
  by (simp add: ms_to_timer_def c_int_id sdiv_pos)

lemma timer_to_ms_eq: "0 \<le> t \<Longrightarrow> t * 1000 < 2 ^ 31 \<Longrightarrow> timer_to_ms t = t * 1000 div 256"
  by (simp add: timer_to_ms_def c_int_id sdiv_pos)

lemma tick_rounding:
  fixes x e :: int
  assumes "0 \<le> x" and "e = x * 256 div 1000"
  shows "e * 1000 div 256 \<le> x" and "x \<le> e * 1000 div 256 + 4"
  using assms by linarith+

lemma elapsed_ticks_eq:
  assumes "0 \<le> ms" and "0 \<le> elapsed_remainder s" and "ms + elapsed_remainder s < 2 ^ 23"
    and "elapsed_ticks s ms = (e, s')"
  shows "e = (ms + elapsed_remainder s) * 256 div 1000"
    and "elapsed_remainder s' = ms + elapsed_remainder s - e * 1000 div 256"
proof -
  let ?x = "ms + elapsed_remainder s"
  have x: "0 \<le> ?x" "?x < 2 ^ 23" using assms(1-3) by simp_all
  have c: "c_int (clamp ms 0 2147482647 + elapsed_remainder s) = ?x" using assms(1-3) by (simp add: clamp_def c_int_id)
  show e: "e = ?x * 256 div 1000" using assms(4) ms_to_timer_eq [OF x] by (simp add: elapsed_ticks_def c Let_def)
  have "y * 256 div 1000 * 1000 \<le> y * 256" for y :: int by linarith
  then have "e * 1000 \<le> ?x * 256" unfolding e .
  moreover have "0 \<le> e" using x(1) by (simp add: e)
  ultimately have e0: "0 \<le> e" "e * 1000 < 2 ^ 31" using x(2) by simp_all
  have "e * 1000 div 256 \<le> ?x" using tick_rounding(1) [OF x(1) e] .
  then have "c_int (?x - e * 1000 div 256) = ?x - e * 1000 div 256" using x e0(1) by (intro c_int_id) simp_all
  then show "elapsed_remainder s' = ?x - e * 1000 div 256"
    using assms(4) timer_to_ms_eq [OF e0] ms_to_timer_eq [OF x] e by (auto simp: elapsed_ticks_def c Let_def)
qed

lemma ms_to_timer_neg:
  assumes "2 ^ 23 \<le> x" and "x \<le> 2 ^ 24 - 4"
  shows "ms_to_timer x < 0"
proof -
  have "(word_of_int (x * 256) :: u32) = word_of_int (x * 256 - 2 ^ 32)" by (simp add: word_of_int_eq_iff take_bit_eq_mod)
  then have "c_int (x * 256) = c_int (x * 256 - 2 ^ 32)" unfolding c_int_def by (rule arg_cong)
  also have "\<dots> = x * 256 - 2 ^ 32" by (rule c_int_id) (use assms in simp_all)
  finally have "c_int (x * 256) \<le> - 1000" using assms by simp
  then show ?thesis by (simp add: ms_to_timer_def signed_divide_int_def)
qed

lemma clamp_range: "lo \<le> hi \<Longrightarrow> lo \<le> clamp x lo hi \<and> clamp x lo hi \<le> hi"
  by (simp add: clamp_def)

lemma update_bridge_timers_sel:
  fixes s ht ma
  defines "ht \<equiv> clamp (rq_hello_time s) 1000 10000"
    and "ma \<equiv> clamp (rq_max_age s) (max (2 * (clamp (rq_hello_time s) 1000 10000 + 1000)) 6000) 40000"
  shows "bridge_hello_time (stp_update_bridge_timers s) = ms_to_timer ht"
    and "bridge_max_age (stp_update_bridge_timers s) = ms_to_timer ma"
    and "bridge_forward_delay (stp_update_bridge_timers s) = ms_to_timer (clamp (rq_forward_delay s) (ma sdiv 2 + 1000) 30000)"
  unfolding ht_def ma_def stp_update_bridge_timers_def Let_def by simp_all

lemma timer_relations:
  fixes ht ma fd :: int
  assumes "1000 \<le> ht" and "ht \<le> 10000" and "max (2 * (ht + 1000)) 6000 \<le> ma" and "ma \<le> 40000"
    and "ma div 2 + 1000 \<le> fd" and "fd \<le> 30000"
  shows "256 \<le> ht * 256 div 1000" and "ht * 256 div 1000 \<le> 2560" and "1536 \<le> ma * 256 div 1000" and "ma * 256 div 1000 \<le> 10240"
    and "1024 \<le> fd * 256 div 1000" and "fd * 256 div 1000 \<le> 7680" and "2 * (ht * 256 div 1000 + 256) \<le> ma * 256 div 1000"
    and "ma * 256 div 1000 \<le> 2 * (fd * 256 div 1000 - 256) + 2"
proof -
  define h m f where "h = ht * 256 div 1000" and "m = ma * 256 div 1000" and "f = fd * 256 div 1000"
  have q: "h * 1000 \<le> ht * 256" "ht * 256 < h * 1000 + 1000" "m * 1000 \<le> ma * 256" "ma * 256 < m * 1000 + 1000"
    "f * 1000 \<le> fd * 256" "fd * 256 < f * 1000 + 1000" unfolding h_def m_def f_def by linarith+
  have d: "ma \<le> 2 * (ma div 2) + 1" "2 * ht + 2000 \<le> ma" "6000 \<le> ma" using assms(3) by simp_all
  have "ma + 1999 \<le> 2 * fd" using d(1) assms(5) by linarith
  note facts = assms(1,2,4,6) q d(2,3) this
  show "256 \<le> ht * 256 div 1000" unfolding h_def [symmetric] using facts by simp
  show "ht * 256 div 1000 \<le> 2560" unfolding h_def [symmetric] using facts by simp
  show "1536 \<le> ma * 256 div 1000" unfolding m_def [symmetric] using facts by simp
  show "ma * 256 div 1000 \<le> 10240" unfolding m_def [symmetric] using facts by simp
  have "4000 \<le> fd" using facts by linarith
  then show "1024 \<le> fd * 256 div 1000" unfolding f_def [symmetric] using q(6) by linarith
  show "fd * 256 div 1000 \<le> 7680" unfolding f_def [symmetric] using facts by simp
  show "2 * (ht * 256 div 1000 + 256) \<le> ma * 256 div 1000" unfolding h_def [symmetric] m_def [symmetric] using facts by simp
  show "ma * 256 div 1000 \<le> 2 * (fd * 256 div 1000 - 256) + 2" unfolding f_def [symmetric] m_def [symmetric] using facts by simp
qed

section \<open>Properties\<close>

lemma stp_reachable:
  assumes "stp_create nm bid = Some s0" and "stp_step\<^sup>*\<^sup>* s0 s"
  shows "stp_inv s"
  using stp_system.inv_reachable [OF _ assms(2)] assms(1) by blast

text \<open>
  C7. In every state a bridge can reach: an enabled port that is neither the root port nor a
  designated port (its role is alternate) is blocking, so it neither forwards nor learns; there is a root port exactly when
  the bridge does not believe itself to be the root, it is the only port with that role and it is
  enabled; and a port is listening or learning exactly while its forward delay timer runs.
\<close>

theorem stp_alternate_blocked:
  assumes "stp_create nm bid = Some s0" and "stp_step\<^sup>*\<^sup>* s0 s" and "i < STP_MAX_PORTS"
  shows "(stp_port_get_role s i = STP_ROLE_ALTERNATE \<longrightarrow> port_state (port_at s i) = STP_BLOCKING \<and>
       \<not> stp_forward_in_state (port_state (port_at s i)) \<and> \<not> stp_learn_in_state (port_state (port_at s i))) \<and>
    (stp_is_root_bridge s \<longleftrightarrow> root_port s = None) \<and>
    (stp_port_get_role s i = STP_ROLE_ROOT \<longleftrightarrow> root_port s = Some i) \<and>
    (root_port s = Some i \<longrightarrow> port_state (port_at s i) \<noteq> STP_DISABLED) \<and>
    (active (forward_delay_timer (port_at s i)) \<longleftrightarrow> port_state (port_at s i) \<in> {STP_LISTENING, STP_LEARNING})"
proof -
  have inv: "stp_inv s" by (rule stp_reachable [OF assms(1,2)])
  note r = role_root [OF inv assms(3)]
  have "port_state (port_at s i) = STP_BLOCKING" if "stp_port_get_role s i = STP_ROLE_ALTERNATE"
  proof -
    have "enabled s i" "\<not> stp_is_designated_port s i" "root_port s \<noteq> Some i"
      using that r by (auto simp: stp_port_get_role_def enabled_def split: if_splits)
    then show ?thesis using inv assms(3) by (simp add: stp_inv_def roles_ok_def)
  qed
  moreover have "stp_is_root_bridge s \<longleftrightarrow> root_port s = None"
    using inv by (auto simp: stp_inv_def root_ok_def stp_is_root_bridge_def split: option.splits)
  moreover have "root_port s = Some i \<longrightarrow> port_state (port_at s i) \<noteq> STP_DISABLED"
    using inv by (auto simp: stp_inv_def root_ok_def enabled_def)
  moreover have "active (forward_delay_timer (port_at s i)) \<longleftrightarrow> port_state (port_at s i) \<in> {STP_LISTENING, STP_LEARNING}"
    using inv assms(3) by (simp add: stp_inv_def ports_ok_def port_ok_def)
  ultimately show ?thesis using r by (simp add: stp_forward_in_state_def stp_learn_in_state_def)
qed

theorem stp_alternate_blocked_witness:
  "\<exists>s. stp_create ''br0'' 1 = Some s \<and> (stp_is_root_bridge s \<longleftrightarrow> root_port s = None)"
proof -
  obtain s where "stp_create ''br0'' 1 = Some s" using stp_create_inv by blast
  then show ?thesis using stp_alternate_blocked [of "''br0''" 1 s s 0] by (auto simp: STP_MAX_PORTS_def)
qed

text \<open>
  C12. The root port that is selected is the best of the enabled ports that are not designated
  and have heard of a better root than this bridge: no other has a smaller vector of root, path
  cost, bridge, port and own port identifier. Without such a port the bridge is the root.
\<close>

theorem root_port_best:
  assumes "s' = stp_root_selection s"
  shows "case root_port s' of
      None \<Rightarrow> (\<forall>i < STP_MAX_PORTS. \<not> root_candidate s i) \<and> stp_is_root_bridge s' \<and> root_path_cost s' = 0
    | Some r \<Rightarrow> r < STP_MAX_PORTS \<and> root_candidate s r \<and> \<not> stp_is_root_bridge s' \<and>
        designated_root s' = port_designated_root (port_at s r) \<and>
        (\<forall>i < STP_MAX_PORTS. root_candidate s i \<longrightarrow>
           priority_vector (port_at s r) \<le> priority_vector (port_at s i) \<and> designated_root s' \<le> port_designated_root (port_at s i))"
proof -
  note b = select_root_best [of "[0..<STP_MAX_PORTS]" s]
  have lex: "port_designated_root p \<le> port_designated_root q" if "priority_vector p \<le> priority_vector q" for p q
    using that by (auto simp: priority_vector_def less_eq_prod_def)
  show ?thesis
  proof (cases "select_root s [0..<STP_MAX_PORTS]")
    case None
    then show ?thesis using b by (simp add: assms stp_root_selection_def stp_is_root_bridge_def)
  next
    case (Some r)
    then have r: "r < STP_MAX_PORTS" "root_candidate s r"
      "\<And>i. i < STP_MAX_PORTS \<Longrightarrow> root_candidate s i \<Longrightarrow> priority_vector (port_at s r) \<le> priority_vector (port_at s i)"
      using b by simp_all
    have e: "root_port s' = Some r" "designated_root s' = port_designated_root (port_at s r)" "bridge_id s' = bridge_id s"
      using Some by (simp_all add: assms stp_root_selection_def Let_def port_at_def)
    show ?thesis using r lex [OF r(3)] by (auto simp: e stp_is_root_bridge_def root_candidate_def)
  qed
qed

theorem root_port_best_witness:
  "\<exists>s. stp_create ''br0'' 1 = Some s \<and> (root_port (stp_root_selection s) = None \<longrightarrow> stp_is_root_bridge (stp_root_selection s))"
proof -
  obtain s where "stp_create ''br0'' 1 = Some s" using stp_create_inv by blast
  then show ?thesis using root_port_best [OF refl, of s] by auto
qed

text \<open>
  C21. What a bridge transmits, another one receives: the BPDU in the packet decodes to the
  configuration that was encoded, and the receiving port handles exactly that configuration and
  counts it as received, not as an error.
\<close>

theorem bpdu_roundtrip:
  "config_of_bytes (config_bytes c) = c \<and> drop 17 (bpdu_packet (config_bytes c)) = config_bytes c \<and>
   (port_state (port_at s i) \<noteq> STP_DISABLED \<longrightarrow>
      stp_received_bpdu s i (config_bytes c) = bpdu_received (stp_received_config_bpdu s i c) i \<and>
      stp_received_bpdu s i tcn_bytes = bpdu_received (stp_received_tcn_bpdu s i) i)"
proof -
  have "of_be (take 2 (config_bytes c)) = (0 :: u16)" "config_bytes c ! 3 = 0"
    "of_be (take 2 tcn_bytes) = (0 :: u16)" "tcn_bytes ! 3 = 0x80" "length tcn_bytes = 4"
    by (simp_all add: config_bytes_def tcn_bytes_def of_be_bytes nth_append)
  moreover have "drop 17 (bpdu_packet b) = b" for b by (simp add: bpdu_packet_def)
  ultimately show ?thesis by (simp add: config_of_config_bytes stp_received_bpdu_def)
qed

theorem bpdu_roundtrip_witness:
  "\<exists>s. port_state (port_at s 0) = STP_LEARNING \<and>
     config_of_bytes (config_bytes (transmitted_config s 0)) = transmitted_config s 0 \<and>
     stp_received_bpdu s 0 tcn_bytes = bpdu_received (stp_received_tcn_bpdu s 0) 0"
proof -
  obtain s where "stp_create ''br0'' 1 = Some s" using stp_create_inv by blast
  define t where "t = s\<lparr>ports := [zero_port\<lparr>port_state := STP_LEARNING\<rparr>]\<rparr>"
  have t: "port_state (port_at t 0) = STP_LEARNING" by (simp add: t_def port_at_def)
  show ?thesis
    by (rule exI [of _ t]) (use bpdu_roundtrip [of "transmitted_config t 0" t 0] t in simp)
qed

lemma bridge_timer_ranges:
  "let s' = stp_update_bridge_timers s; ht = bridge_hello_time s'; ma = bridge_max_age s'; fd = bridge_forward_delay s'
   in 256 \<le> ht \<and> ht \<le> 2560 \<and> 1536 \<le> ma \<and> ma \<le> 10240 \<and> 1024 \<le> fd \<and> fd \<le> 7680 \<and>
      2 * (ht + 256) \<le> ma \<and> ma \<le> 2 * (fd - 256) + 2"
proof -
  define ht where "ht = clamp (rq_hello_time s) 1000 10000"
  define ma where "ma = clamp (rq_max_age s) (max (2 * (ht + 1000)) 6000) 40000"
  define fd where "fd = clamp (rq_forward_delay s) (ma div 2 + 1000) 30000"
  have h: "1000 \<le> ht \<and> ht \<le> 10000" using clamp_range [of 1000 10000 "rq_hello_time s"] by (simp add: ht_def)
  have m: "max (2 * (ht + 1000)) 6000 \<le> ma \<and> ma \<le> 40000" unfolding ma_def using h by (intro clamp_range) auto
  have mm: "6000 \<le> ma" "ma \<le> 40000" using m by simp_all
  have d: "3000 \<le> ma div 2" "ma div 2 \<le> 20000" using mm by linarith+
  have f: "ma div 2 + 1000 \<le> fd \<and> fd \<le> 30000" unfolding fd_def using d(2) by (intro clamp_range) linarith
  have "4000 \<le> fd" using f d(1) by linarith
  have sd: "ma sdiv 2 = ma div 2" using mm(1) by (simp add: sdiv_pos)
  note sel = update_bridge_timers_sel [of s, folded ht_def, folded ma_def, unfolded sd, folded fd_def]
  have "ms_to_timer ht = ht * 256 div 1000" by (rule ms_to_timer_eq) (use h in simp_all)
  moreover have "ms_to_timer ma = ma * 256 div 1000" by (rule ms_to_timer_eq) (use mm in simp_all)
  moreover have "ms_to_timer fd = fd * 256 div 1000" by (rule ms_to_timer_eq) (use \<open>4000 \<le> fd\<close> f in simp_all)
  ultimately have eq: "bridge_hello_time (stp_update_bridge_timers s) = ht * 256 div 1000"
    "bridge_max_age (stp_update_bridge_timers s) = ma * 256 div 1000"
    "bridge_forward_delay (stp_update_bridge_timers s) = fd * 256 div 1000"
    unfolding sel .
  note r = timer_relations [OF conjunct1 [OF h] conjunct2 [OF h] conjunct1 [OF m] conjunct2 [OF m] conjunct1 [OF f] conjunct2 [OF f]]
  show ?thesis unfolding Let_def eq by (intro conjI r)
qed

lemma max_age_relation_broken:
  "let s' = stp_update_bridge_timers (s\<lparr>rq_hello_time := 2000, rq_max_age := 6004, rq_forward_delay := 4000\<rparr>)
   in bridge_max_age s' = 1537 \<and> 2 * (bridge_forward_delay s' - 256) = 1536"
proof -
  have "(6004 :: int) sdiv 2 = 3002" by (simp add: sdiv_pos)
  moreover have "ms_to_timer 6004 = 1537" "ms_to_timer 4002 = 1024" by (simp_all add: ms_to_timer_eq)
  ultimately show ?thesis by (simp add: update_bridge_timers_sel clamp_def)
qed

text \<open>
  C28. Whatever is requested, the bridge's own timers are in the ranges of the standard (in
  ticks of 1/256 s: hello time 1 to 10 s, maximum age 6 to 40 s, forward delay 4 to 30 s), the
  maximum age is at least twice the hello time plus one second, and at most twice the forward delay less one
  second, but only up to a rounding error of two ticks. The comments at \<^verbatim>\<open>stp_set_max_age\<close> and
  \<^verbatim>\<open>stp_set_forward_delay\<close> promise the relation without an error; with a maximum age of 6004 ms and the smallest
  forward delay the two sides are 1537 and 1536 ticks.
\<close>

theorem bridge_timer_bounds:
  "(let s' = stp_update_bridge_timers s; ht = bridge_hello_time s'; ma = bridge_max_age s'; fd = bridge_forward_delay s'
    in 256 \<le> ht \<and> ht \<le> 2560 \<and> 1536 \<le> ma \<and> ma \<le> 10240 \<and> 1024 \<le> fd \<and> fd \<le> 7680 \<and>
       2 * (ht + 256) \<le> ma \<and> ma \<le> 2 * (fd - 256) + 2) \<and>
   (let s' = stp_update_bridge_timers (s\<lparr>rq_hello_time := 2000, rq_max_age := 6004, rq_forward_delay := 4000\<rparr>)
    in bridge_max_age s' = 1537 \<and> 2 * (bridge_forward_delay s' - 256) = 1536)"
  using bridge_timer_ranges max_age_relation_broken by (rule conjI)

fun ticks_of :: "stp \<Rightarrow> int list \<Rightarrow> int" where
  "ticks_of s [] = 0"
| "ticks_of s (ms # mss) = (let (e, s') = elapsed_ticks s ms in e + ticks_of s' mss)"

text \<open>
  C35. Two ways the clock goes wrong. The milliseconds kept for the next call are computed with
  ticks rounded down to whole milliseconds, so each call whose ticks are not a whole number of milliseconds counts
  the fraction again: five calls with 4 ms each advance the clock by 6 ticks (23.4 ms) instead of 5. And \<^verbatim>\<open>stp_tick\<close>
  limits its argument to \<^verbatim>\<open>INT_MAX - 1000\<close>, but \<^verbatim>\<open>ms_to_timer\<close> multiplies by 256: when 2^23 to 2^24 - 4 ms
  (2.3 to 4.6 hours) have to be converted, the product overflows, and with wrap-around the clock runs backwards.
\<close>

theorem stp_clock_bugs:
  assumes "0 \<le> ms" and "0 \<le> elapsed_remainder s" and "elapsed_ticks s ms = (e, s')"
  shows "(ms + elapsed_remainder s < 2 ^ 23 \<longrightarrow>
      elapsed_remainder s' * 256 + e * 1000 = (ms + elapsed_remainder s) * 256 + e * 1000 mod 256) \<and>
    (elapsed_remainder s = 0 \<longrightarrow> ticks_of s [4, 4, 4, 4, 4] = 6 \<and> 5 * 4 * 256 div 1000 = (5 :: int)) \<and>
    (2 ^ 23 \<le> ms + elapsed_remainder s \<and> ms + elapsed_remainder s \<le> 2 ^ 24 - 4 \<longrightarrow> e < 0)"
proof (intro conjI impI)
  let ?x = "ms + elapsed_remainder s"
  show "elapsed_remainder s' * 256 + e * 1000 = ?x * 256 + e * 1000 mod 256" if "?x < 2 ^ 23"
    using elapsed_ticks_eq(2) [OF assms(1,2) that assms(3)] div_mult_mod_eq [of "e * 1000" 256] by (simp add: algebra_simps)
  show "e < 0" if "2 ^ 23 \<le> ?x \<and> ?x \<le> 2 ^ 24 - 4"
  proof -
    have "c_int (clamp ms 0 2147482647 + elapsed_remainder s) = ?x" using that assms(1,2) by (simp add: clamp_def c_int_id)
    then show ?thesis using ms_to_timer_neg [of ?x] that assms(3) by (auto simp: elapsed_ticks_def Let_def)
  qed
  show "ticks_of s [4, 4, 4, 4, 4] = 6" if r: "elapsed_remainder s = 0"
  proof -
    obtain e1 s1 where 1: "elapsed_ticks s 4 = (e1, s1)" by fastforce
    obtain e2 s2 where 2: "elapsed_ticks s1 4 = (e2, s2)" by fastforce
    obtain e3 s3 where 3: "elapsed_ticks s2 4 = (e3, s3)" by fastforce
    obtain e4 s4 where 4: "elapsed_ticks s3 4 = (e4, s4)" by fastforce
    obtain e5 s5 where 5: "elapsed_ticks s4 4 = (e5, s5)" by fastforce
    have a: "e1 = 1" "elapsed_remainder s1 = 1" using elapsed_ticks_eq [OF _ _ _ 1] r by simp_all
    have b: "e2 = 1" "elapsed_remainder s2 = 2" using elapsed_ticks_eq [OF _ _ _ 2] a by simp_all
    have c: "e3 = 1" "elapsed_remainder s3 = 3" using elapsed_ticks_eq [OF _ _ _ 3] b by simp_all
    have d: "e4 = 1" "elapsed_remainder s4 = 4" using elapsed_ticks_eq [OF _ _ _ 4] c by simp_all
    have "e5 = 2" using elapsed_ticks_eq(1) [OF _ _ _ 5] d by simp
    then show ?thesis using a b c d 1 2 3 4 5 by simp
  qed
qed simp

theorem stp_clock_bugs_witness:
  "\<exists>s. elapsed_remainder s = 0 \<and> ticks_of s [4, 4, 4, 4, 4] = 6 \<and> fst (elapsed_ticks s 9000000) < 0"
proof -
  obtain s where "stp_create ''br0'' 1 = Some s" using stp_create_inv by blast
  define t where "t = s\<lparr>elapsed_remainder := 0\<rparr>"
  have t: "elapsed_remainder t = 0" by (simp add: t_def)
  then have "ticks_of t [4, 4, 4, 4, 4] = 6 \<and> fst (elapsed_ticks t 9000000) < 0"
    using stp_clock_bugs [OF _ _ prod.collapse [symmetric], of 9000000 t] by simp
  then show ?thesis using t by blast
qed

text \<open>
  C36. The cost that a BPDU carries has 32 bits and is unsigned, but the code keeps it in
  an \<^verbatim>\<open>int\<close> when it compares paths to the root: a port whose cost is 2^31 or more beats every port
  whose cost is smaller, although \<^verbatim>\<open>stp_supersedes_port_info\<close> compares the same values as unsigned.
\<close>

theorem path_cost_sign_bug:
  assumes "port_designated_root p = port_designated_root root"
    and "port_designated_cost root + path_cost root < 2 ^ 31" and "2 ^ 31 \<le> port_designated_cost p + path_cost p"
  shows "port_designated_cost root + path_cost root < port_designated_cost p + path_cost p \<and> stp_supersedes_root root p"
proof -
  have neg: "sint w < 0 \<longleftrightarrow> 2 ^ 31 \<le> w" for w :: u32
  proof -
    have "sint w < 0 \<longleftrightarrow> bit w 31" using bit_last_iff [of w] by simp
    also have "\<dots> \<longleftrightarrow> odd (uint w div 2 ^ 31)" 
      using bit_uint_iff [of w 31] by (simp add: bit_iff_odd [of "uint w"])
    also have "uint w div 2 ^ 31 = of_bool (2 ^ 31 \<le> uint w)"
      using uint_bounded [of w] by (cases "2 ^ 31 \<le> uint w") (simp_all add: div_pos_pos_trivial le_div_geq)
    also have "odd (of_bool (2 ^ 31 \<le> uint w) :: int) \<longleftrightarrow> 2 ^ 31 \<le> uint w" by simp
    finally show ?thesis by (simp add: word_le_def)
  qed
  have "0 \<le> sint (port_designated_cost root + path_cost root)" using neg assms(2) by (meson not_le)
  with assms(3)
  have "sint (port_designated_cost p + path_cost p) < sint (port_designated_cost root + path_cost root)"
    using neg [of "port_designated_cost p + path_cost p"] by linarith
  then show ?thesis using assms by (auto simp: stp_supersedes_root_def Let_def)
qed

theorem path_cost_sign_bug_witness:
  "\<exists>p root :: stp_port. port_designated_cost root < port_designated_cost p \<and> stp_supersedes_root root p"
proof -
  let ?p = "zero_port\<lparr>port_designated_cost := 0xffffffff\<rparr>"
  have "stp_supersedes_root zero_port ?p"
    using path_cost_sign_bug [of ?p zero_port] by (simp add: zero_port_def)
  moreover have "port_designated_cost zero_port < port_designated_cost ?p" by (simp add: zero_port_def)
  ultimately show ?thesis by blast
qed

section \<open>From listening to forwarding\<close>

text \<open>A port on its way from blocking to forwarding: its state and the value of its forward delay timer, while that runs.\<close>

definition way :: "stp \<Rightarrow> nat \<Rightarrow> stp_state \<Rightarrow> int option \<Rightarrow> bool" where
  "way s i st v \<longleftrightarrow> i < length (ports s) \<and> port_state (port_at s i) = st \<and>
     (case v of None \<Rightarrow> \<not> active (forward_delay_timer (port_at s i))
      | Some x \<Rightarrow> active (forward_delay_timer (port_at s i)) \<and> timer_value (forward_delay_timer (port_at s i)) = x)"

lemma set_port_state_at:
  "i < length (ports s) \<Longrightarrow> port_state (port_at (stp_set_port_state s i st) i) = st"
  "i < length (ports s) \<Longrightarrow> forward_delay_timer (port_at (stp_set_port_state s i st) i) = forward_delay_timer (port_at s i)"
  "forward_delay (stp_set_port_state s i st) = forward_delay s" "length (ports (stp_set_port_state s i st)) = length (ports s)"
  by (simp_all add: stp_set_port_state_def Let_def port_at_def set_port_def)

lemma detection_at:
  assumes "i < length (ports s)"
  shows "port_state (port_at (stp_topology_change_detection s) i) = port_state (port_at s i)"
    and "forward_delay_timer (port_at (stp_topology_change_detection s) i) = forward_delay_timer (port_at s i)"
    and "forward_delay (stp_topology_change_detection s) = forward_delay s"
    and "length (ports (stp_topology_change_detection s)) = length (ports s)"
proof -
  have st: "ports_status (stp_topology_change_detection s) = ports_status s" by simp
  note n = status_nth(3) [OF st assms]
  show "port_state (port_at (stp_topology_change_detection s) i) = port_state (port_at s i)"
    "forward_delay_timer (port_at (stp_topology_change_detection s) i) = forward_delay_timer (port_at s i)"
    using n by (simp_all add: port_status_def)
  show "forward_delay (stp_topology_change_detection s) = forward_delay s"
    by (simp add: stp_topology_change_detection_def Let_def stp_transmit_tcn_def stp_send_bpdu_def set_port_def split: option.split)
  show "length (ports (stp_topology_change_detection s)) = length (ports s)"
    by (simp add: stp_topology_change_detection_def Let_def stp_transmit_tcn_def stp_send_bpdu_def set_port_def split: option.split)
qed

lemma set_port_at:
  "i < length (ports s) \<Longrightarrow> port_at (set_port s i f) i = f (port_at s i)" "forward_delay (set_port s i f) = forward_delay s"
  "length (ports (set_port s i f)) = length (ports s)"
  by (simp_all add: port_at_def set_port_def)

lemmas at_simps = set_port_state_at detection_at set_port_at

lemma tick_way:
  defines "tick \<equiv> \<lambda>s i e. tick_forward_delay e s i"
  shows "i < length (ports s) \<Longrightarrow> forward_delay (tick s i e) = forward_delay s"
    and "way s i STP_LISTENING (Some v) \<Longrightarrow>
      (if v + e < forward_delay s then way (tick s i e) i STP_LISTENING (Some (v + e)) else way (tick s i e) i STP_LEARNING (Some 0))"
    and "way s i STP_LEARNING (Some v) \<Longrightarrow>
      (if v + e < forward_delay s then way (tick s i e) i STP_LEARNING (Some (v + e)) else way (tick s i e) i STP_FORWARDING None)"
    and "way s i STP_FORWARDING None \<Longrightarrow> way (tick s i e) i STP_FORWARDING None"
  unfolding tick_def way_def
  by (auto simp: tick_forward_delay_def stp_timer_expired_def stp_forward_delay_timer_expiry_def
      Let_def at_simps stp_start_timer_def split: if_splits)

lemma ticks_forwarding:
  "way s i STP_FORWARDING None \<Longrightarrow> port_state (port_at (foldl (\<lambda>s e. tick_forward_delay e s i) s es) i) = STP_FORWARDING"
  by (induction es arbitrary: s) (auto simp: tick_way(4), simp add: way_def)

lemma ticks_learning:
  assumes "way s i STP_LEARNING (Some v)" and "v < forward_delay s" and "\<forall>e \<in> set es. 0 \<le> e"
  shows "port_state (port_at (foldl (\<lambda>s e. tick_forward_delay e s i) s es) i) =
    (if forward_delay s \<le> v + sum_list es then STP_FORWARDING else STP_LEARNING)"
  using assms
proof (induction es arbitrary: s v)
  case Nil
  then show ?case by (simp add: way_def)
next
  case (Cons e es)
  have pos: "\<forall>e \<in> set es. 0 \<le> e" "0 \<le> sum_list es" using Cons.prems(3) by (simp_all add: sum_list_nonneg)
  note t = tick_way(3) [OF Cons.prems(1), of e]
  have fd: "forward_delay (tick_forward_delay e s i) = forward_delay s" using Cons.prems(1) by (intro tick_way(1)) (simp add: way_def)
  show ?case
  proof (cases "v + e < forward_delay s")
    case True
    then show ?thesis using Cons.IH [of "tick_forward_delay e s i" "v + e"] t pos(1) fd by (simp add: add.assoc)
  next
    case False
    then show ?thesis using t pos(2) ticks_forwarding by simp
  qed
qed

lemma ticks_listening:
  assumes "way s i STP_LISTENING (Some v)" and "v < forward_delay s" and "\<forall>e \<in> set es. 0 \<le> e" and "0 < forward_delay s"
  defines "d \<equiv> forward_delay s"
  shows "port_state (port_at (foldl (\<lambda>s e. tick_forward_delay e s i) s es) i) =
    (if \<exists>k. d \<le> v + sum_list (take k es) \<and> d \<le> sum_list (drop k es) then STP_FORWARDING
     else if d \<le> v + sum_list es then STP_LEARNING else STP_LISTENING)"
  using assms(1-4) unfolding d_def
proof (induction es arbitrary: s v)
  case Nil
  then show ?case by (simp add: way_def)
next
  case (Cons e es)
  let ?d = "forward_delay s"
  have pos: "\<forall>e \<in> set es. 0 \<le> e" "0 \<le> e" "0 \<le> sum_list es" using Cons.prems(3) by (simp_all add: sum_list_nonneg)
  have parts: "(\<exists>k. ?d \<le> v + sum_list (take k (e # es)) \<and> ?d \<le> sum_list (drop k (e # es))) \<longleftrightarrow>
      (\<exists>k. ?d \<le> v + e + sum_list (take k es) \<and> ?d \<le> sum_list (drop k es))"
  proof -
    have "(\<exists>k. P k) \<longleftrightarrow> P 0 \<or> (\<exists>k. P (Suc k))" for P :: "nat \<Rightarrow> bool" by (metis not0_implies_Suc)
    from this [of "\<lambda>k. ?d \<le> v + sum_list (take k (e # es)) \<and> ?d \<le> sum_list (drop k (e # es))"]
    show ?thesis using Cons.prems(2) by (simp add: add.assoc)
  qed
  note t = tick_way(2) [OF Cons.prems(1), of e]
  have fd: "forward_delay (tick_forward_delay e s i) = ?d" using Cons.prems(1) by (intro tick_way(1)) (simp add: way_def)
  show ?case
  proof (cases "v + e < ?d")
    case True
    then show ?thesis
      using Cons.IH [of "tick_forward_delay e s i" "v + e"] t pos(1) fd Cons.prems(4) unfolding parts by (simp add: add.assoc)
  next
    case False
    have "?d \<le> sum_list es" if "?d \<le> sum_list (drop k es)" for k
    proof -
      have "0 \<le> sum_list (take k es)" using pos(1) by (intro sum_list_nonneg) (auto dest: in_set_takeD)
      then show ?thesis using that sum_list_append [of "take k es" "drop k es"] by simp
    qed
    then have "(\<exists>k. ?d \<le> v + e + sum_list (take k es) \<and> ?d \<le> sum_list (drop k es)) \<longleftrightarrow> ?d \<le> sum_list es"
      using False by (metis add.right_neutral drop0 not_less sum_list.Nil take0)
    moreover have "?d \<le> v + sum_list (e # es)" using False pos(3) by simp
    moreover have "port_state (port_at (foldl (\<lambda>s e. tick_forward_delay e s i) s (e # es)) i) =
        (if ?d \<le> sum_list es then STP_FORWARDING else STP_LEARNING)"
      using False t ticks_learning [of "tick_forward_delay e s i" i 0 es] pos(1,2) fd Cons.prems(2) Cons.prems(4) by simp
    ultimately show ?thesis unfolding parts by simp
  qed
qed

text \<open>Ticks of at most \<open>m\<close> reach \<open>d\<close> with less than \<open>m\<close> too much.\<close>

lemma split_ticks:
  fixes d m :: int
  assumes "\<forall>e \<in> set es. e \<le> m" and "0 < d" and "d \<le> sum_list es"
  shows "\<exists>k. d \<le> sum_list (take k es) \<and> sum_list (take k es) \<le> d + m - 1"
  using assms
proof (induction es arbitrary: d)
  case (Cons e es)
  show ?case
  proof (cases "d \<le> e")
    case True
    then show ?thesis using Cons.prems by (intro exI [of _ 1]) simp
  next
    case False
    then obtain k where "d - e \<le> sum_list (take k es)" "sum_list (take k es) \<le> d - e + m - 1"
      using Cons.IH [of "d - e"] Cons.prems by auto
    then show ?thesis by (intro exI [of _ "Suc k"]) simp
  qed
qed simp

lemma sum_list_length: "\<forall>e \<in> set es. 0 < (e :: int) \<Longrightarrow> int (length es) \<le> sum_list es"
  by (induction es) auto

text \<open>
  C19. A blocked port that is to forward first listens and then learns, each for a whole forward
  delay. What an advance of the clock brings beyond the end of a delay is lost for the next one, so the port forwards
  exactly when the advances fall into two successive parts of a whole forward delay each, learns when only the first
  is complete and listens before. So it never forwards before twice the forward delay has passed, and, when
  the clock advances by at most \<open>m\<close> ticks at a time, it forwards once another \<open>m - 1\<close> ticks have passed, or
  after as many advances as twice the forward delay has ticks.
\<close>

theorem forward_delay_wait:
  assumes "i < length (ports s)" and "port_state (port_at s i) = STP_BLOCKING" and "0 < forward_delay s"
    and "\<forall>e \<in> set es. 0 < e"
  defines "s' \<equiv> foldl (\<lambda>s e. tick_forward_delay e s i) (stp_make_forwarding s i) es"
  shows "port_state (port_at s' i) =
      (if \<exists>k. forward_delay s \<le> sum_list (take k es) \<and> forward_delay s \<le> sum_list (drop k es) then STP_FORWARDING
       else if forward_delay s \<le> sum_list es then STP_LEARNING else STP_LISTENING) \<and>
    (port_state (port_at s' i) = STP_FORWARDING \<longrightarrow> 2 * forward_delay s \<le> sum_list es) \<and>
    (0 < m \<and> (\<forall>e \<in> set es. e \<le> m) \<and> 2 * forward_delay s + m - 1 \<le> sum_list es \<longrightarrow> port_state (port_at s' i) = STP_FORWARDING) \<and>
    (2 * forward_delay s \<le> int (length es) \<longrightarrow> port_state (port_at s' i) = STP_FORWARDING)"
proof -
  let ?t = "stp_make_forwarding s i" and ?d = "forward_delay s"
  have t: "way ?t i STP_LISTENING (Some 0)" "forward_delay ?t = ?d"
    using assms(1,2) by (simp_all add: stp_make_forwarding_def way_def at_simps stp_start_timer_def)
  have pos: "\<forall>e \<in> set es. 0 \<le> e" using assms(4) by (meson order_less_imp_le)
  have st: "port_state (port_at s' i) =
      (if \<exists>k. ?d \<le> sum_list (take k es) \<and> ?d \<le> sum_list (drop k es) then STP_FORWARDING
       else if ?d \<le> sum_list es then STP_LEARNING else STP_LISTENING)"
    using ticks_listening [OF t(1) _ pos] assms(3) t(2) unfolding s'_def t(2) by simp
  have sum: "sum_list es = sum_list (take k es) + sum_list (drop k es)" for k by (metis append_take_drop_id sum_list_append)
  show ?thesis
  proof (intro conjI impI)
    assume "port_state (port_at s' i) = STP_FORWARDING"
    then obtain k where "?d \<le> sum_list (take k es)" "?d \<le> sum_list (drop k es)" using st by (auto split: if_splits)
    then show "2 * ?d \<le> sum_list es" using sum [of k] by simp
  next
    assume m: "0 < m \<and> (\<forall>e \<in> set es. e \<le> m) \<and> 2 * ?d + m - 1 \<le> sum_list es"
    then have "?d \<le> sum_list es" using assms(3) by auto
    then obtain k where "?d \<le> sum_list (take k es)" "sum_list (take k es) \<le> ?d + m - 1" using split_ticks [of es m ?d] m assms(3) by blast
    then have "?d \<le> sum_list (take k es) \<and> ?d \<le> sum_list (drop k es)" using sum [of k] m by simp
    then show "port_state (port_at s' i) = STP_FORWARDING" using st by auto
  next
    assume len: "2 * ?d \<le> int (length es)"
    have "\<forall>e \<in> set (take k es). 0 < e" "\<forall>e \<in> set (drop k es). 0 < e" for k
      using assms(4) by (auto dest: in_set_takeD in_set_dropD)
    note ge = this [THEN sum_list_length]
    have "?d \<le> sum_list (take (nat ?d) es) \<and> ?d \<le> sum_list (drop (nat ?d) es)"
      using ge [of "nat ?d"] len assms(3) by simp
    then show "port_state (port_at s' i) = STP_FORWARDING" using st by auto
  qed (rule st)
qed

theorem forward_delay_wait_witness:
  "\<exists>s. port_state (port_at s 0) = STP_BLOCKING \<and> forward_delay s = 4 \<and>
     port_state (port_at (foldl (\<lambda>s e. tick_forward_delay e s 0) (stp_make_forwarding s 0) [3, 3, 3, 3]) 0) = STP_FORWARDING"
proof -
  obtain s where "stp_create ''br0'' 1 = Some s" using stp_create_inv by blast
  define t where "t = s\<lparr>forward_delay := 4, ports := [zero_port\<lparr>port_state := STP_BLOCKING\<rparr>]\<rparr>"
  have t: "0 < length (ports t)" "port_state (port_at t 0) = STP_BLOCKING" "forward_delay t = 4"
    by (simp_all add: t_def port_at_def)
  have "port_state (port_at (foldl (\<lambda>s e. tick_forward_delay e s 0) (stp_make_forwarding t 0) [3, 3, 3, 3]) 0) = STP_FORWARDING"
  proof (rule forward_delay_wait [THEN conjunct2, THEN conjunct2, THEN conjunct1, THEN mp])
    show "0 < (3 :: int) \<and> (\<forall>e \<in> set [3, 3, 3, 3 :: int]. e \<le> 3) \<and> 2 * forward_delay t + 3 - 1 \<le> sum_list [3, 3, 3, 3]"
      using t(3) by simp
  qed (use t in simp_all)
  then show ?thesis using t by blast
qed

end
