(* ===== verification/Bitmap.thy ===== *)
theory Bitmap
  imports Prelude
begin

text \<open>
  \<^verbatim>\<open>lib/bitmap.h\<close>, \<^verbatim>\<open>lib/bitmap.c\<close> and \<^verbatim>\<open>lib/vlan-bitmap.c\<close>: sets of small integers in an array of
  \<^verbatim>\<open>unsigned long\<close>, 64 bits wide. An array is the list of its words; an access outside of it, which
  the code never checks for, is excluded by the hypotheses of the lemmas. A VLAN bitmap has 4096 bits and
  may be a null pointer.
\<close>

section \<open>Definitions\<close>

definition bitmap_unit :: "nat \<Rightarrow> nat" where
  "bitmap_unit offset = offset div 64"

definition bitmap_bit :: "nat \<Rightarrow> u64" where
  "bitmap_bit offset = push_bit (offset mod 64) 1"

definition bitmap_n_longs :: "nat \<Rightarrow> nat" where
  "bitmap_n_longs n_bits = (n_bits + 63) div 64"

definition bitmap_n_bytes :: "nat \<Rightarrow> nat" where
  "bitmap_n_bytes n_bits = bitmap_n_longs n_bits * 8"

definition bitmap_allocate :: "nat \<Rightarrow> u64 list" where
  "bitmap_allocate n_bits = replicate (bitmap_n_bytes n_bits div 8) 0"

definition bitmap_allocate1 :: "nat \<Rightarrow> u64 list" where
  "bitmap_allocate1 n_bits =
     (let n_longs = bitmap_n_longs n_bits;
          r_bits = n_bits mod 64;
          bitmap = replicate (bitmap_n_bytes n_bits div 8) (- 1)
      in if r_bits \<noteq> 0 then bitmap[n_longs - 1 := push_bit r_bits 1 - 1] else bitmap)"

definition bitmap_is_set :: "u64 list \<Rightarrow> nat \<Rightarrow> bool" where
  "bitmap_is_set bitmap offset \<longleftrightarrow> bitmap ! bitmap_unit offset AND bitmap_bit offset \<noteq> 0"

definition bitmap_set1 :: "u64 list \<Rightarrow> nat \<Rightarrow> u64 list" where
  "bitmap_set1 bitmap offset =
     bitmap[bitmap_unit offset := bitmap ! bitmap_unit offset OR bitmap_bit offset]"

definition bitmap_set0 :: "u64 list \<Rightarrow> nat \<Rightarrow> u64 list" where
  "bitmap_set0 bitmap offset =
     bitmap[bitmap_unit offset := bitmap ! bitmap_unit offset AND NOT (bitmap_bit offset)]"

definition bitmap_set :: "u64 list \<Rightarrow> nat \<Rightarrow> bool \<Rightarrow> u64 list" where
  "bitmap_set bitmap offset v = (if v then bitmap_set1 bitmap offset else bitmap_set0 bitmap offset)"

text \<open>The three loops of \<^verbatim>\<open>bitmap_set_multiple\<close>: up to a word boundary, whole words, the rest.\<close>

fun set_multiple_head :: "u64 list \<Rightarrow> nat \<Rightarrow> nat \<Rightarrow> bool \<Rightarrow> u64 list \<times> nat \<times> nat" where
  "set_multiple_head bitmap start cnt v =
     (if cnt > 0 \<and> start mod 64 \<noteq> 0
      then set_multiple_head (bitmap_set bitmap start v) (start + 1) (cnt - 1) v
      else (bitmap, start, cnt))"

declare set_multiple_head.simps [simp del]

fun set_multiple_words :: "u64 list \<Rightarrow> nat \<Rightarrow> nat \<Rightarrow> bool \<Rightarrow> u64 list \<times> nat \<times> nat" where
  "set_multiple_words bitmap start cnt v =
     (if cnt \<ge> 64
      then set_multiple_words (bitmap[bitmap_unit start := - of_bool v]) (start + 64) (cnt - 64) v
      else (bitmap, start, cnt))"

declare set_multiple_words.simps [simp del]

fun set_multiple_tail :: "u64 list \<Rightarrow> nat \<Rightarrow> nat \<Rightarrow> bool \<Rightarrow> u64 list" where
  "set_multiple_tail bitmap start cnt v =
     (if cnt > 0 then set_multiple_tail (bitmap_set bitmap start v) (start + 1) (cnt - 1) v else bitmap)"

declare set_multiple_tail.simps [simp del]

definition bitmap_set_multiple :: "u64 list \<Rightarrow> nat \<Rightarrow> nat \<Rightarrow> bool \<Rightarrow> u64 list" where
  "bitmap_set_multiple bitmap start cnt v =
     (let (bitmap1, start1, cnt1) = set_multiple_head bitmap start cnt v;
          (bitmap2, start2, cnt2) = set_multiple_words bitmap1 start1 cnt1 v
      in set_multiple_tail bitmap2 start2 cnt2 v)"

definition bitmap_equal :: "u64 list \<Rightarrow> u64 list \<Rightarrow> nat \<Rightarrow> bool" where
  "bitmap_equal a b n \<longleftrightarrow>
     (if take (n div 64) a \<noteq> take (n div 64) b then False
      else list_all (\<lambda>i. bitmap_is_set a i = bitmap_is_set b i) [n div 64 * 64..<n])"

function bitmap_scan :: "u64 list \<Rightarrow> nat \<Rightarrow> nat \<Rightarrow> nat" where
  "bitmap_scan bitmap i end' =
     (if i < end' then if bitmap_is_set bitmap i then i else bitmap_scan bitmap (i + 1) end' else i)"
  by pat_completeness auto
termination
  by (relation "measure (\<lambda>(_, i, e). e - i)") auto

declare bitmap_scan.simps [simp del]

text \<open>The indexes \<^verbatim>\<open>BITMAP_FOR_EACH_1\<close> runs through.\<close>

lemma bitmap_scan_ge: "i \<le> bitmap_scan bitmap i n"
proof (induction bitmap i n rule: bitmap_scan.induct)
  case (1 bitmap i n)
  then show ?case by (subst bitmap_scan.simps) (auto dest: Suc_leD)
qed

function for_each_1_from :: "nat \<Rightarrow> nat \<Rightarrow> u64 list \<Rightarrow> nat list" where
  "for_each_1_from idx n bitmap =
     (if idx < n then idx # for_each_1_from (bitmap_scan bitmap (idx + 1) n) n bitmap else [])"
  by pat_completeness auto
termination
proof (relation "measure (\<lambda>(idx, n, _). n - idx)")
  fix idx n :: nat and bitmap :: "u64 list"
  assume "idx < n"
  then show "((bitmap_scan bitmap (idx + 1) n, n, bitmap), idx, n, bitmap) \<in> measure (\<lambda>(idx, n, _). n - idx)"
    using bitmap_scan_ge [of "idx + 1" bitmap n] by simp
qed simp

declare for_each_1_from.simps [simp del]

definition BITMAP_FOR_EACH_1 :: "nat \<Rightarrow> u64 list \<Rightarrow> nat list" where
  "BITMAP_FOR_EACH_1 n bitmap = for_each_1_from (bitmap_scan bitmap 0 n) n bitmap"

fun vlan_bitmap_add_array :: "int list \<Rightarrow> u64 list \<Rightarrow> nat \<times> u64 list" where
  "vlan_bitmap_add_array [] b = (0, b)"
| "vlan_bitmap_add_array (vlan # vlans) b =
     (if vlan \<ge> 0 \<and> vlan < 4096 \<and> \<not> bitmap_is_set b (nat vlan)
      then let (n, b') = vlan_bitmap_add_array vlans (bitmap_set1 b (nat vlan)) in (n + 1, b')
      else vlan_bitmap_add_array vlans b)"

definition vlan_bitmap_from_array :: "int list \<Rightarrow> u64 list option" where
  "vlan_bitmap_from_array vlans =
     (if vlans = [] then None
      else let (n, b) = vlan_bitmap_add_array vlans (bitmap_allocate 4096)
           in if n = 0 then None else Some b)"

definition vlan_bitmap_equal :: "u64 list option \<Rightarrow> u64 list option \<Rightarrow> bool" where
  "vlan_bitmap_equal a b \<longleftrightarrow>
     (case (a, b) of (None, None) \<Rightarrow> True | (Some x, Some y) \<Rightarrow> bitmap_equal x y 4096 | _ \<Rightarrow> False)"

definition vlan_bitmap_clone :: "u64 list option \<Rightarrow> u64 list option" where
  "vlan_bitmap_clone vlans = map_option (take (bitmap_n_bytes 4096 div 8)) vlans"

section \<open>A bitmap as a set\<close>

lemma bit_bitmap_bit: "bit (bitmap_bit i) k \<longleftrightarrow> k = i mod 64"
  using mod_less_divisor [of 64 i] by (auto simp: bitmap_bit_def bit_exp_iff)

lemma bitmap_is_set_bit: "bitmap_is_set b i \<longleftrightarrow> bit (b ! (i div 64)) (i mod 64)"
proof -
  have "b ! (i div 64) AND bitmap_bit i \<noteq> 0 \<longleftrightarrow> (\<exists>k < 64. bit (b ! (i div 64)) k \<and> bit (bitmap_bit i) k)"
    by (subst word_nonzero_iff_bit) (simp add: bit_and_iff)
  also have "\<dots> \<longleftrightarrow> bit (b ! (i div 64)) (i mod 64)" by (simp add: bit_bitmap_bit)
  finally show ?thesis by (simp add: bitmap_is_set_def bitmap_unit_def)
qed

lemma length_bitmap_set [simp]:
  "length (bitmap_set1 b i) = length b" "length (bitmap_set0 b i) = length b" "length (bitmap_set b i v) = length b"
  by (simp_all add: bitmap_set1_def bitmap_set0_def bitmap_set_def)

lemma div_mod_eq: "i div (64 :: nat) = j div 64 \<Longrightarrow> i mod 64 = j mod 64 \<Longrightarrow> i = j"
  by (metis div_mult_mod_eq)

lemma is_set_set:
  assumes "i < 64 * length b"
  shows "bitmap_is_set (bitmap_set b i v) j \<longleftrightarrow> (if j = i then v else bitmap_is_set b j)"
proof -
  have i: "i div 64 < length b" using assms by (simp add: less_mult_imp_div_less mult.commute)
  show ?thesis
  proof (cases "j div 64 = i div 64")
    case False
    then show ?thesis
      by (auto simp: bitmap_is_set_bit bitmap_set_def bitmap_set1_def bitmap_set0_def bitmap_unit_def)
  next
    case True
    then have "j = i \<longleftrightarrow> j mod 64 = i mod 64" using div_mod_eq [of j i] by blast
    then show ?thesis using i True
      by (cases v) (simp_all add: bitmap_is_set_bit bitmap_set_def bitmap_set1_def bitmap_set0_def bitmap_unit_def
          bit_or_iff bit_and_iff bit_not_iff bit_bitmap_bit)
  qed
qed

lemma is_set_set1: "i < 64 * length b \<Longrightarrow> bitmap_is_set (bitmap_set1 b i) j \<longleftrightarrow> j = i \<or> bitmap_is_set b j"
  using is_set_set [of i b True j] by (simp add: bitmap_set_def)

lemma is_set_word:
  assumes "start mod 64 = 0" and "start < 64 * length b"
  shows "bitmap_is_set (b[bitmap_unit start := - of_bool v]) j \<longleftrightarrow>
    (if start \<le> j \<and> j < start + 64 then v else bitmap_is_set b j)"
proof -
  have u: "bitmap_unit start < length b" using assms(2) by (simp add: bitmap_unit_def less_mult_imp_div_less mult.commute)
  have "start = 64 * (start div 64)" using assms(1) by (metis add.right_neutral mult_div_mod_eq)
  then have r: "start \<le> j \<and> j < start + 64 \<longleftrightarrow> j div 64 = start div 64"
    using dividend_less_times_div [of 64 j] times_div_less_eq_dividend [of 64 j] by (auto intro: div_nat_eqI)
  have "bit (- of_bool v :: u64) (j mod 64) = v" by (cases v) simp_all
  then show ?thesis using u r
    by (simp add: bitmap_is_set_bit bitmap_unit_def nth_list_update)
qed

text \<open>\<open>b'\<close> is \<open>b\<close> with \<open>n\<close> bits from \<open>start\<close> on set to \<open>v\<close>.\<close>

definition range_set :: "u64 list \<Rightarrow> nat \<Rightarrow> nat \<Rightarrow> bool \<Rightarrow> u64 list \<Rightarrow> bool" where
  "range_set b start n v b' \<longleftrightarrow> length b' = length b \<and>
     (\<forall>j. bitmap_is_set b' j \<longleftrightarrow> (if start \<le> j \<and> j < start + n then v else bitmap_is_set b j))"

lemma range_set_0: "range_set b start 0 v b"
  by (auto simp: range_set_def)

lemma range_set_trans: "range_set b s m v b1 \<Longrightarrow> range_set b1 (s + m) n v b2 \<Longrightarrow> range_set b s (m + n) v b2"
  by (auto simp: range_set_def split: if_splits)

lemma range_set_1: "s < 64 * length b \<Longrightarrow> range_set b s 1 v (bitmap_set b s v)"
  by (auto simp: range_set_def is_set_set)

lemma range_set_64:
  "s mod 64 = 0 \<Longrightarrow> s < 64 * length b \<Longrightarrow> range_set b s 64 v (b[bitmap_unit s := - of_bool v])"
  by (simp add: range_set_def is_set_word)

lemma set_multiple_head_range:
  assumes "start + n \<le> 64 * length b" and "set_multiple_head b start n v = (b', start', n')"
  shows "start' + n' = start + n \<and> n' \<le> n \<and> (n' = 0 \<or> start' mod 64 = 0) \<and> range_set b start (n - n') v b'"
  using assms
proof (induction b start n v rule: set_multiple_head.induct)
  case (1 b start n v)
  show ?case
  proof (cases "n > 0 \<and> start mod 64 \<noteq> 0")
    case False
    then show ?thesis using "1.prems"(2) by (subst (asm) set_multiple_head.simps) (auto simp: range_set_0)
  next
    case True
    let ?b = "bitmap_set b start v"
    have "set_multiple_head ?b (start + 1) (n - 1) v = (b', start', n')"
      using "1.prems"(2) True by (subst (asm) set_multiple_head.simps) simp
    from "1.IH" [OF True _ this] have IH: "start' + n' = start + n" "n' = 0 \<or> start' mod 64 = 0"
      "range_set ?b (start + 1) (n - 1 - n') v b'" "n' \<le> n - 1"
      using "1.prems"(1) True by simp_all
    have "range_set b start 1 v ?b" using "1.prems"(1) True by (intro range_set_1) simp
    moreover have "1 + (n - 1 - n') = n - n'" using IH(4) True by linarith
    ultimately have "range_set b start (n - n') v b'" using range_set_trans [OF _ IH(3)] by metis
    then show ?thesis using IH True by simp
  qed
qed

lemma set_multiple_words_range:
  assumes "start + n \<le> 64 * length b" and "n = 0 \<or> start mod 64 = 0" and "set_multiple_words b start n v = (b', start', n')"
  shows "start' + n' = start + n \<and> n' \<le> n \<and> range_set b start (n - n') v b'"
  using assms
proof (induction b start n v rule: set_multiple_words.induct)
  case (1 b start n v)
  show ?case
  proof (cases "n \<ge> 64")
    case False
    then show ?thesis using "1.prems"(3) by (subst (asm) set_multiple_words.simps) (auto simp: range_set_0)
  next
    case True
    let ?b = "b[bitmap_unit start := - of_bool v]"
    have "set_multiple_words ?b (start + 64) (n - 64) v = (b', start', n')"
      using "1.prems"(3) True by (subst (asm) set_multiple_words.simps) simp
    from "1.IH" [OF True _ _ this] have IH: "start' + n' = start + n" "range_set ?b (start + 64) (n - 64 - n') v b'" "n' \<le> n - 64"
      using "1.prems"(1,2) True by simp_all
    have "range_set b start 64 v ?b" using "1.prems"(1,2) True by (intro range_set_64) simp_all
    from range_set_trans [OF this IH(2)] IH True show ?thesis by simp
  qed
qed

lemma set_multiple_tail_range:
  "start + n \<le> 64 * length b \<Longrightarrow> range_set b start n v (set_multiple_tail b start n v)"
proof (induction b start n v rule: set_multiple_tail.induct)
  case (1 b start n v)
  show ?case
  proof (cases "n > 0")
    case False
    then show ?thesis by (subst set_multiple_tail.simps) (simp add: range_set_0)
  next
    case True
    let ?b = "bitmap_set b start v"
    have "range_set b start 1 v ?b" using "1.prems" True by (intro range_set_1) simp
    moreover have "range_set ?b (start + 1) (n - 1) v (set_multiple_tail ?b (start + 1) (n - 1) v)"
      using "1.IH" [OF True] "1.prems" True by simp
    ultimately show ?thesis using range_set_trans True by (subst set_multiple_tail.simps) fastforce
  qed
qed

lemma bitmap_set_multiple_range:
  assumes "start + n \<le> 64 * length b"
  shows "range_set b start n v (bitmap_set_multiple b start n v)"
proof -
  obtain b1 s1 n1 where 1: "set_multiple_head b start n v = (b1, s1, n1)" using prod_cases3 by blast
  obtain b2 s2 n2 where 2: "set_multiple_words b1 s1 n1 v = (b2, s2, n2)" using prod_cases3 by blast
  note r1 = set_multiple_head_range [OF assms 1]
  then have l1: "s1 + n1 \<le> 64 * length b1" using assms by (simp add: range_set_def)
  note r2 = set_multiple_words_range [OF l1 _ 2]
  then have l2: "s2 + n2 \<le> 64 * length b2" using l1 r1 by (simp add: range_set_def)
  have "range_set b1 s1 (n1 - n2) v b2" "range_set b start (n - n1) v b1" using r1 r2 by simp_all
  moreover have "s1 = start + (n - n1)" "s2 = s1 + (n1 - n2)" using r1 r2 by arith+
  ultimately have "range_set b start (n - n1 + (n1 - n2 + n2)) v (set_multiple_tail b2 s2 n2 v)"
    using set_multiple_tail_range [OF l2] by (metis range_set_trans)
  then show ?thesis using 1 2 r1 r2 by (simp add: bitmap_set_multiple_def)
qed

section \<open>Iteration, comparison and VLANs\<close>

lemma bitmap_scan_first:
  "i \<le> n \<Longrightarrow> bitmap_scan b i n \<le> n \<and> (\<forall>j. i \<le> j \<and> j < bitmap_scan b i n \<longrightarrow> \<not> bitmap_is_set b j) \<and>
     (bitmap_scan b i n < n \<longrightarrow> bitmap_is_set b (bitmap_scan b i n))"
proof (induction b i n rule: bitmap_scan.induct)
  case (1 b i n)
  show ?case
  proof (cases "i < n \<and> \<not> bitmap_is_set b i")
    case True
    then have eq: "bitmap_scan b i n = bitmap_scan b (i + 1) n" by (subst bitmap_scan.simps) simp
    have IH: "bitmap_scan b (i + 1) n \<le> n" "\<forall>j. i + 1 \<le> j \<and> j < bitmap_scan b (i + 1) n \<longrightarrow> \<not> bitmap_is_set b j"
      "bitmap_scan b (i + 1) n < n \<longrightarrow> bitmap_is_set b (bitmap_scan b (i + 1) n)" using "1.IH" True by simp_all
    have "\<not> bitmap_is_set b j" if "i \<le> j" "j < bitmap_scan b (i + 1) n" for j
      using IH(2) True that by (cases "j = i") auto
    then show ?thesis using IH(1,3) by (simp add: eq)
  next
    case False
    then have "bitmap_scan b i n = i" by (subst bitmap_scan.simps) auto
    then show ?thesis using False "1.prems" by auto
  qed
qed

lemma filter_upt_split:
  assumes "i \<le> k" and "k \<le> n" and "\<forall>j. i \<le> j \<and> j < k \<longrightarrow> \<not> P j"
  shows "filter P [i..<n] = filter P [k..<n]"
proof -
  have "[i..<n] = [i..<k] @ [k..<n]" using assms(1,2) by (metis upt_add_eq_append le_Suc_ex)
  moreover have "filter P [i..<k] = []" using assms(3) by (auto simp: filter_empty_conv)
  ultimately show ?thesis by simp
qed

lemma for_each_1_from_eq:
  "i \<le> n \<Longrightarrow> for_each_1_from (bitmap_scan b i n) n b = filter (bitmap_is_set b) [i..<n]"
proof (induction "n - i" arbitrary: i rule: less_induct)
  case less
  let ?k = "bitmap_scan b i n"
  have k: "i \<le> ?k" "?k \<le> n" "\<forall>j. i \<le> j \<and> j < ?k \<longrightarrow> \<not> bitmap_is_set b j" "?k < n \<longrightarrow> bitmap_is_set b ?k"
    using bitmap_scan_ge bitmap_scan_first [OF less.prems, of b] by simp_all
  note split = filter_upt_split [OF k(1-3)]
  show ?case
  proof (cases "?k < n")
    case True
    then have "for_each_1_from ?k n b = ?k # filter (bitmap_is_set b) [?k + 1..<n]"
      using less.hyps [of "?k + 1"] k(1) by (subst for_each_1_from.simps) simp
    then show ?thesis using True k(4) by (simp add: split upt_rec [of ?k])
  next
    case False
    then show ?thesis by (subst for_each_1_from.simps) (simp add: split)
  qed
qed

lemma nth_eq_iff_set:
  assumes "i < length a" and "i < length b"
  shows "a ! i = b ! i \<longleftrightarrow> (\<forall>j. i * 64 \<le> j \<and> j < i * 64 + 64 \<longrightarrow> bitmap_is_set a j = bitmap_is_set b j)"
proof -
  have "(\<forall>j. i * 64 \<le> j \<and> j < i * 64 + 64 \<longrightarrow> bitmap_is_set a j = bitmap_is_set b j) \<longleftrightarrow>
    (\<forall>k < 64. bitmap_is_set a (i * 64 + k) = bitmap_is_set b (i * 64 + k))"
    by (rule all_interval_shift)
  also have "\<dots> \<longleftrightarrow> (\<forall>k < 64. bit (a ! i) k = bit (b ! i) k)" by (simp add: bitmap_is_set_bit)
  finally show ?thesis by (simp add: word_eq_iff_bits)
qed

lemma bitmap_equal_iff:
  assumes "bitmap_n_longs n \<le> length a" and "bitmap_n_longs n \<le> length b"
  shows "bitmap_equal a b n \<longleftrightarrow> (\<forall>i < n. bitmap_is_set a i = bitmap_is_set b i)"
proof -
  let ?m = "n div 64"
  have l: "?m \<le> length a" "?m \<le> length b" using assms unfolding bitmap_n_longs_def by linarith+
  have w: "j div 64 < ?m \<longleftrightarrow> j < ?m * 64" for j by (simp add: div_less_iff_less_mult)
  have eq: "a ! i = b ! i \<longleftrightarrow> (\<forall>j. i * 64 \<le> j \<and> j < i * 64 + 64 \<longrightarrow> bitmap_is_set a j = bitmap_is_set b j)" if "i < ?m" for i
    using nth_eq_iff_set that l by simp
  have "take ?m a = take ?m b \<longleftrightarrow> (\<forall>i < ?m. a ! i = b ! i)"
    using l by (auto simp: list_eq_iff_nth_eq)
  also have "\<dots> \<longleftrightarrow> (\<forall>j < ?m * 64. bitmap_is_set a j = bitmap_is_set b j)"
  proof (rule iffI; intro allI impI)
    fix j assume "\<forall>i < ?m. a ! i = b ! i" and "j < ?m * 64"
    then show "bitmap_is_set a j = bitmap_is_set b j" using w by (simp add: bitmap_is_set_bit)
  next
    fix i assume a: "\<forall>j < ?m * 64. bitmap_is_set a j = bitmap_is_set b j" and i: "i < ?m"
    have "i * 64 + 64 \<le> ?m * 64" using i by simp
    then show "a ! i = b ! i" using a eq [OF i] by auto
  qed
  finally have t: "take ?m a = take ?m b \<longleftrightarrow> (\<forall>j < ?m * 64. bitmap_is_set a j = bitmap_is_set b j)" .
  have "?m * 64 \<le> n" by simp
  then have "(\<forall>i < n. P i) \<longleftrightarrow> (\<forall>i < ?m * 64. P i) \<and> (\<forall>i \<in> {?m * 64..<n}. P i)" for P
    by (auto simp: not_less)
  then show ?thesis by (simp add: bitmap_equal_def t list_all_iff)
qed

lemma length_bitmap_allocate: "length (bitmap_allocate n) = bitmap_n_longs n"
  by (simp add: bitmap_allocate_def bitmap_n_bytes_def)

lemma bitmap_allocate_empty: "i < 64 * bitmap_n_longs n \<Longrightarrow> \<not> bitmap_is_set (bitmap_allocate n) i"
  by (simp add: bitmap_is_set_bit bitmap_allocate_def bitmap_n_bytes_def less_mult_imp_div_less mult.commute)

lemma bitmap_n_longs_eq: "bitmap_n_longs n = n div 64 + (if n mod 64 = 0 then 0 else 1)"
proof -
  have "(n mod 64 + 63) div 64 = (if n mod 64 = 0 then 0 else 1)"
  proof (cases "n mod 64 = 0")
    case False
    have "n mod 64 < 64" by simp
    then have "(n mod 64 + 63) div 64 = 1" using False by (intro div_nat_eqI) simp_all
    then show ?thesis using False by simp
  qed simp
  then show ?thesis using div_add1_eq [of n 63 64] by (simp add: bitmap_n_longs_def)
qed

lemma bitmap_n_longs_bounds: "n \<le> 64 * bitmap_n_longs n" "64 * bitmap_n_longs n < n + 64"
proof -
  have "n = 64 * (n div 64) + n mod 64" "n mod 64 < 64" by simp_all
  then show "n \<le> 64 * bitmap_n_longs n" "64 * bitmap_n_longs n < n + 64" unfolding bitmap_n_longs_eq by (simp; linarith)+
qed

lemma length_bitmap_allocate1: "length (bitmap_allocate1 n) = bitmap_n_longs n"
  by (simp add: bitmap_allocate1_def bitmap_n_bytes_def Let_def)

lemma bitmap_allocate1_full:
  assumes "i < 64 * bitmap_n_longs n"
  shows "bitmap_is_set (bitmap_allocate1 n) i \<longleftrightarrow> i < n"
proof -
  have u: "i div 64 < bitmap_n_longs n" using assms by (simp add: less_mult_imp_div_less mult.commute)
  have i: "i = 64 * (i div 64) + i mod 64" and n: "n = 64 * (n div 64) + n mod 64" by simp_all
  note longs = bitmap_n_longs_eq [of n]
  show ?thesis
  proof (cases "n mod 64 \<noteq> 0 \<and> i div 64 = n div 64")
    case True
    then have "bitmap_allocate1 n = (replicate (bitmap_n_longs n) (- 1))[bitmap_n_longs n - 1 := 2 ^ (n mod 64) - 1]"
      by (simp add: bitmap_allocate1_def bitmap_n_bytes_def Let_def)
    moreover have "i div 64 = bitmap_n_longs n - 1" using True longs by simp
    ultimately have "bitmap_allocate1 n ! (i div 64) = 2 ^ (n mod 64) - 1" using u by simp
    then have "bitmap_is_set (bitmap_allocate1 n) i \<longleftrightarrow> i mod 64 < n mod 64"
      by (auto simp: bitmap_is_set_bit bit_exp_minus_1')
    moreover have "i mod 64 < n mod 64 \<longleftrightarrow> i < n" using True i n by (metis add_less_cancel_left)
    ultimately show ?thesis by blast
  next
    case False
    then have d: "i div 64 < n div 64" using u longs by (auto split: if_splits)
    then have "n mod 64 \<noteq> 0 \<Longrightarrow> i div 64 \<noteq> bitmap_n_longs n - 1" using longs by simp
    then have "bitmap_allocate1 n ! (i div 64) = - 1"
      using u by (auto simp: bitmap_allocate1_def bitmap_n_bytes_def Let_def nth_list_update)
    then have "bitmap_is_set (bitmap_allocate1 n) i" by (simp add: bitmap_is_set_bit)
    moreover have "i < n" using d by (metis div_le_mono not_le)
    ultimately show ?thesis by simp
  qed
qed

lemma vlan_bitmap_add_array_sets:
  assumes "length b = 64" and "vlan_bitmap_add_array vlans b = (n, b')"
  shows "length b' = 64 \<and> (n = 0 \<longrightarrow> b' = b) \<and> (n > 0 \<longrightarrow> (\<exists>j < 4096. int j \<in> set vlans)) \<and>
    (\<forall>j < 4096. bitmap_is_set b' j \<longleftrightarrow> bitmap_is_set b j \<or> int j \<in> set vlans)"
  using assms
proof (induction vlans arbitrary: b n)
  case Nil
  then show ?case by simp
next
  case (Cons vlan vlans)
  show ?case
  proof (cases "vlan \<ge> 0 \<and> vlan < 4096 \<and> \<not> bitmap_is_set b (nat vlan)")
    case True
    let ?b = "bitmap_set1 b (nat vlan)"
    obtain m where m: "vlan_bitmap_add_array vlans ?b = (m, b')" "n = m + 1"
      using Cons.prems(2) True by (auto split: prod.splits)
    have "length ?b = 64" using Cons.prems(1) by simp
    note IH = Cons.IH [OF this m(1)]
    have "int j = vlan \<longleftrightarrow> j = nat vlan" for j using True by auto
    moreover have "bitmap_is_set ?b j \<longleftrightarrow> j = nat vlan \<or> bitmap_is_set b j" for j
      using True Cons.prems(1) by (intro is_set_set1) linarith
    moreover have "\<exists>j < 4096. int j = vlan" using True by (intro exI [of _ "nat vlan"]) (simp add: nat_less_iff)
    ultimately show ?thesis using IH m(2) by auto
  next
    case False
    then have "vlan_bitmap_add_array vlans b = (n, b')" using Cons.prems(2) by auto
    note IH = Cons.IH [OF Cons.prems(1) this]
    have "bitmap_is_set b j" if "int j = vlan" "j < 4096" for j using False that by auto
    then show ?thesis using IH by auto
  qed
qed

lemma vlan_bitmap_from_array_sets:
  "case vlan_bitmap_from_array vlans of
     None \<Rightarrow> \<forall>j < 4096. int j \<notin> set vlans
   | Some b \<Rightarrow> length b = 64 \<and> (\<exists>j < 4096. int j \<in> set vlans) \<and> (\<forall>j < 4096. bitmap_is_set b j \<longleftrightarrow> int j \<in> set vlans)"
proof -
  obtain n b where nb: "vlan_bitmap_add_array vlans (bitmap_allocate 4096) = (n, b)" by fastforce
  have l: "length (bitmap_allocate 4096) = 64" by (simp add: length_bitmap_allocate bitmap_n_longs_def)
  have e: "\<not> bitmap_is_set (bitmap_allocate 4096) j" if "j < 4096" for j
    using that by (intro bitmap_allocate_empty) (simp add: bitmap_n_longs_def)
  show ?thesis using vlan_bitmap_add_array_sets [OF l nb] e nb
    by (cases "vlans = []") (auto simp: vlan_bitmap_from_array_def)
qed

section \<open>Property\<close>

text \<open>
  C23. A bitmap is a set of indexes, and every operation keeps or makes an array of the right number of words.
  A new bitmap for \<open>m\<close> bits is empty, or has exactly the first \<open>m\<close> bits set, with no stray bit in its last
  word. Setting or clearing one bit changes exactly that bit; setting a run of bits, word by word where it can,
  sets exactly that run. A scan returns the first member at or after its start, or its end when there is none; the
  loop over the 1-bits visits exactly the members, in ascending order, and ends. Comparing two bitmaps compares the
  sets; and a bitmap made from a list of VLANs holds exactly the valid VLANs of the list, with the null pointer when
  there is none.
\<close>

theorem bitmap_sets:
  assumes "start + n \<le> 64 * length b" and "bitmap_n_longs m \<le> length b" and "bitmap_n_longs m \<le> length c"
    and "i < 64 * length b" and "k \<le> e"
  shows "m \<le> 64 * bitmap_n_longs m \<and> 64 * bitmap_n_longs m < m + 64 \<and>
    length (bitmap_allocate m) = bitmap_n_longs m \<and> (\<forall>j < 64 * bitmap_n_longs m. \<not> bitmap_is_set (bitmap_allocate m) j) \<and>
    length (bitmap_allocate1 m) = bitmap_n_longs m \<and> (\<forall>j < 64 * bitmap_n_longs m. bitmap_is_set (bitmap_allocate1 m) j \<longleftrightarrow> j < m) \<and>
    length (bitmap_set b i v) = length b \<and> (\<forall>j. bitmap_is_set (bitmap_set b i v) j \<longleftrightarrow> (if j = i then v else bitmap_is_set b j)) \<and>
    length (bitmap_set_multiple b start n v) = length b \<and>
    (\<forall>j. bitmap_is_set (bitmap_set_multiple b start n v) j \<longleftrightarrow> (if start \<le> j \<and> j < start + n then v else bitmap_is_set b j)) \<and>
    k \<le> bitmap_scan b k e \<and> bitmap_scan b k e \<le> e \<and> (\<forall>j. k \<le> j \<and> j < bitmap_scan b k e \<longrightarrow> \<not> bitmap_is_set b j) \<and>
    (bitmap_scan b k e < e \<longrightarrow> bitmap_is_set b (bitmap_scan b k e)) \<and>
    BITMAP_FOR_EACH_1 m b = filter (bitmap_is_set b) [0..<m] \<and>
    (bitmap_equal b c m \<longleftrightarrow> (\<forall>i < m. bitmap_is_set b i = bitmap_is_set c i)) \<and>
    (case vlan_bitmap_from_array vlans of
       None \<Rightarrow> \<forall>j < 4096. int j \<notin> set vlans
     | Some d \<Rightarrow> length d = 64 \<and> (\<exists>j < 4096. int j \<in> set vlans) \<and> (\<forall>j < 4096. bitmap_is_set d j \<longleftrightarrow> int j \<in> set vlans))"
proof (intro conjI)
  show "\<forall>j < 64 * bitmap_n_longs m. \<not> bitmap_is_set (bitmap_allocate m) j" using bitmap_allocate_empty by blast
  show "\<forall>j < 64 * bitmap_n_longs m. bitmap_is_set (bitmap_allocate1 m) j \<longleftrightarrow> j < m" using bitmap_allocate1_full by blast
  show "\<forall>j. bitmap_is_set (bitmap_set b i v) j \<longleftrightarrow> (if j = i then v else bitmap_is_set b j)" using is_set_set [OF assms(4)] by blast
  show "length (bitmap_set_multiple b start n v) = length b"
    "\<forall>j. bitmap_is_set (bitmap_set_multiple b start n v) j \<longleftrightarrow> (if start \<le> j \<and> j < start + n then v else bitmap_is_set b j)"
    using bitmap_set_multiple_range [OF assms(1), of v] by (simp_all add: range_set_def)
  show "bitmap_scan b k e \<le> e" "\<forall>j. k \<le> j \<and> j < bitmap_scan b k e \<longrightarrow> \<not> bitmap_is_set b j"
    "bitmap_scan b k e < e \<longrightarrow> bitmap_is_set b (bitmap_scan b k e)"
    using bitmap_scan_first [OF assms(5), of b] by blast+
  show "BITMAP_FOR_EACH_1 m b = filter (bitmap_is_set b) [0..<m]"
    by (simp add: BITMAP_FOR_EACH_1_def for_each_1_from_eq)
qed (rule bitmap_n_longs_bounds length_bitmap_allocate length_bitmap_allocate1 length_bitmap_set bitmap_scan_ge
    bitmap_equal_iff [OF assms(2,3)] vlan_bitmap_from_array_sets)+

theorem bitmap_sets_witness:
  "BITMAP_FOR_EACH_1 3 [5] = [0, 2] \<and> bitmap_is_set (bitmap_set_multiple [1, 4] 60 68 True) 100 \<and>
   bitmap_is_set (bitmap_set [1, 4] 70 True) 70 \<and> \<not> bitmap_is_set (bitmap_allocate1 100) 100"
proof -
  have "BITMAP_FOR_EACH_1 3 [5] = filter (bitmap_is_set [5]) [0..<3]"
    using bitmap_sets [of 0 0 "[5]" 3 "[5]" 0 0 0] by (simp add: bitmap_n_longs_def)
  also have "\<dots> = [0, 2]" by (simp add: upt_rec bitmap_is_set_bit)
  finally have "BITMAP_FOR_EACH_1 3 [5] = [0, 2]" .
  moreover have "bitmap_is_set (bitmap_set_multiple [1, 4] 60 68 True) 100" "bitmap_is_set (bitmap_set [1, 4] 70 True) 70"
    "\<not> bitmap_is_set (bitmap_allocate1 100) 100"
    using bitmap_sets [of 60 68 "[1, 4]" 100 "[1, 5]" 70 0 0 True] by (simp_all add: bitmap_n_longs_def)
  ultimately show ?thesis by blast
qed

end
