(* ===== verification/Mac_Learning.thy ===== *)
theory Mac_Learning
  imports Hmap Hash Bitmap Packets
begin

text \<open>
  \<^verbatim>\<open>lib/mac-learning.c\<close>, and the code of \<^verbatim>\<open>ofproto/ofproto-dpif-xlate.c\<close> that learns from packets. An entry
  lives at an address; the hash map and the list of least recently used entries hold addresses, and
  \<open>entries\<close> is the memory behind them. Where the code allocates an entry, the address that \<^verbatim>\<open>xmalloc\<close>
  returns is an argument, one that is not in use. \<^verbatim>\<open>time_now()\<close> is the argument \<open>now\<close>. The words that the hash
  reads from memory are in the byte order of a little-endian host. The lock, the reference count and
  the log are left out. A failed assertion and a null pointer that is followed are \<open>None\<close>.
\<close>

section \<open>Words in memory\<close>

definition le_u32 :: "u8 list \<Rightarrow> u32" where
  "le_u32 b = ucast (b ! 0) OR push_bit 8 (ucast (b ! 1)) OR push_bit 16 (ucast (b ! 2)) OR push_bit 24 (ucast (b ! 3))"

definition le_u16 :: "u8 list \<Rightarrow> u16" where
  "le_u16 b = ucast (b ! 0) OR push_bit 8 (ucast (b ! 1))"

section \<open>The table\<close>

definition MAC_DEFAULT_MAX :: nat where "MAC_DEFAULT_MAX = 2048"

definition MAC_ENTRY_DEFAULT_IDLE_TIME :: nat where "MAC_ENTRY_DEFAULT_IDLE_TIME = 300"

definition MAC_GRAT_ARP_LOCK_TIME :: int where "MAC_GRAT_ARP_LOCK_TIME = 5"

definition TIME_MIN :: int where "TIME_MIN = - (2 ^ 63)"

record mac_entry =
  e_hash :: u64
  expires :: int
  grat_arp_lock :: int
  mac :: eth_addr
  vlan :: u16
  port :: "nat option"

record mac_learning =
  table :: "nat hmap"
  lrus :: "nat list"
  entries :: "nat \<rightharpoonup> mac_entry"
  secret :: u32
  flood_vlans :: "u64 list option"
  idle_time :: nat
  max_entries :: nat
  need_revalidate :: bool

abbreviation entry :: "mac_learning \<Rightarrow> nat \<Rightarrow> mac_entry" where
  "entry ml e \<equiv> the (entries ml e)"

definition mac_entry_set_grat_arp_lock :: "int \<Rightarrow> mac_entry \<Rightarrow> mac_entry" where
  "mac_entry_set_grat_arp_lock now e = e\<lparr>grat_arp_lock := now + MAC_GRAT_ARP_LOCK_TIME\<rparr>"

definition mac_entry_is_grat_arp_locked :: "int \<Rightarrow> mac_entry \<Rightarrow> bool" where
  "mac_entry_is_grat_arp_locked now e \<longleftrightarrow> now < grat_arp_lock e"

definition mac_entry_age :: "int \<Rightarrow> mac_learning \<Rightarrow> mac_entry \<Rightarrow> int" where
  "mac_entry_age now ml e = int (idle_time ml) - (expires e - now)"

definition mac_table_hash :: "mac_learning \<Rightarrow> eth_addr \<Rightarrow> u16 \<Rightarrow> u32" where
  "mac_table_hash ml m v =
     hash_3words (le_u32 m) (ucast (le_u16 (drop 4 m)) OR push_bit 16 (ucast v)) (secret ml)"

definition mac_entry_lookup :: "mac_learning \<Rightarrow> eth_addr \<Rightarrow> u16 \<Rightarrow> nat option" where
  "mac_entry_lookup ml m v =
     List.find (\<lambda>e. vlan (entry ml e) = v \<and> eth_addr_equals (mac (entry ml e)) m)
       (HMAP_FOR_EACH_WITH_HASH (table ml) (ucast (mac_table_hash ml m v)))"

definition get_lru :: "mac_learning \<Rightarrow> nat option" where
  "get_lru ml = (case lrus ml of [] \<Rightarrow> None | e # _ \<Rightarrow> Some e)"

definition normalize_idle_time :: "nat \<Rightarrow> nat" where
  "normalize_idle_time idle = (if idle < 15 then 15 else if idle > 3600 then 3600 else idle)"

definition mac_learning_create :: "u32 \<Rightarrow> nat \<Rightarrow> mac_learning" where
  "mac_learning_create random idle =
     \<lparr>table = hmap_init, lrus = [], entries = Map.empty, secret = random, flood_vlans = None,
      idle_time = normalize_idle_time idle, max_entries = MAC_DEFAULT_MAX, need_revalidate = False\<rparr>"

definition mac_learning_set_flood_vlans :: "mac_learning \<Rightarrow> u64 list option \<Rightarrow> bool \<times> mac_learning" where
  "mac_learning_set_flood_vlans ml bitmap =
     (if vlan_bitmap_equal (flood_vlans ml) bitmap then (False, ml)
      else (True, ml\<lparr>flood_vlans := vlan_bitmap_clone bitmap\<rparr>))"

definition mac_learning_set_idle_time :: "mac_learning \<Rightarrow> nat \<Rightarrow> mac_learning" where
  "mac_learning_set_idle_time ml idle0 =
     (let idle = normalize_idle_time idle0
      in if idle \<noteq> idle_time ml then
           let delta = int idle - int (idle_time ml)
           in ml\<lparr>entries := foldl (\<lambda>es e. es(e \<mapsto> (the (es e))\<lparr>expires := expires (the (es e)) + delta\<rparr>))
                              (entries ml) (lrus ml),
                 idle_time := idle\<rparr>
         else ml)"

definition mac_learning_set_max_entries :: "mac_learning \<Rightarrow> nat \<Rightarrow> mac_learning" where
  "mac_learning_set_max_entries ml n =
     ml\<lparr>max_entries := (if n < 10 then 10 else if n > 1000 * 1000 then 1000 * 1000 else n)\<rparr>"

definition is_learning_vlan :: "mac_learning \<Rightarrow> u16 \<Rightarrow> bool" where
  "is_learning_vlan ml v \<longleftrightarrow> (case flood_vlans ml of None \<Rightarrow> True | Some b \<Rightarrow> \<not> bitmap_is_set b (unat v))"

definition mac_learning_may_learn :: "mac_learning option \<Rightarrow> eth_addr \<Rightarrow> u16 \<Rightarrow> bool" where
  "mac_learning_may_learn mlp src v \<longleftrightarrow>
     (case mlp of None \<Rightarrow> False | Some ml \<Rightarrow> is_learning_vlan ml v \<and> \<not> eth_addr_is_multicast src)"

definition mac_learning_expire :: "mac_learning \<Rightarrow> nat \<Rightarrow> mac_learning" where
  "mac_learning_expire ml e =
     ml\<lparr>table := hmap_remove (table ml) (e_hash (entry ml e), e),
        lrus := remove1 e (lrus ml),
        entries := (entries ml)(e := None)\<rparr>"

text \<open>Making room for an entry that is not in the table yet, and putting it there at address \<open>new\<close>.\<close>

definition insert_new :: "mac_learning \<Rightarrow> nat \<Rightarrow> eth_addr \<Rightarrow> u16 \<Rightarrow> mac_learning option" where
  "insert_new ml new src v =
     (let hash = ucast (mac_table_hash ml src v)
      in case (if hmap_count (table ml) \<ge> max_entries ml
               then map_option (mac_learning_expire ml) (get_lru ml) else Some ml) of
           None \<Rightarrow> None
         | Some ml1 \<Rightarrow>
             Some (ml1\<lparr>table := hmap_insert (table ml1) new hash,
                       entries := (entries ml1)(new \<mapsto>
                         \<lparr>e_hash = hash, expires = 0, grat_arp_lock = TIME_MIN, mac = src, vlan = v, port = None\<rparr>)\<rparr>))"

definition mac_learning_insert ::
    "int \<Rightarrow> mac_learning \<Rightarrow> nat \<Rightarrow> eth_addr \<Rightarrow> u16 \<Rightarrow> (nat \<times> mac_learning) option" where
  "mac_learning_insert now ml new src v =
     (case (case mac_entry_lookup ml src v of
              None \<Rightarrow> map_option (Pair new) (insert_new ml new src v)
            | Some e \<Rightarrow> Some (e, ml\<lparr>lrus := remove1 e (lrus ml)\<rparr>)) of
        None \<Rightarrow> None
      | Some (e, ml1) \<Rightarrow>
          Some (e, ml1\<lparr>lrus := lrus ml1 @ [e],
                       entries := (entries ml1)(e \<mapsto> (entry ml1 e)\<lparr>expires := now + int (idle_time ml1)\<rparr>)\<rparr>))"

definition mac_learning_changed :: "mac_learning \<Rightarrow> mac_learning" where
  "mac_learning_changed ml = ml\<lparr>need_revalidate := True\<rparr>"

text \<open>The outer \<open>None\<close> is the failed assertion that an entry that was found has a port.\<close>

definition mac_learning_lookup :: "mac_learning \<Rightarrow> eth_addr \<Rightarrow> u16 \<Rightarrow> nat option option" where
  "mac_learning_lookup ml dst v =
     (if eth_addr_is_multicast dst then Some None
      else if \<not> is_learning_vlan ml v then Some None
      else
        let e = mac_entry_lookup ml dst v
        in case e of None \<Rightarrow> Some None | Some a \<Rightarrow> if port (entry ml a) \<noteq> None then Some e else None)"

function flush_loop :: "mac_learning \<Rightarrow> mac_learning" where
  "flush_loop ml =
     (case get_lru ml of
        None \<Rightarrow> ml
      | Some e \<Rightarrow> flush_loop (mac_learning_expire (ml\<lparr>need_revalidate := True\<rparr>) e))"
  by pat_completeness auto
termination
  by (relation "measure (\<lambda>ml. length (lrus ml))") (auto simp: get_lru_def mac_learning_expire_def split: list.splits)

declare flush_loop.simps [simp del]

definition mac_learning_flush :: "mac_learning \<Rightarrow> mac_learning" where
  "mac_learning_flush ml = (let ml1 = flush_loop ml in ml1\<lparr>table := hmap_shrink (table ml1)\<rparr>)"

function run_loop :: "int \<Rightarrow> mac_learning \<Rightarrow> mac_learning" where
  "run_loop now ml =
     (case get_lru ml of
        None \<Rightarrow> ml
      | Some e \<Rightarrow>
          if hmap_count (table ml) > max_entries ml \<or> now \<ge> expires (entry ml e)
          then run_loop now (mac_learning_expire (ml\<lparr>need_revalidate := True\<rparr>) e)
          else ml)"
  by pat_completeness auto
termination
  by (relation "measure (\<lambda>(now, ml). length (lrus ml))") (auto simp: get_lru_def mac_learning_expire_def split: list.splits)

declare run_loop.simps [simp del]

definition mac_learning_run :: "int \<Rightarrow> mac_learning \<Rightarrow> bool \<times> mac_learning" where
  "mac_learning_run now ml =
     (let ml1 = run_loop now ml in (need_revalidate ml1, ml1\<lparr>need_revalidate := False\<rparr>))"

text \<open>What \<^verbatim>\<open>mac_learning_wait\<close> arms the poll loop with.\<close>

definition mac_learning_wait :: "mac_learning \<Rightarrow> wakeup" where
  "mac_learning_wait ml =
     (if hmap_count (table ml) > max_entries ml \<or> need_revalidate ml then Immediate_wake
      else case lrus ml of [] \<Rightarrow> No_wakeup | e # _ \<Rightarrow> Timer_wait_until (expires (entry ml e) * 1000))"

section \<open>Learning from packets\<close>

text \<open>The fields of \<^verbatim>\<open>struct flow\<close> that are read here; \<^verbatim>\<open>struct flow_wildcards\<close> holds masks for the same fields.\<close>

record learn_flow =
  dl_src :: eth_addr
  dl_dst :: eth_addr
  dl_type :: u16
  nw_proto :: u8
  nw_src :: u32
  nw_dst :: u32

record xbundle =
  is_ofpp_none :: bool
  bond :: bool
  ofbundle :: "nat option"

definition is_gratuitous_arp :: "learn_flow \<Rightarrow> learn_flow \<Rightarrow> bool \<times> learn_flow" where
  "is_gratuitous_arp flow wc =
     (if dl_type flow \<noteq> 0x0806 then (False, wc)
      else
        let wc1 = wc\<lparr>dl_dst := replicate 6 0xff\<rparr> in
        if \<not> eth_addr_is_broadcast (dl_dst flow) then (False, wc1)
        else
          let wc2 = wc1\<lparr>nw_proto := 0xff\<rparr> in
          if nw_proto flow = 2 then (True, wc2)
          else if nw_proto flow = 1
          then (nw_src flow = nw_dst flow, wc2\<lparr>nw_src := 0xffffffff, nw_dst := 0xffffffff\<rparr>)
          else (False, wc2))"

definition is_mac_learning_update_needed ::
    "int \<Rightarrow> mac_learning \<Rightarrow> learn_flow \<Rightarrow> learn_flow \<Rightarrow> u16 \<Rightarrow> xbundle \<Rightarrow> (bool \<times> learn_flow) option" where
  "is_mac_learning_update_needed now ml flow wc v in_xbundle =
     (if \<not> mac_learning_may_learn (Some ml) (dl_src flow) v then Some (False, wc)
      else case mac_learning_lookup ml (dl_src flow) v of
        None \<Rightarrow> None
      | Some None \<Rightarrow> Some (True, wc)
      | Some (Some e) \<Rightarrow>
          if mac_entry_age now ml (entry ml e) \<noteq> 0 then Some (True, wc)
          else
            let (arp, wc1) = is_gratuitous_arp flow wc in
            if arp \<and> \<not> bond in_xbundle then Some (True, wc1)
            else if arp \<and> mac_entry_is_grat_arp_locked now (entry ml e) then Some (False, wc1)
            else Some (port (entry ml e) \<noteq> ofbundle in_xbundle, wc1))"

definition update_learning_table_locked ::
    "int \<Rightarrow> mac_learning \<Rightarrow> nat \<Rightarrow> learn_flow \<Rightarrow> learn_flow \<Rightarrow> u16 \<Rightarrow> xbundle \<Rightarrow> (mac_learning \<times> learn_flow) option" where
  "update_learning_table_locked now ml new flow wc v in_xbundle =
     (if \<not> mac_learning_may_learn (Some ml) (dl_src flow) v then Some (ml, wc)
      else case mac_learning_insert now ml new (dl_src flow) v of
        None \<Rightarrow> None
      | Some (e, ml1) \<Rightarrow>
          let (arp, wc1) = is_gratuitous_arp flow wc;
              ml2 = (if arp \<and> \<not> bond in_xbundle
                     then ml1\<lparr>entries := (entries ml1)(e \<mapsto> mac_entry_set_grat_arp_lock now (entry ml1 e))\<rparr> else ml1)
          in if arp \<and> bond in_xbundle \<and> mac_entry_is_grat_arp_locked now (entry ml2 e) then Some (ml2, wc1)
             else if port (entry ml2 e) \<noteq> ofbundle in_xbundle
             then Some (mac_learning_changed
                    (ml2\<lparr>entries := (entries ml2)(e \<mapsto> (entry ml2 e)\<lparr>port := ofbundle in_xbundle\<rparr>)\<rparr>), wc1)
             else Some (ml2, wc1))"

definition update_learning_table ::
    "int \<Rightarrow> mac_learning \<Rightarrow> nat \<Rightarrow> learn_flow \<Rightarrow> learn_flow \<Rightarrow> u16 \<Rightarrow> xbundle \<Rightarrow> (mac_learning \<times> learn_flow) option" where
  "update_learning_table now ml new flow wc v in_xbundle =
     (if is_ofpp_none in_xbundle then Some (ml, wc)
      else case is_mac_learning_update_needed now ml flow wc v in_xbundle of
        None \<Rightarrow> None
      | Some (need_update, wc1) \<Rightarrow>
          if need_update then update_learning_table_locked now ml new flow wc1 v in_xbundle else Some (ml, wc1))"

section \<open>Well-formed tables\<close>

definition entry_key :: "mac_learning \<Rightarrow> nat \<Rightarrow> eth_addr \<times> u16" where
  "entry_key ml e = (mac (entry ml e), vlan (entry ml e))"

definition key_hash :: "mac_learning \<Rightarrow> eth_addr \<times> u16 \<Rightarrow> u64" where
  "key_hash ml = (\<lambda>(m, v). ucast (mac_table_hash ml m v))"

definition ml_wf :: "mac_learning \<Rightarrow> bool" where
  "ml_wf ml \<longleftrightarrow> hmap_wf (table ml) \<and> distinct (lrus ml) \<and> dom (entries ml) = set (lrus ml) \<and>
     hmap_node_set (table ml) = (\<lambda>e. (key_hash ml (entry_key ml e), e)) ` set (lrus ml) \<and>
     (\<forall>e \<in> set (lrus ml). e_hash (entry ml e) = key_hash ml (entry_key ml e)) \<and>
     inj_on (entry_key ml) (set (lrus ml))"

interpretation mac_search: keyed_hash_bag hmap_wf hmap_node_set hmap_init hmap_insert hmap_remove
  HMAP_FOR_EACH_WITH_HASH HMAP_FOR_EACH_IN_BUCKET hmap_count "entry_key ml" "key_hash ml" for ml
  by unfold_locales

lemma ml_wfD:
  assumes "ml_wf ml"
  shows "hmap_wf (table ml)" and "distinct (lrus ml)" and "dom (entries ml) = set (lrus ml)"
    and "hmap_node_set (table ml) = (\<lambda>e. (key_hash ml (entry_key ml e), e)) ` set (lrus ml)"
    and "\<And>e. e \<in> set (lrus ml) \<Longrightarrow> e_hash (entry ml e) = key_hash ml (entry_key ml e)"
    and "inj_on (entry_key ml) (set (lrus ml))"
  using assms by (simp_all add: ml_wf_def)

lemma snd_nodes: "ml_wf ml \<Longrightarrow> snd ` hmap_node_set (table ml) = set (lrus ml)"
  by (simp add: ml_wfD(4) image_image)

lemma mac_entry_lookup_iff:
  assumes "ml_wf ml"
  shows "mac_entry_lookup ml m v = Some e \<longleftrightarrow> e \<in> set (lrus ml) \<and> entry_key ml e = (m, v)"
proof -
  have k: "\<forall>(k, e) \<in> hmap_node_set (table ml). k = key_hash ml (entry_key ml e)"
    unfolding ml_wfD(4) [OF assms] by blast
  have i: "inj_on (entry_key ml) (snd ` hmap_node_set (table ml))"
    unfolding snd_nodes [OF assms] by (rule ml_wfD(6) [OF assms])
  have "mac_entry_lookup ml m v =
    List.find (\<lambda>x. entry_key ml x = (m, v)) (HMAP_FOR_EACH_WITH_HASH (table ml) (key_hash ml (m, v)))"
    by (simp add: mac_entry_lookup_def eth_addr_equals_def entry_key_def key_hash_def conj_commute)
  then show ?thesis using mac_search.find_with_hash [OF ml_wfD(1) [OF assms] k i, of "(m, v)" e]
    unfolding snd_nodes [OF assms] by simp
qed

lemma mac_entry_lookup_None:
  assumes "ml_wf ml"
  shows "mac_entry_lookup ml m v = None \<longleftrightarrow> (\<forall>e \<in> set (lrus ml). entry_key ml e \<noteq> (m, v))"
  using mac_entry_lookup_iff [OF assms] by (metis not_None_eq)

lemma hmap_count_lrus:
  assumes "ml_wf ml"
  shows "hmap_count (table ml) = length (lrus ml)"
proof -
  have "hmap_count (table ml) = card (hmap_node_set (table ml))"
    by (rule hmap_bag.count_nodes [OF ml_wfD(1) [OF assms]])
  also have "\<dots> = card (snd ` hmap_node_set (table ml))"
    by (rule card_image [OF hmap_bag.one_node [OF ml_wfD(1) [OF assms]], symmetric])
  also have "\<dots> = length (lrus ml)" unfolding snd_nodes [OF assms] by (rule distinct_card [OF ml_wfD(2) [OF assms]])
  finally show ?thesis .
qed

lemma expire_sel [simp]:
  "lrus (mac_learning_expire ml e) = remove1 e (lrus ml)" "entries (mac_learning_expire ml e) = (entries ml)(e := None)"
  "secret (mac_learning_expire ml e) = secret ml" "idle_time (mac_learning_expire ml e) = idle_time ml"
  "max_entries (mac_learning_expire ml e) = max_entries ml" "flood_vlans (mac_learning_expire ml e) = flood_vlans ml"
  "need_revalidate (mac_learning_expire ml e) = need_revalidate ml"
  by (simp_all add: mac_learning_expire_def)

lemma key_hash_secret: "secret ml' = secret ml \<Longrightarrow> key_hash ml' = key_hash ml"
  by (auto simp: key_hash_def mac_table_hash_def)

lemma entry_key_entries: "entries ml' e = entries ml e \<Longrightarrow> entry_key ml' e = entry_key ml e"
  by (simp add: entry_key_def)

lemma expire_wf:
  assumes "ml_wf ml" and "e \<in> set (lrus ml)"
  shows "ml_wf (mac_learning_expire ml e)"
proof -
  let ?ml = "mac_learning_expire ml e" and ?p = "(e_hash (entry ml e), e)"
  note wf = ml_wfD [OF assms(1)]
  have p: "?p \<in> hmap_node_set (table ml)" unfolding wf(4) wf(5) [OF assms(2)] using assms(2) by (rule imageI)
  have t: "table ?ml = hmap_remove (table ml) ?p" by (simp add: mac_learning_expire_def)
  have s: "set (lrus ?ml) = set (lrus ml) - {e}" using wf(2) by simp
  have k: "key_hash ?ml = key_hash ml" by (rule key_hash_secret) simp
  have ek: "entry_key ?ml x = entry_key ml x" "e_hash (entry ?ml x) = e_hash (entry ml x)" if "x \<in> set (lrus ml) - {e}" for x
    using that by (simp_all add: entry_key_def)
  have "hmap_node_set (table ?ml) = hmap_node_set (table ml) - {?p}"
    unfolding t by (rule hmap_bag.nodes_removed [OF wf(1) p])
  also have "\<dots> = (\<lambda>x. (key_hash ml (entry_key ml x), x)) ` (set (lrus ml) - {e})"
    using wf(5) [OF assms(2)] by (auto simp: wf(4))
  also have "\<dots> = (\<lambda>x. (key_hash ml (entry_key ?ml x), x)) ` (set (lrus ml) - {e})"
    by (rule image_cong) (simp_all only: ek)
  finally have n: "hmap_node_set (table ?ml) = (\<lambda>x. (key_hash ml (entry_key ?ml x), x)) ` (set (lrus ml) - {e})" .
  have i: "inj_on (entry_key ?ml) (set (lrus ml) - {e})"
    using inj_on_subset [OF wf(6) Diff_subset] by (rule inj_on_cong [THEN iffD1, rotated]) (simp only: ek)
  have d: "dom (entries ?ml) = set (lrus ml) - {e}" using wf(3) by simp
  have h: "\<forall>x \<in> set (lrus ml) - {e}. e_hash (entry ?ml x) = key_hash ml (entry_key ?ml x)"
  proof
    fix x assume x: "x \<in> set (lrus ml) - {e}"
    then show "e_hash (entry ?ml x) = key_hash ml (entry_key ?ml x)" unfolding ek [OF x] by (intro wf(5)) simp
  qed
  have "hmap_wf (table ?ml)" unfolding t by (rule hmap_bag.invar_remove [OF wf(1) p])
  moreover have "distinct (lrus ?ml)" using wf(2) by simp
  ultimately show ?thesis unfolding ml_wf_def s k using n i d h by (intro conjI)
qed

text \<open>Changes of an entry that keep its key, and of the order of the list.\<close>

lemma same_keys_wf:
  assumes "ml_wf ml" and "table ml' = table ml" and "secret ml' = secret ml" and "mset (lrus ml') = mset (lrus ml)"
    and "dom (entries ml') = dom (entries ml)"
    and "\<And>e. e \<in> set (lrus ml) \<Longrightarrow> entry_key ml' e = entry_key ml e \<and> e_hash (entry ml' e) = e_hash (entry ml e)"
  shows "ml_wf ml'"
proof -
  note wf = ml_wfD [OF assms(1)]
  have s: "set (lrus ml') = set (lrus ml)" by (rule mset_eq_setD [OF assms(4)])
  have d: "distinct (lrus ml')" using wf(2) by (simp add: distinct_count_atmost_1 assms(4) s)
  have k: "key_hash ml' = key_hash ml" by (rule key_hash_secret [OF assms(3)])
  have n: "hmap_node_set (table ml) = (\<lambda>e. (key_hash ml (entry_key ml' e), e)) ` set (lrus ml)"
    unfolding wf(4) by (rule image_cong) (simp_all add: assms(6))
  have i: "inj_on (entry_key ml') (set (lrus ml))"
    using wf(6) by (rule inj_on_cong [THEN iffD1, rotated]) (simp add: assms(6))
  have h: "\<forall>e \<in> set (lrus ml). e_hash (entry ml' e) = key_hash ml (entry_key ml' e)"
    using wf(5) assms(6) by simp
  show ?thesis unfolding ml_wf_def assms(2,5) s k using wf(1,3) d n h i by (intro conjI)
qed

lemma add_wf:
  assumes "ml_wf ml" and "a \<notin> set (lrus ml)" and "\<And>e. e \<in> set (lrus ml) \<Longrightarrow> entry_key ml e \<noteq> (mac E, vlan E)"
    and "e_hash E = key_hash ml (mac E, vlan E)" and "table ml' = hmap_insert (table ml) a (e_hash E)"
    and "lrus ml' = lrus ml @ [a]" and "entries ml' = (entries ml)(a \<mapsto> E)" and "secret ml' = secret ml"
  shows "ml_wf ml'"
proof -
  note wf = ml_wfD [OF assms(1)]
  have k: "key_hash ml' = key_hash ml" by (rule key_hash_secret [OF assms(8)])
  have new: "entry_key ml' a = (mac E, vlan E)" "entry ml' a = E" by (simp_all add: entry_key_def assms(7))
  have old: "entry_key ml' e = entry_key ml e" "entry ml' e = entry ml e" if "e \<in> set (lrus ml)" for e
    using that assms(2) by (auto simp: entry_key_def assms(7))
  have a: "a \<notin> snd ` hmap_node_set (table ml)" unfolding snd_nodes [OF assms(1)] by (rule assms(2))
  have "hmap_node_set (table ml') = insert (e_hash E, a) (hmap_node_set (table ml))"
    unfolding assms(5) by (rule hmap_bag.nodes_insert [OF wf(1) a])
  also have "\<dots> = insert (key_hash ml (entry_key ml' a), a) ((\<lambda>e. (key_hash ml (entry_key ml' e), e)) ` set (lrus ml))"
    unfolding wf(4) assms(4) new(1) by (intro arg_cong [of _ _ "insert _"] image_cong refl) (simp add: old)
  finally have n: "hmap_node_set (table ml') = (\<lambda>e. (key_hash ml (entry_key ml' e), e)) ` set (lrus ml')"
    by (simp add: assms(6))
  have "inj_on (entry_key ml') (set (lrus ml))"
    using wf(6) by (rule inj_on_cong [THEN iffD1, rotated]) (simp add: old)
  moreover have "entry_key ml' e \<noteq> entry_key ml' a" if "e \<in> set (lrus ml)" for e
    unfolding old(1) [OF that] new(1) by (rule assms(3) [OF that])
  ultimately have i: "inj_on (entry_key ml') (set (lrus ml'))"
    by (auto simp: assms(6) dest: sym)
  have h: "\<forall>e \<in> set (lrus ml'). e_hash (entry ml' e) = key_hash ml (entry_key ml' e)"
    using wf(5) assms(4) by (simp add: assms(6) new old)
  have "hmap_wf (table ml')" unfolding assms(5) by (rule hmap_bag.invar_insert [OF wf(1) a])
  moreover have "distinct (lrus ml')" "dom (entries ml') = set (lrus ml')" using wf(2,3) assms(2) by (simp_all add: assms(6,7))
  ultimately show ?thesis unfolding ml_wf_def k using n h i by (intro conjI)
qed

text \<open>The table with room for one more entry.\<close>

definition make_room :: "mac_learning \<Rightarrow> mac_learning" where
  "make_room ml = (if length (lrus ml) \<ge> max_entries ml then mac_learning_expire ml (hd (lrus ml)) else ml)"

lemma make_room_wf:
  assumes "ml_wf ml" and "0 < max_entries ml"
  shows "ml_wf (make_room ml)"
    and "lrus (make_room ml) = (if length (lrus ml) \<ge> max_entries ml then tl (lrus ml) else lrus ml)"
    and "\<And>e. e \<in> set (lrus (make_room ml)) \<Longrightarrow> entries (make_room ml) e = entries ml e"
proof -
  have ne: "lrus ml \<noteq> []" if "length (lrus ml) \<ge> max_entries ml" using that assms(2) by auto
  then show "ml_wf (make_room ml)" using assms expire_wf [of ml "hd (lrus ml)"] by (simp add: make_room_def)
  show l: "lrus (make_room ml) = (if length (lrus ml) \<ge> max_entries ml then tl (lrus ml) else lrus ml)"
    using ne by (auto simp: make_room_def neq_Nil_conv)
  fix e assume "e \<in> set (lrus (make_room ml))"
  then have "\<not> length (lrus ml) \<ge> max_entries ml \<or> e \<noteq> hd (lrus ml)"
    using ne ml_wfD(2) [OF assms(1)] by (auto simp: l neq_Nil_conv)
  then show "entries (make_room ml) e = entries ml e" by (auto simp: make_room_def)
qed

lemma insert_new_eq:
  assumes "ml_wf ml" and "0 < max_entries ml"
  shows "insert_new ml new src v =
    (let hash = ucast (mac_table_hash ml src v); ml1 = make_room ml
     in Some (ml1\<lparr>table := hmap_insert (table ml1) new hash,
         entries := (entries ml1)(new \<mapsto>
           \<lparr>e_hash = hash, expires = 0, grat_arp_lock = TIME_MIN, mac = src, vlan = v, port = None\<rparr>)\<rparr>))"
proof (cases "length (lrus ml) \<ge> max_entries ml")
  case True
  then obtain x xs where "lrus ml = x # xs" using assms(2) by (cases "lrus ml") auto
  then show ?thesis using True
    by (simp add: insert_new_def hmap_count_lrus [OF assms(1)] make_room_def get_lru_def Let_def)
qed (simp add: insert_new_def hmap_count_lrus [OF assms(1)] make_room_def Let_def)

section \<open>The invariant\<close>

abbreviation older :: "mac_learning \<Rightarrow> nat \<Rightarrow> nat \<Rightarrow> bool" where
  "older ml x y \<equiv> expires (entry ml x) \<le> expires (entry ml y)"

definition ml_inv :: "int \<Rightarrow> mac_learning \<Rightarrow> bool" where
  "ml_inv now ml \<longleftrightarrow> ml_wf ml \<and> sorted_wrt (older ml) (lrus ml) \<and>
     (\<forall>e \<in> set (lrus ml). expires (entry ml e) \<le> now + int (idle_time ml)) \<and>
     15 \<le> idle_time ml \<and> idle_time ml \<le> 3600 \<and> 10 \<le> max_entries ml \<and> max_entries ml \<le> 1000 * 1000"

definition ports_known :: "mac_learning \<Rightarrow> bool" where
  "ports_known ml \<longleftrightarrow> (\<forall>e \<in> set (lrus ml). port (entry ml e) \<noteq> None)"

lemma ml_invD:
  assumes "ml_inv now ml"
  shows "ml_wf ml" and "sorted_wrt (older ml) (lrus ml)" and "\<And>e. e \<in> set (lrus ml) \<Longrightarrow> expires (entry ml e) \<le> now + int (idle_time ml)"
    and "0 < max_entries ml" and "15 \<le> idle_time ml"
  using assms by (simp_all add: ml_inv_def)

lemma older_cong:
  "(\<And>x. x \<in> set xs \<Longrightarrow> expires (entry ml' x) = expires (entry ml x)) \<Longrightarrow>
     sorted_wrt (older ml') xs \<longleftrightarrow> sorted_wrt (older ml) xs"
  by (intro iffI; erule sorted_wrt_mono_rel [rotated]) simp_all

text \<open>The list without some entries, with an entry that was just used at its end.\<close>

lemma older_touch:
  assumes "ml_inv now ml" and "sorted_wrt (older ml) xs" and "set xs \<subseteq> set (lrus ml)"
    and "\<And>x. x \<in> set xs \<Longrightarrow> entries ml' x = entries ml x" and "expires (entry ml' e) = now + int (idle_time ml)"
  shows "sorted_wrt (older ml') (xs @ [e])" and "\<forall>x \<in> set (xs @ [e]). expires (entry ml' x) \<le> now + int (idle_time ml)"
proof -
  have "expires (entry ml' x) \<le> now + int (idle_time ml)" if "x \<in> set xs" for x
    using ml_invD(3) [OF assms(1), of x] assms(3,4) that by auto
  then show "sorted_wrt (older ml') (xs @ [e])" "\<forall>x \<in> set (xs @ [e]). expires (entry ml' x) \<le> now + int (idle_time ml)"
    using older_cong [of xs ml' ml] assms(2,4,5) by (auto simp: sorted_wrt_append)
qed

lemma insert_existing:
  assumes "ml_inv now ml" and "mac_entry_lookup ml src v = Some e"
  defines "ml' \<equiv> ml\<lparr>lrus := remove1 e (lrus ml) @ [e],
    entries := (entries ml)(e \<mapsto> (entry ml e)\<lparr>expires := now + int (idle_time ml)\<rparr>)\<rparr>"
  shows "mac_learning_insert now ml new src v = Some (e, ml')" and "ml_inv now ml'"
proof -
  have e: "e \<in> set (lrus ml)" "entry_key ml e = (src, v)" using mac_entry_lookup_iff [OF ml_invD(1) [OF assms(1)]] assms(2) by simp_all
  show "mac_learning_insert now ml new src v = Some (e, ml')"
    by (simp add: mac_learning_insert_def assms(2) ml'_def)
  have "e \<in> dom (entries ml)" using e(1) ml_wfD(3) [OF ml_invD(1) [OF assms(1)]] by simp
  then have wf: "ml_wf ml'" using e(1)
    by (intro same_keys_wf [OF ml_invD(1) [OF assms(1)]]) (auto simp: ml'_def entry_key_def)
  have "sorted_wrt (older ml) (remove1 e (lrus ml))" using ml_invD(2) [OF assms(1)] by (rule sorted_wrt_remove1)
  note t = older_touch [OF assms(1) this set_remove1_subset, of ml' e]
  have "x \<noteq> e" if "x \<in> set (remove1 e (lrus ml))" for x using that ml_wfD(2) [OF ml_invD(1) [OF assms(1)]] by auto
  then show "ml_inv now ml'" using wf t assms(1) by (simp add: ml_inv_def ml'_def)
qed

lemma insert_fresh:
  assumes "ml_inv now ml" and "mac_entry_lookup ml src v = None" and "new \<notin> set (lrus ml)"
  defines "ml1 \<equiv> make_room ml" and "hash \<equiv> ucast (mac_table_hash ml src v)"
  defines "ml' \<equiv> ml1\<lparr>table := hmap_insert (table ml1) new hash, lrus := lrus ml1 @ [new],
    entries := (entries ml1)(new \<mapsto> \<lparr>e_hash = hash, expires = now + int (idle_time ml), grat_arp_lock = TIME_MIN,
      mac = src, vlan = v, port = None\<rparr>)\<rparr>"
  shows "mac_learning_insert now ml new src v = Some (new, ml')" and "ml_inv now ml'"
proof -
  note wf = ml_invD(1) [OF assms(1)]
  note room = make_room_wf [OF wf ml_invD(4) [OF assms(1)], folded ml1_def]
  have same: "idle_time ml1 = idle_time ml" "max_entries ml1 = max_entries ml" "secret ml1 = secret ml"
    by (simp_all add: ml1_def make_room_def)
  show "mac_learning_insert now ml new src v = Some (new, ml')"
    by (simp add: mac_learning_insert_def assms(2) insert_new_eq [OF wf ml_invD(4) [OF assms(1)]] Let_def
        ml'_def hash_def same flip: ml1_def)
  have sub: "set (lrus ml1) \<subseteq> set (lrus ml)" unfolding room(2) by (cases "lrus ml") auto
  have nk: "entry_key ml1 e \<noteq> (src, v)" if "e \<in> set (lrus ml1)" for e
    using mac_entry_lookup_None [OF wf] assms(2) sub that entry_key_entries [OF room(3)] by force
  have "ml_wf ml'"
    by (rule add_wf [OF room(1), where a = new and E = "\<lparr>e_hash = hash, expires = now + int (idle_time ml),
          grat_arp_lock = TIME_MIN, mac = src, vlan = v, port = None\<rparr>"])
      (use assms(3) sub nk in \<open>auto simp: ml'_def hash_def key_hash_def mac_table_hash_def same\<close>)
  moreover have "sorted_wrt (older ml) (lrus ml1)"
    using ml_invD(2) [OF assms(1)] unfolding room(2) by (cases "lrus ml") simp_all
  note t = older_touch [OF assms(1) this sub, of ml' new]
  have "x \<noteq> new" if "x \<in> set (lrus ml1)" for x using that sub assms(3) by auto
  then have "sorted_wrt (older ml') (lrus ml')" "\<forall>x \<in> set (lrus ml'). expires (entry ml' x) \<le> now + int (idle_time ml)"
    using t room(3) by (simp_all add: ml'_def)
  moreover have "idle_time ml' = idle_time ml" "max_entries ml' = max_entries ml" by (simp_all add: ml'_def same)
  ultimately show "ml_inv now ml'" using assms(1) by (simp add: ml_inv_def)
qed

text \<open>Changes of an entry that keep its key and its age.\<close>

lemma set_entry_inv:
  assumes "ml_inv now ml" and "e \<in> set (lrus ml)" and "mac E = mac (entry ml e)" and "vlan E = vlan (entry ml e)"
    and "e_hash E = e_hash (entry ml e)" and "expires E = expires (entry ml e)"
  shows "ml_inv now (ml\<lparr>entries := (entries ml)(e \<mapsto> E)\<rparr>)"
proof -
  let ?ml = "ml\<lparr>entries := (entries ml)(e \<mapsto> E)\<rparr>"
  have "e \<in> dom (entries ml)" using assms(2) ml_wfD(3) [OF ml_invD(1) [OF assms(1)]] by simp
  then have "ml_wf ?ml" using assms(3-5)
    by (intro same_keys_wf [OF ml_invD(1) [OF assms(1)]]) (auto simp: entry_key_def)
  moreover have x: "expires (entry ?ml x) = expires (entry ml x)" for x using assms(6) by simp
  ultimately show ?thesis using assms(1) older_cong [of "lrus ml" ?ml ml] by (simp add: ml_inv_def x)
qed

lemma revalidate_inv [simp]: "ml_inv now (ml\<lparr>need_revalidate := b\<rparr>) = ml_inv now ml"
proof -
  have "key_hash (ml\<lparr>need_revalidate := b\<rparr>) = key_hash ml" by (rule key_hash_secret) simp
  moreover have "entry_key (ml\<lparr>need_revalidate := b\<rparr>) = entry_key ml" by (rule ext) (simp add: entry_key_def)
  ultimately show ?thesis by (simp add: ml_inv_def ml_wf_def)
qed

lemma expire_inv:
  assumes "ml_inv now ml" and "e \<in> set (lrus ml)"
  shows "ml_inv now (mac_learning_expire ml e)"
proof -
  let ?ml = "mac_learning_expire ml e"
  have x: "x \<noteq> e" if "x \<in> set (remove1 e (lrus ml))" for x
    using that ml_wfD(2) [OF ml_invD(1) [OF assms(1)]] by auto
  have "sorted_wrt (older ml) (remove1 e (lrus ml))" using ml_invD(2) [OF assms(1)] by (rule sorted_wrt_remove1)
  then have "sorted_wrt (older ?ml) (lrus ?ml)" using x older_cong [of "remove1 e (lrus ml)" ?ml ml] by simp
  moreover have "\<forall>y \<in> set (lrus ?ml). expires (entry ?ml y) \<le> now + int (idle_time ml)"
    using x ml_invD(3) [OF assms(1)] set_remove1_subset [of e "lrus ml"] by auto
  ultimately show ?thesis using expire_wf [OF ml_invD(1) [OF assms(1)] assms(2)] assms(1) by (simp add: ml_inv_def)
qed

lemma expire_ports: "ports_known ml \<Longrightarrow> ml_inv now ml \<Longrightarrow> e \<in> set (lrus ml) \<Longrightarrow> ports_known (mac_learning_expire ml e)"
  using ml_wfD(2) [OF ml_invD(1), of now ml] by (auto simp: ports_known_def)

lemma flush_loop_inv:
  "ml_inv now ml \<Longrightarrow> ml_inv now (flush_loop ml) \<and> lrus (flush_loop ml) = [] \<and>
    (need_revalidate (flush_loop ml) \<longleftrightarrow> need_revalidate ml \<or> lrus ml \<noteq> [])"
proof (induction ml rule: flush_loop.induct)
  case (1 ml)
  show ?case
  proof (cases "lrus ml")
    case Nil
    then have "flush_loop ml = ml" by (subst flush_loop.simps) (simp add: get_lru_def)
    then show ?thesis using "1.prems" Nil by simp
  next
    case (Cons e es)
    let ?ml = "mac_learning_expire (ml\<lparr>need_revalidate := True\<rparr>) e"
    have l: "get_lru ml = Some e" by (simp add: get_lru_def Cons)
    have "ml_inv now ?ml" using expire_inv [of now "ml\<lparr>need_revalidate := True\<rparr>" e] "1.prems" Cons by simp
    note IH = "1.IH" [OF l this]
    have "flush_loop ml = flush_loop ?ml" by (subst flush_loop.simps) (simp add: l)
    then show ?thesis using IH Cons by simp
  qed
qed

lemma flush_inv:
  assumes "ml_inv now ml"
  shows "ml_inv now (mac_learning_flush ml)" and "lrus (mac_learning_flush ml) = []"
    and "need_revalidate (mac_learning_flush ml) \<longleftrightarrow> need_revalidate ml \<or> lrus ml \<noteq> []"
proof -
  let ?ml = "flush_loop ml"
  have f: "ml_inv now ?ml" "lrus ?ml = []" "need_revalidate ?ml \<longleftrightarrow> need_revalidate ml \<or> lrus ml \<noteq> []"
    using flush_loop_inv [OF assms] by simp_all
  note wf = ml_wfD [OF ml_invD(1) [OF f(1)]]
  show "lrus (mac_learning_flush ml) = []" "need_revalidate (mac_learning_flush ml) \<longleftrightarrow> need_revalidate ml \<or> lrus ml \<noteq> []"
    using f by (simp_all add: mac_learning_flush_def Let_def)
  note shrink = hmap_shrink_correct [OF wf(1)]
  have "hmap_node_set (table ?ml) = {}" unfolding wf(4) f(2) by simp
  then have e: "hmap_node_set (hmap_shrink (table ?ml)) = {}"
    using mset_eq_setD [OF conjunct2 [OF shrink]] by (simp add: hmap_node_set_def)
  have "dom (entries ?ml) = {}" unfolding wf(3) f(2) by simp
  then have "ml_wf (?ml\<lparr>table := hmap_shrink (table ?ml)\<rparr>)"
    using conjunct1 [OF shrink] e by (simp add: ml_wf_def f(2))
  then show "ml_inv now (mac_learning_flush ml)" using f(1,2) by (simp add: ml_inv_def mac_learning_flush_def Let_def)
qed

lemma run_loop_result:
  "ml_inv now ml \<Longrightarrow> ml_inv now (run_loop now ml) \<and>
    lrus (run_loop now ml) = dropWhile (\<lambda>e. expires (entry ml e) \<le> now) (drop (length (lrus ml) - max_entries ml) (lrus ml)) \<and>
    (\<forall>e \<in> set (lrus (run_loop now ml)). entries (run_loop now ml) e = entries ml e) \<and>
    (need_revalidate (run_loop now ml) \<longleftrightarrow> need_revalidate ml \<or> lrus (run_loop now ml) \<noteq> lrus ml) \<and>
    max_entries (run_loop now ml) = max_entries ml"
proof (induction now ml rule: run_loop.induct)
  case (1 now ml)
  show ?case
  proof (cases "\<exists>e es. lrus ml = e # es \<and> (length (lrus ml) > max_entries ml \<or> expires (entry ml e) \<le> now)")
    case False
    have c: "hmap_count (table ml) = length (lrus ml)" by (rule hmap_count_lrus [OF ml_invD(1) [OF "1.prems"]])
    have "run_loop now ml = ml" using False
      by (subst run_loop.simps) (auto simp: get_lru_def c split: list.split)
    then show ?thesis using "1.prems" False by (cases "lrus ml") auto
  next
    case True
    then obtain e es where l: "lrus ml = e # es" and c: "length (lrus ml) > max_entries ml \<or> expires (entry ml e) \<le> now"
      by blast
    let ?ml = "mac_learning_expire (ml\<lparr>need_revalidate := True\<rparr>) e"
    have g: "get_lru ml = Some e" by (simp add: get_lru_def l)
    have d: "distinct (e # es)" using ml_wfD(2) [OF ml_invD(1) [OF "1.prems"]] by (simp add: l)
    have inv: "ml_inv now ?ml" using expire_inv [of now "ml\<lparr>need_revalidate := True\<rparr>" e] "1.prems" l by simp
    have h: "hmap_count (table ml) > max_entries ml \<or> now \<ge> expires (entry ml e)"
      using c by (simp add: hmap_count_lrus [OF ml_invD(1) [OF "1.prems"]])
    note IH = "1.IH" [OF g h inv]
    have eq: "run_loop now ml = run_loop now ?ml" using h by (subst run_loop.simps) (simp add: g)
    have same: "entry ?ml x = entry ml x" "entries ?ml x = entries ml x" if "x \<in> set es" for x using that d by auto
    have "dropWhile (\<lambda>x. expires (entry ?ml x) \<le> now) (drop n es) = dropWhile (\<lambda>x. expires (entry ml x) \<le> now) (drop n es)" for n
      using d by (intro dropWhile_cong) (auto dest: in_set_dropD)
    then have "lrus (run_loop now ?ml) = dropWhile (\<lambda>x. expires (entry ml x) \<le> now) (drop (length es - max_entries ml) es)"
      using IH by (simp add: l)
    moreover have "dropWhile (\<lambda>x. expires (entry ml x) \<le> now) (drop (length es - max_entries ml) es) =
      dropWhile (\<lambda>x. expires (entry ml x) \<le> now) (drop (length (lrus ml) - max_entries ml) (lrus ml))"
      using c by (cases "length (lrus ml) > max_entries ml") (auto simp: l Suc_diff_le)
    moreover have "set (lrus (run_loop now ?ml)) \<subseteq> set es"
      unfolding calculation(1) by (meson in_set_dropD set_dropWhileD subsetI)
    moreover have "lrus (run_loop now ?ml) \<noteq> lrus ml"
    proof -
      have "length (lrus (run_loop now ?ml)) \<le> length es"
        unfolding calculation(1) by (rule le_trans [OF length_dropWhile_le]) simp
      then show ?thesis by (auto simp: l)
    qed
    ultimately show ?thesis using IH d by (auto simp: eq same subset_iff)
  qed
qed

lemma ml_run_inv:
  assumes "ml_inv now ml"
  shows "ml_inv now (snd (mac_learning_run now ml))" and "ports_known ml \<Longrightarrow> ports_known (snd (mac_learning_run now ml))"
proof -
  note r = run_loop_result [OF assms]
  show "ml_inv now (snd (mac_learning_run now ml))" using r by (simp add: mac_learning_run_def Let_def)
  have "set (lrus (run_loop now ml)) \<subseteq> set (lrus ml)" using r by (metis in_set_dropD set_dropWhileD subsetI)
  then show "ports_known (snd (mac_learning_run now ml))" if "ports_known ml"
    using that r by (auto simp: mac_learning_run_def Let_def ports_known_def)
qed

lemma foldl_shift:
  assumes "distinct xs"
  shows "foldl (\<lambda>es e. es(e \<mapsto> (the (es e))\<lparr>expires := expires (the (es e)) + d\<rparr>)) es xs =
    (\<lambda>e. if e \<in> set xs then Some ((the (es e))\<lparr>expires := expires (the (es e)) + d\<rparr>) else es e)"
  using assms
proof (induction xs arbitrary: es)
  case (Cons x xs)
  then show ?case by (auto simp: fun_eq_iff)
qed simp

lemma set_idle_time_inv:
  assumes "ml_inv now ml"
  shows "ml_inv now (mac_learning_set_idle_time ml idle)" and "ports_known ml \<Longrightarrow> ports_known (mac_learning_set_idle_time ml idle)"
proof -
  let ?ml = "mac_learning_set_idle_time ml idle" and ?i = "normalize_idle_time idle"
  note wf = ml_invD(1) [OF assms]
  have i: "15 \<le> ?i" "?i \<le> 3600" by (simp_all add: normalize_idle_time_def)
  have e: "entries ?ml x = Some ((entry ml x)\<lparr>expires := expires (entry ml x) + (int ?i - int (idle_time ml))\<rparr>)"
    if "x \<in> set (lrus ml)" "?i \<noteq> idle_time ml" for x
    using that by (simp add: mac_learning_set_idle_time_def Let_def foldl_shift [OF ml_wfD(2) [OF wf]])
  have "ml_inv now ?ml \<and> (ports_known ml \<longrightarrow> ports_known ?ml)"
  proof (cases "?i = idle_time ml")
    case True
    then show ?thesis using assms by (simp add: mac_learning_set_idle_time_def)
  next
    case False
    have sel: "table ?ml = table ml" "lrus ?ml = lrus ml" "secret ?ml = secret ml" "idle_time ?ml = ?i" "max_entries ?ml = max_entries ml"
      using False by (simp_all add: mac_learning_set_idle_time_def Let_def)
    have "dom (entries ?ml) = dom (entries ml)"
      using False ml_wfD(3) [OF wf]
      by (auto simp: mac_learning_set_idle_time_def Let_def foldl_shift [OF ml_wfD(2) [OF wf]] split: if_splits)
    then have "ml_wf ?ml" using e False
      by (intro same_keys_wf [OF wf]) (simp_all add: sel entry_key_def)
    moreover have "sorted_wrt (older ?ml) (lrus ml)"
      using ml_invD(2) [OF assms] e False by (auto elim!: sorted_wrt_mono_rel [rotated])
    moreover have "\<forall>x \<in> set (lrus ml). expires (entry ?ml x) \<le> now + int ?i"
    proof
      fix x assume x: "x \<in> set (lrus ml)"
      then show "expires (entry ?ml x) \<le> now + int ?i" using ml_invD(3) [OF assms x] by (simp add: e [OF x False])
    qed
    ultimately show ?thesis using assms i e False by (auto simp: ml_inv_def sel ports_known_def)
  qed
  then show "ml_inv now ?ml" "ports_known ml \<Longrightarrow> ports_known ?ml" by simp_all
qed

section \<open>The table as a map\<close>

text \<open>The port that is known for an address in a VLAN; the inner \<open>None\<close> is a null pointer.\<close>

definition learned :: "mac_learning \<Rightarrow> eth_addr \<times> u16 \<rightharpoonup> nat option" where
  "learned ml = (\<lambda>(m, v). map_option (\<lambda>e. port (entry ml e)) (mac_entry_lookup ml m v))"

lemma learned_iff:
  assumes "ml_wf ml"
  shows "learned ml k = Some p \<longleftrightarrow> (\<exists>e \<in> set (lrus ml). entry_key ml e = k \<and> port (entry ml e) = p)"
proof -
  obtain m v where k: "k = (m, v)" by fastforce
  show ?thesis using mac_entry_lookup_iff [OF assms, of m v] by (auto simp: learned_def k)
qed

text \<open>\<open>ml'\<close> has the entry \<open>e\<close> for the key \<open>k\<close> and the entries of \<open>ml\<close> for other keys.\<close>

definition adds_entry :: "mac_learning \<Rightarrow> nat \<Rightarrow> eth_addr \<times> u16 \<Rightarrow> mac_learning \<Rightarrow> bool" where
  "adds_entry ml e k ml' \<longleftrightarrow> ml_wf ml \<and> ml_wf ml' \<and> e \<in> set (lrus ml') \<and> entry_key ml' e = k \<and>
     {x \<in> set (lrus ml). entry_key ml x \<noteq> k} = set (lrus ml') - {e} \<and>
     (\<forall>x \<in> set (lrus ml') - {e}. entries ml' x = entries ml x)"

lemma learned_update:
  assumes "adds_entry ml e k ml'"
  shows "learned ml' = (learned ml)(k \<mapsto> port (entry ml' e))"
proof
  fix j
  note a = assms [unfolded adds_entry_def]
  have wf: "ml_wf ml" "ml_wf ml'" and others: "{x \<in> set (lrus ml). entry_key ml x \<noteq> k} = set (lrus ml') - {e}"
    and same: "\<And>x. x \<in> set (lrus ml') - {e} \<Longrightarrow> entries ml' x = entries ml x" using a by simp_all
  show "learned ml' j = ((learned ml)(k \<mapsto> port (entry ml' e))) j"
  proof (cases "j = k")
    case True
    have "learned ml' k = Some (port (entry ml' e))" unfolding learned_iff [OF wf(2)] using a by blast
    then show ?thesis using True by simp
  next
    case False
    have "learned ml' j = Some p \<longleftrightarrow> learned ml j = Some p" for p
    proof -
      have "learned ml' j = Some p \<longleftrightarrow> (\<exists>x \<in> set (lrus ml') - {e}. entry_key ml' x = j \<and> port (entry ml' x) = p)"
        unfolding learned_iff [OF wf(2)] using a False by blast
      also have "\<dots> \<longleftrightarrow> (\<exists>x \<in> set (lrus ml') - {e}. entry_key ml x = j \<and> port (entry ml x) = p)"
        by (intro bex_cong refl) (simp add: same entry_key_def)
      also have "\<dots> \<longleftrightarrow> learned ml j = Some p"
        unfolding learned_iff [OF wf(1)] others [symmetric] using False by blast
      finally show ?thesis .
    qed
    then have "learned ml' j = learned ml j" by (metis not_None_eq)
    then show ?thesis using False by simp
  qed
qed

lemma key_unique: "ml_wf ml \<Longrightarrow> x \<in> set (lrus ml) \<Longrightarrow> y \<in> set (lrus ml) \<Longrightarrow> entry_key ml x = entry_key ml y \<Longrightarrow> x = y"
  using ml_wfD(6) by (rule inj_onD)

text \<open>Insertion, whether or not the address is known.\<close>

lemma insert_result:
  fixes src :: eth_addr and v :: u16
  assumes "ml_inv now ml" and "new \<notin> set (lrus ml)"
  defines "base \<equiv> (if learned ml (src, v) = None then make_room ml else ml)"
  obtains e ml1 where "mac_learning_insert now ml new src v = Some (e, ml1)" and "ml_inv now ml1"
    and "adds_entry base e (src, v) ml1" and "Some (port (entry ml1 e)) = (case learned ml (src, v) of None \<Rightarrow> Some None | p \<Rightarrow> p)"
    and "grat_arp_lock (entry ml1 e) =
      (case mac_entry_lookup ml src v of None \<Rightarrow> TIME_MIN | Some x \<Rightarrow> grat_arp_lock (entry ml x))"
    and "flood_vlans ml1 = flood_vlans ml"
proof (cases "mac_entry_lookup ml src v")
  case (Some e)
  note i = insert_existing [OF assms(1) Some]
  note wf = ml_invD(1) [OF assms(1)]
  have base: "base = ml" by (simp add: base_def learned_def Some)
  have e: "e \<in> set (lrus ml)" "entry_key ml e = (src, v)" using mac_entry_lookup_iff [OF wf] Some by simp_all
  let ?ml = "ml\<lparr>lrus := remove1 e (lrus ml) @ [e],
    entries := (entries ml)(e \<mapsto> (entry ml e)\<lparr>expires := now + int (idle_time ml)\<rparr>)\<rparr>"
  have "x = e" if "x \<in> set (lrus ml)" "entry_key ml x = (src, v)" for x
    by (rule key_unique [OF wf that(1) e(1)]) (simp add: that(2) e(2))
  then have "{x \<in> set (lrus ml). entry_key ml x \<noteq> (src, v)} = set (lrus ml) - {e}" using e(2) by blast
  moreover have "set (lrus ?ml) - {e} = set (lrus ml) - {e}" using ml_wfD(2) [OF wf] by simp
  moreover have "entry_key ?ml e = (src, v)" using e(2) by (simp add: entry_key_def)
  ultimately have "adds_entry base e (src, v) ?ml"
    unfolding adds_entry_def base using wf ml_invD(1) [OF i(2)] by (intro conjI) simp_all
  then show ?thesis by (intro that [OF i]) (simp_all add: Some learned_def)
next
  case None
  note i = insert_fresh [OF assms(1) None assms(2)]
  note wf = ml_invD(1) [OF assms(1)]
  have base: "base = make_room ml" by (simp add: base_def learned_def None)
  note room = make_room_wf [OF wf ml_invD(4) [OF assms(1)], folded base]
  have sub: "set (lrus base) \<subseteq> set (lrus ml)" unfolding room(2) by (cases "lrus ml") auto
  have nk: "entry_key base x \<noteq> (src, v)" if "x \<in> set (lrus base)" for x
    using mac_entry_lookup_None [OF wf] None sub that entry_key_entries [OF room(3)] by force
  have "adds_entry base new (src, v) ml1" if "ml_wf ml1" "lrus ml1 = lrus base @ [new]" "entries ml1 = (entries base)(new \<mapsto> E)"
    "mac E = src" "vlan E = v" for ml1 E
  proof -
    have "new \<notin> set (lrus base)" using sub assms(2) by blast
    then have "set (lrus ml1) - {new} = set (lrus base)" by (simp add: that(2))
    moreover have "{x \<in> set (lrus base). entry_key base x \<noteq> (src, v)} = set (lrus base)" using nk by blast
    ultimately show ?thesis unfolding adds_entry_def using room(1) that \<open>new \<notin> set (lrus base)\<close>
      by (intro conjI) (simp_all add: entry_key_def)
  qed
  note adds = this [OF ml_invD(1) [OF i(2)]]
  show ?thesis
    by (rule that [OF i], rule adds) (simp_all add: base None learned_def make_room_def, simp_all)
qed

text \<open>The known port stays when a gratuitous ARP comes over a bond while the entry is locked.\<close>

definition arp_locked :: "int \<Rightarrow> mac_learning \<Rightarrow> learn_flow \<Rightarrow> u16 \<Rightarrow> xbundle \<Rightarrow> bool" where
  "arp_locked now ml flow v b \<longleftrightarrow> fst (is_gratuitous_arp flow flow) \<and> bond b \<and>
     (case mac_entry_lookup ml (dl_src flow) v of None \<Rightarrow> False | Some e \<Rightarrow> mac_entry_is_grat_arp_locked now (entry ml e))"

lemma is_gratuitous_arp_wc: "fst (is_gratuitous_arp flow wc) = fst (is_gratuitous_arp flow wc')"
  by (simp add: is_gratuitous_arp_def Let_def)

lemma set_lock_port:
  assumes "ml_inv now ml1" and "adds_entry base e k ml1"
  defines "M \<equiv> \<lambda>L q r. ml1\<lparr>entries := (entries ml1)(e \<mapsto> (entry ml1 e)\<lparr>grat_arp_lock := L, port := q\<rparr>), need_revalidate := r\<rparr>"
  shows "ml_inv now (M L q r)" and "learned (M L q r) = (learned base)(k \<mapsto> q)"
    and "M (grat_arp_lock (entry ml1 e)) (port (entry ml1 e)) (need_revalidate ml1) = ml1"
proof -
  let ?E = "(entry ml1 e)\<lparr>grat_arp_lock := L, port := q\<rparr>"
  have e: "e \<in> set (lrus ml1)" "mac (entry ml1 e) = fst k" "vlan (entry ml1 e) = snd k"
    using assms(2) by (auto simp: adds_entry_def entry_key_def)
  show inv: "ml_inv now (M L q r)"
    using set_entry_inv [OF assms(1) e(1), of ?E] revalidate_inv [of now r "ml1\<lparr>entries := (entries ml1)(e \<mapsto> ?E)\<rparr>"]
    by (simp add: M_def)
  have "adds_entry base e k (M L q r)"
    using assms(2) ml_invD(1) [OF inv] e unfolding adds_entry_def by (simp add: M_def entry_key_def)
  from learned_update [OF this] show "learned (M L q r) = (learned base)(k \<mapsto> q)" by (simp add: M_def)
  have "e \<in> dom (entries ml1)" using e(1) ml_wfD(3) [OF ml_invD(1) [OF assms(1)]] by simp
  then have "(entries ml1)(e \<mapsto> entry ml1 e) = entries ml1" by (auto simp: fun_eq_iff)
  then show "M (grat_arp_lock (entry ml1 e)) (port (entry ml1 e)) (need_revalidate ml1) = ml1" by (simp add: M_def)
qed

lemma locked_update:
  fixes flow :: learn_flow and v :: u16
  assumes "ml_inv now ml" and "new \<notin> set (lrus ml)" and "TIME_MIN \<le> now" and "mac_learning_may_learn (Some ml) (dl_src flow) v"
  defines "k \<equiv> (dl_src flow, v)"
  defines "base \<equiv> (if learned ml k = None then make_room ml else ml)"
  shows "\<exists>ml' wc'. update_learning_table_locked now ml new flow wc v b = Some (ml', wc') \<and> ml_inv now ml' \<and>
    learned ml' = (learned base)(k \<mapsto> (if arp_locked now ml flow v b then the (learned ml k) else ofbundle b))"
proof -
  obtain e ml1 where i: "mac_learning_insert now ml new (dl_src flow) v = Some (e, ml1)" "ml_inv now ml1" "adds_entry base e k ml1"
    and p: "Some (port (entry ml1 e)) = (case learned ml k of None \<Rightarrow> Some None | p \<Rightarrow> p)"
    and g: "grat_arp_lock (entry ml1 e) =
      (case mac_entry_lookup ml (dl_src flow) v of None \<Rightarrow> TIME_MIN | Some x \<Rightarrow> grat_arp_lock (entry ml x))"
    unfolding k_def base_def by (rule insert_result [OF assms(1,2)])
  obtain arp wc1 where a: "is_gratuitous_arp flow wc = (arp, wc1)" by fastforce
  have arp: "fst (is_gratuitous_arp flow flow) = arp" using is_gratuitous_arp_wc [of flow flow wc] a by simp
  define lk where "lk = arp_locked now ml flow v b"
  have lk: "lk \<longleftrightarrow> arp \<and> bond b \<and> mac_entry_is_grat_arp_locked now (entry ml1 e)"
    using g assms(3) by (auto simp: lk_def arp_locked_def arp mac_entry_is_grat_arp_locked_def split: option.splits)
  have lp: "the (learned ml k) = port (entry ml1 e)" if lk
    using p that by (auto simp: lk_def arp_locked_def learned_def k_def split: option.splits)
  define L where "L = (if arp \<and> \<not> bond b then now + MAC_GRAT_ARP_LOCK_TIME else grat_arp_lock (entry ml1 e))"
  define M where "M q r = ml1\<lparr>entries := (entries ml1)(e \<mapsto> (entry ml1 e)\<lparr>grat_arp_lock := L, port := q\<rparr>), need_revalidate := r\<rparr>" for q r
  note M = set_lock_port(1,2) [OF i(2,3), where L = L, folded M_def]
  have M1: "M (port (entry ml1 e)) (need_revalidate ml1) = ml1" if "L = grat_arp_lock (entry ml1 e)"
    using set_lock_port(3) [OF i(2,3)] that by (simp add: M_def)
  define ml2 where "ml2 = (if arp \<and> \<not> bond b
    then ml1\<lparr>entries := (entries ml1)(e \<mapsto> mac_entry_set_grat_arp_lock now (entry ml1 e))\<rparr> else ml1)"
  have ml2: "ml2 = M (port (entry ml1 e)) (need_revalidate ml1)"
  proof (cases "arp \<and> \<not> bond b")
    case True
    then show ?thesis by (simp add: ml2_def M_def L_def mac_entry_set_grat_arp_lock_def)
  next
    case False
    then show ?thesis using M1 by (auto simp: ml2_def L_def)
  qed
  have "update_learning_table_locked now ml new flow wc v b =
    (if arp \<and> bond b \<and> mac_entry_is_grat_arp_locked now (entry ml2 e) then Some (ml2, wc1)
     else if port (entry ml2 e) \<noteq> ofbundle b
     then Some (mac_learning_changed (ml2\<lparr>entries := (entries ml2)(e \<mapsto> (entry ml2 e)\<lparr>port := ofbundle b\<rparr>)\<rparr>), wc1)
     else Some (ml2, wc1))"
    using assms(4) by (simp add: update_learning_table_locked_def i(1) a ml2_def)
  also have "arp \<and> bond b \<and> mac_entry_is_grat_arp_locked now (entry ml2 e) \<longleftrightarrow> lk" unfolding lk by (auto simp: ml2_def)
  also have "port (entry ml2 e) = port (entry ml1 e)" by (simp add: ml2 M_def)
  also have "mac_learning_changed (ml2\<lparr>entries := (entries ml2)(e \<mapsto> (entry ml2 e)\<lparr>port := ofbundle b\<rparr>)\<rparr>) = M (ofbundle b) True"
    by (simp add: ml2 M_def mac_learning_changed_def)
  finally show ?thesis using M lp by (auto simp: lk_def [symmetric] ml2)
qed

lemma learned_expire:
  assumes "ml_wf ml" and "e \<in> set (lrus ml)"
  shows "learned (mac_learning_expire ml e) = (learned ml)(entry_key ml e := None)"
proof
  fix k
  let ?ml = "mac_learning_expire ml e"
  have s: "set (lrus ?ml) = set (lrus ml) - {e}" using ml_wfD(2) [OF assms(1)] by simp
  have "learned ?ml k = Some p \<longleftrightarrow> k \<noteq> entry_key ml e \<and> learned ml k = Some p" for p
  proof -
    have "learned ?ml k = Some p \<longleftrightarrow> (\<exists>x \<in> set (lrus ml) - {e}. entry_key ?ml x = k \<and> port (entry ?ml x) = p)"
      unfolding learned_iff [OF expire_wf [OF assms]] s ..
    also have "\<dots> \<longleftrightarrow> (\<exists>x \<in> set (lrus ml) - {e}. entry_key ml x = k \<and> port (entry ml x) = p)"
      by (intro bex_cong refl) (simp add: entry_key_def)
    also have "\<dots> \<longleftrightarrow> k \<noteq> entry_key ml e \<and> learned ml k = Some p"
      unfolding learned_iff [OF assms(1)] using key_unique [OF assms(1) _ assms(2)] by blast
    finally show ?thesis .
  qed
  then have "learned ?ml k = (if k = entry_key ml e then None else learned ml k)" by (metis not_None_eq)
  then show "learned ?ml k = ((learned ml)(entry_key ml e := None)) k" by simp
qed

lemma ports_known_learned: "ml_wf ml \<Longrightarrow> ports_known ml \<longleftrightarrow> (\<forall>k. learned ml k \<noteq> Some None)"
  by (auto simp: ports_known_def learned_iff simp del: split_paired_All)

lemma make_room_ports:
  assumes "ml_inv now ml" and "ports_known ml"
  shows "learned (make_room ml) k \<noteq> Some None"
proof (cases "length (lrus ml) \<ge> max_entries ml")
  case True
  then have "hd (lrus ml) \<in> set (lrus ml)" using ml_invD(4) [OF assms(1)] by (cases "lrus ml") auto
  then show ?thesis using True assms ml_invD(1) [OF assms(1)]
    by (simp add: make_room_def learned_expire ports_known_learned del: split_paired_All)
qed (use assms ml_invD(1) [OF assms(1)] in \<open>simp add: make_room_def ports_known_learned del: split_paired_All\<close>)

lemma lookup_no_abort:
  assumes "ml_inv now ml" and "ports_known ml"
  shows "mac_learning_lookup ml m v \<noteq> None"
    and "mac_learning_lookup ml m v = Some (Some e) \<longleftrightarrow>
      \<not> eth_addr_is_multicast m \<and> is_learning_vlan ml v \<and> e \<in> set (lrus ml) \<and> entry_key ml e = (m, v)"
proof -
  note iff = mac_entry_lookup_iff [OF ml_invD(1) [OF assms(1)], of m v]
  have "port (entry ml x) \<noteq> None" if "mac_entry_lookup ml m v = Some x" for x
    using iff [of x] that assms(2) by (simp add: ports_known_def)
  then show "mac_learning_lookup ml m v \<noteq> None"
    "mac_learning_lookup ml m v = Some (Some e) \<longleftrightarrow>
      \<not> eth_addr_is_multicast m \<and> is_learning_vlan ml v \<and> e \<in> set (lrus ml) \<and> entry_key ml e = (m, v)"
    using iff by (auto simp: mac_learning_lookup_def Let_def split: option.splits)
qed

lemma update_result:
  fixes flow :: learn_flow and v :: u16
  assumes "ml_inv now ml" and "ports_known ml" and "new \<notin> set (lrus ml)" and "TIME_MIN \<le> now"
    and "mac_learning_may_learn (Some ml) (dl_src flow) v" and "\<not> is_ofpp_none b"
  defines "k \<equiv> (dl_src flow, v)"
  defines "base \<equiv> (if learned ml k = None then make_room ml else ml)"
  shows "\<exists>ml' wc'. update_learning_table now ml new flow wc v b = Some (ml', wc') \<and> ml_inv now ml' \<and>
    learned ml' = (learned base)(k \<mapsto> (if arp_locked now ml flow v b then the (learned ml k) else ofbundle b))"
proof -
  let ?q = "if arp_locked now ml flow v b then the (learned ml k) else ofbundle b"
  have ml: "is_learning_vlan ml v" "\<not> eth_addr_is_multicast (dl_src flow)" using assms(5) by (simp_all add: mac_learning_may_learn_def)
  have "is_mac_learning_update_needed now ml flow wc v b \<noteq> None"
    using lookup_no_abort(1) [OF assms(1,2), of "dl_src flow" v]
    by (cases "mac_learning_lookup ml (dl_src flow) v"; cases "the (mac_learning_lookup ml (dl_src flow) v)")
      (auto simp: is_mac_learning_update_needed_def Let_def split: prod.splits)
  then obtain need wc1 where n: "is_mac_learning_update_needed now ml flow wc v b = Some (need, wc1)" by auto
  show ?thesis
  proof (cases need)
    case True
    then have "update_learning_table now ml new flow wc v b = update_learning_table_locked now ml new flow wc1 v b"
      using n assms(6) by (simp add: update_learning_table_def)
    then show ?thesis using locked_update [OF assms(1,3,4,5), of wc1 b] unfolding k_def base_def by simp
  next
    case False
    obtain arp wc2 where a: "is_gratuitous_arp flow wc = (arp, wc2)" by fastforce
    have arp: "fst (is_gratuitous_arp flow flow) = arp" using is_gratuitous_arp_wc [of flow flow wc] a by simp
    obtain e where e: "mac_learning_lookup ml (dl_src flow) v = Some (Some e)"
      and q: "arp \<and> bond b \<and> mac_entry_is_grat_arp_locked now (entry ml e) \<or> port (entry ml e) = ofbundle b"
      using n False assms(5) a by (auto simp: is_mac_learning_update_needed_def split: option.splits if_splits)
    have l: "mac_entry_lookup ml (dl_src flow) v = Some e"
      using e ml by (auto simp: mac_learning_lookup_def Let_def split: option.splits if_splits)
    then have k: "learned ml k = Some (port (entry ml e))" by (simp add: learned_def k_def)
    moreover have "?q = port (entry ml e)" using q k by (auto simp: arp_locked_def l arp)
    ultimately have "learned ml = (learned base)(k \<mapsto> ?q)" unfolding base_def by (simp add: fun_upd_idem)
    moreover have "update_learning_table now ml new flow wc v b = Some (ml, wc1)"
      using n assms(6) False by (simp add: update_learning_table_def)
    ultimately show ?thesis using assms(1) by blast
  qed
qed

lemma map_upd_ports:
  assumes "learned ml' = m(k \<mapsto> q)" and "ml_wf ml'" and "\<And>j. m j \<noteq> Some None" and "q \<noteq> None"
  shows "ports_known ml'"
  unfolding ports_known_learned [OF assms(2)] assms(1) using assms(3,4) by simp

lemma locked_update_inv:
  assumes "ml_inv now ml" and "ports_known ml" and "new \<notin> set (lrus ml)" and "TIME_MIN \<le> now" and "ofbundle b \<noteq> None"
    and "update_learning_table_locked now ml new flow wc v b = Some (ml', wc')"
  shows "ml_inv now ml'" and "ports_known ml'"
proof -
  let ?k = "(dl_src flow, v)"
  let ?base = "if learned ml ?k = None then make_room ml else ml"
  have "ml_inv now ml' \<and> ports_known ml'"
  proof (cases "mac_learning_may_learn (Some ml) (dl_src flow) v")
    case False
    then show ?thesis using assms by (simp add: update_learning_table_locked_def)
  next
    case True
    note u = locked_update [OF assms(1,3,4) True, of wc b]
    have l: "learned ml' = (learned ?base)(?k \<mapsto> (if arp_locked now ml flow v b then the (learned ml ?k) else ofbundle b))"
      and inv: "ml_inv now ml'" using u assms(6) by auto
    have nn: "learned ml j \<noteq> Some None" for j
      using assms(2) ports_known_learned [OF ml_invD(1) [OF assms(1)]] by blast
    then have "learned ?base j \<noteq> Some None" for j using make_room_ports [OF assms(1,2)] by simp
    moreover have "learned ml ?k \<noteq> None" if "arp_locked now ml flow v b"
      using that by (auto simp: arp_locked_def learned_def split: option.splits)
    then have "(if arp_locked now ml flow v b then the (learned ml ?k) else ofbundle b) \<noteq> None"
      using assms(5) nn [of ?k] by auto
    ultimately show ?thesis using map_upd_ports [OF l ml_invD(1) [OF inv]] inv by blast
  qed
  then show "ml_inv now ml'" "ports_known ml'" by simp_all
qed

lemma sorted_dropWhile_filter:
  fixes f :: "'a \<Rightarrow> int"
  shows "sorted_wrt (\<lambda>x y. f x \<le> f y) xs \<Longrightarrow> dropWhile (\<lambda>x. f x \<le> t) xs = filter (\<lambda>x. t < f x) xs"
proof (induction xs)
  case (Cons x xs)
  then show ?case by (cases "f x \<le> t") (auto intro!: filter_True [symmetric])
qed simp

section \<open>Every order of operations\<close>

text \<open>
  The table together with the time. Learning is the step under the write lock; it runs for a port
  that belongs to a bundle, whether or not the check under the read lock was made on the same table.
\<close>

inductive ml_step :: "int \<times> mac_learning \<Rightarrow> int \<times> mac_learning \<Rightarrow> bool" where
  step_time: "t \<le> t' \<Longrightarrow> ml_step (t, ml) (t', ml)"
| step_learn: "new \<notin> set (lrus ml) \<Longrightarrow> ofbundle b \<noteq> None \<Longrightarrow>
    update_learning_table_locked t ml new flow wc v b = Some (ml', wc') \<Longrightarrow> ml_step (t, ml) (t, ml')"
| step_expire: "e \<in> set (lrus ml) \<Longrightarrow> ml_step (t, ml) (t, mac_learning_expire ml e)"
| step_flush: "ml_step (t, ml) (t, mac_learning_flush ml)"
| step_run: "ml_step (t, ml) (t, snd (mac_learning_run t ml))"
| step_changed: "ml_step (t, ml) (t, mac_learning_changed ml)"
| step_flood_vlans: "ml_step (t, ml) (t, snd (mac_learning_set_flood_vlans ml bitmap))"
| step_idle_time: "ml_step (t, ml) (t, mac_learning_set_idle_time ml idle)"
| step_max_entries: "ml_step (t, ml) (t, mac_learning_set_max_entries ml n)"

definition ml_state_ok :: "int \<times> mac_learning \<Rightarrow> bool" where
  "ml_state_ok = (\<lambda>(t, ml). TIME_MIN \<le> t \<and> ml_inv t ml \<and> ports_known ml)"

lemma config_inv:
  assumes "table ml' = table ml" and "lrus ml' = lrus ml" and "entries ml' = entries ml" and "secret ml' = secret ml"
    and "idle_time ml' = idle_time ml" and "10 \<le> max_entries ml'" and "max_entries ml' \<le> 1000 * 1000" and "ml_inv t ml"
  shows "ml_inv t ml'" and "ports_known ml' = ports_known ml"
proof -
  have "ml_wf ml'" by (rule same_keys_wf [OF ml_invD(1) [OF assms(8)]]) (simp_all add: assms entry_key_def)
  then show "ml_inv t ml'" using assms(6-8) by (simp add: ml_inv_def assms(2,3,5))
  show "ports_known ml' = ports_known ml" by (simp add: ports_known_def assms(2,3))
qed

lemma ml_step_ok:
  assumes "ml_step s s'" and "ml_state_ok s"
  shows "ml_state_ok s'"
  using assms
proof cases
  case (step_time t t' ml)
  then show ?thesis using assms(2) by (auto simp: ml_state_ok_def ml_inv_def)
next
  case (step_learn new ml b t flow wc v ml' wc')
  then show ?thesis using assms(2) locked_update_inv [of t ml new b flow wc v ml' wc'] by (simp add: ml_state_ok_def)
next
  case (step_expire e ml t)
  then show ?thesis using assms(2) by (auto simp: ml_state_ok_def expire_inv expire_ports)
next
  case (step_flush t ml)
  then show ?thesis using assms(2) flush_inv [of t ml] by (simp add: ml_state_ok_def ports_known_def)
next
  case (step_run t ml)
  then show ?thesis using assms(2) by (simp add: ml_state_ok_def ml_run_inv)
next
  case (step_changed t ml)
  then show ?thesis using assms(2) by (simp add: ml_state_ok_def mac_learning_changed_def ports_known_def)
next
  case (step_flood_vlans t ml bitmap)
  let ?ml = "snd (mac_learning_set_flood_vlans ml bitmap)"
  have "ml_inv t ?ml \<and> ports_known ?ml = ports_known ml"
    using step_flood_vlans assms(2) config_inv [of ?ml ml t]
    by (simp add: ml_state_ok_def ml_inv_def mac_learning_set_flood_vlans_def)
  then show ?thesis using step_flood_vlans assms(2) by (simp add: ml_state_ok_def)
next
  case (step_idle_time t ml idle)
  then show ?thesis using assms(2) set_idle_time_inv [of t ml idle] by (simp add: ml_state_ok_def)
next
  case (step_max_entries t ml n)
  then show ?thesis using assms(2) config_inv [of "mac_learning_set_max_entries ml n" ml t]
    by (simp add: ml_state_ok_def mac_learning_set_max_entries_def)
qed

lemma create_ok: "TIME_MIN \<le> t \<Longrightarrow> ml_state_ok (t, mac_learning_create random idle)"
  by (simp add: ml_state_ok_def ml_inv_def ml_wf_def ports_known_def mac_learning_create_def hmap_bag.invar_empty
      hmap_bag.nodes_empty normalize_idle_time_def MAC_DEFAULT_MAX_def)

interpretation ml_system: transition_system
  "\<lambda>(t, ml). TIME_MIN \<le> t \<and> (\<exists>random idle. ml = mac_learning_create random idle)" ml_step ml_state_ok
proof
  fix s :: "int \<times> mac_learning"
  assume "case s of (t, ml) \<Rightarrow> TIME_MIN \<le> t \<and> (\<exists>random idle. ml = mac_learning_create random idle)"
  then show "ml_state_ok s" by (auto intro: create_ok)
qed (rule ml_step_ok)

lemma insert_limit:
  assumes "ml_inv now ml" and "new \<notin> set (lrus ml)" and "mac_learning_insert now ml new src v = Some (e, ml1)"
  shows "hmap_count (table ml1) \<le> max (hmap_count (table ml)) (max_entries ml)"
proof -
  note wf = ml_invD(1) [OF assms(1)]
  have inv: "ml_inv now ml1" using insert_result [OF assms(1,2), of src v] assms(3) by (metis option.inject prod.inject)
  have "length (lrus ml1) \<le> max (length (lrus ml)) (max_entries ml)"
  proof (cases "mac_entry_lookup ml src v")
    case None
    have "lrus ml1 = lrus (make_room ml) @ [new]" using insert_fresh(1) [OF assms(1) None assms(2)] assms(3) by auto
    then show ?thesis using make_room_wf(2) [OF wf ml_invD(4) [OF assms(1)]] ml_invD(4) [OF assms(1)] by (auto split: if_splits)
  next
    case (Some x)
    then have "x \<in> set (lrus ml)" using mac_entry_lookup_iff [OF wf] by simp
    moreover have "lrus ml1 = remove1 x (lrus ml) @ [x]" using insert_existing(1) [OF assms(1) Some, of new] assms(3) by auto
    ultimately have "length (lrus ml1) = length (lrus ml)"
      by (simp add: length_remove1) (metis Suc_pred length_pos_if_in_set)
    then show ?thesis by simp
  qed
  then show ?thesis using hmap_count_lrus [OF wf] hmap_count_lrus [OF ml_invD(1) [OF inv]] by simp
qed

section \<open>Properties\<close>

text \<open>
  C8. Whatever the order in which packets are learned from, entries expire, the table is flushed and
  its parameters change: the hash table and the list of least recently used entries hold the same
  entries, no two of them for the same address and VLAN; the assertion of \<^verbatim>\<open>mac_learning_lookup\<close> that an entry
  has a port never fails, and learning never follows a null pointer. Learning does not take the table above its
  limit; when the limit was lowered below the number of entries, learning does not add to their number.
\<close>

theorem mac_table_safe:
  assumes "TIME_MIN \<le> t0" and "ml_step\<^sup>*\<^sup>* (t0, mac_learning_create random idle) (t, ml)" and "new \<notin> set (lrus ml)"
  shows "mset (HMAP_FOR_EACH (table ml)) = mset (lrus ml) \<and> hmap_count (table ml) = length (lrus ml) \<and>
    distinct (map (\<lambda>e. (mac (entry ml e), vlan (entry ml e))) (lrus ml)) \<and>
    mac_learning_lookup ml m v \<noteq> None \<and> mac_learning_insert t ml new m v \<noteq> None \<and>
    (\<forall>e ml'. mac_learning_insert t ml new m v = Some (e, ml') \<longrightarrow>
       hmap_count (table ml') \<le> max (hmap_count (table ml)) (max_entries ml)) \<and>
    update_learning_table t ml new flow wc v b \<noteq> None"
proof -
  have ok: "TIME_MIN \<le> t" "ml_inv t ml" "ports_known ml"
    using ml_system.inv_reachable [OF _ assms(2)] assms(1) by (auto simp: ml_state_ok_def)
  note wf = ml_wfD [OF ml_invD(1) [OF ok(2)]]
  have h: "HMAP_FOR_EACH (table ml) = map snd (hmap_nodes (table ml))" by (rule HMAP_FOR_EACH_eq [OF wf(1)])
  then have "distinct (HMAP_FOR_EACH (table ml))" "set (HMAP_FOR_EACH (table ml)) = set (lrus ml)"
    using wf(1) snd_nodes [OF ml_invD(1) [OF ok(2)]] by (simp_all add: hmap_wf_def hmap_node_set_def)
  then have 1: "mset (HMAP_FOR_EACH (table ml)) = mset (lrus ml)" using wf(2) by (simp add: set_eq_iff_mset_eq_distinct)
  have 2: "distinct (map (\<lambda>e. (mac (entry ml e), vlan (entry ml e))) (lrus ml))"
    using wf(2,6) by (simp add: distinct_map entry_key_def inj_on_def)
  have 3: "mac_learning_insert t ml new m v \<noteq> None" by (rule insert_result [OF ok(2) assms(3), of m v]) simp
  have "update_learning_table t ml new flow wc v b \<noteq> None"
  proof (cases "mac_learning_may_learn (Some ml) (dl_src flow) v \<and> \<not> is_ofpp_none b")
    case True
    then show ?thesis using update_result [OF ok(2,3) assms(3) ok(1), of flow v b wc] by auto
  next
    case False
    then show ?thesis by (auto simp: update_learning_table_def is_mac_learning_update_needed_def)
  qed
  then show ?thesis using 1 2 3 hmap_count_lrus [OF ml_invD(1) [OF ok(2)]] lookup_no_abort(1) [OF ok(2,3)]
      insert_limit [OF ok(2) assms(3)] by blast
qed

theorem mac_table_safe_witness:
  "mac_learning_lookup (snd (mac_learning_run 7 (mac_learning_create 5 300))) [0, 1, 2, 3, 4, 5] 1 \<noteq> None"
proof -
  have "ml_step\<^sup>*\<^sup>* (7, mac_learning_create 5 300) (7, snd (mac_learning_run 7 (mac_learning_create 5 300)))"
    by (rule r_into_rtranclp) (rule step_run)
  moreover have "lrus (run_loop 7 (mac_learning_create 5 300)) = []"
    by (subst run_loop.simps) (simp add: get_lru_def mac_learning_create_def)
  then have "0 \<notin> set (lrus (snd (mac_learning_run 7 (mac_learning_create 5 300))))" by (simp add: mac_learning_run_def Let_def)
  ultimately show ?thesis using mac_table_safe [of 7 5 300 7] by (simp add: TIME_MIN_def)
qed

text \<open>
  C13. The table implements a map from addresses in VLANs to ports. Learning from a packet
  binds its source address in its VLAN to the port the packet came from, except that a gratuitous ARP over a bond
  leaves an entry alone while it is locked; when the address is new and the table is full, exactly the
  least recently used address is forgotten, and nothing else changes.
\<close>

theorem mac_learning_map:
  assumes "ml_state_ok (t, ml)" and "new \<notin> set (lrus ml)" and "mac_learning_may_learn (Some ml) (dl_src flow) v"
    and "\<not> is_ofpp_none b"
  shows "\<exists>ml' wc'. update_learning_table t ml new flow wc v b = Some (ml', wc') \<and>
    learned ml' =
      (if learned ml (dl_src flow, v) = None \<and> max_entries ml \<le> length (lrus ml)
       then (learned ml)(entry_key ml (hd (lrus ml)) := None) else learned ml)
      ((dl_src flow, v) \<mapsto> if arp_locked t ml flow v b then the (learned ml (dl_src flow, v)) else ofbundle b)"
proof -
  let ?k = "(dl_src flow, v)"
  have ok: "TIME_MIN \<le> t" "ml_inv t ml" "ports_known ml" using assms(1) by (simp_all add: ml_state_ok_def)
  have "learned (if learned ml ?k = None then make_room ml else ml) =
    (if learned ml ?k = None \<and> max_entries ml \<le> length (lrus ml)
     then (learned ml)(entry_key ml (hd (lrus ml)) := None) else learned ml)"
  proof (cases "max_entries ml \<le> length (lrus ml)")
    case True
    then have "hd (lrus ml) \<in> set (lrus ml)" using ml_invD(4) [OF ok(2)] by (cases "lrus ml") auto
    then show ?thesis using True by (simp add: make_room_def learned_expire [OF ml_invD(1) [OF ok(2)]])
  qed (simp add: make_room_def)
  then show ?thesis using update_result [OF ok(2,3) assms(2) ok(1) assms(3,4), of wc] by (auto simp: fun_upd_idem)
qed

theorem mac_learning_map_witness:
  "let flow = \<lparr>dl_src = [2, 0, 0, 0, 0, 7], dl_dst = [2, 0, 0, 0, 0, 9], dl_type = 0x0800, nw_proto = 6, nw_src = 1, nw_dst = 2\<rparr>;
       b = \<lparr>is_ofpp_none = False, bond = False, ofbundle = Some 3\<rparr>
   in \<exists>ml' wc'. update_learning_table 100 (mac_learning_create 5 300) 0 flow flow 1 b = Some (ml', wc') \<and>
        learned ml' ([2, 0, 0, 0, 0, 7], 1) = Some (Some 3)"
proof -
  let ?flow = "\<lparr>dl_src = [2, 0, 0, 0, 0, 7], dl_dst = [2, 0, 0, 0, 0, 9], dl_type = 0x0800, nw_proto = 6, nw_src = 1, nw_dst = 2\<rparr>"
  let ?b = "\<lparr>is_ofpp_none = False, bond = False, ofbundle = Some 3\<rparr>"
  let ?ml = "mac_learning_create 5 300"
  have "ml_state_ok (100, ?ml)" by (rule create_ok) (simp add: TIME_MIN_def)
  moreover have "mac_learning_may_learn (Some ?ml) (dl_src ?flow) 1"
    by (simp add: mac_learning_may_learn_def is_learning_vlan_def mac_learning_create_def eth_addr_is_multicast_def)
  moreover have "0 \<notin> set (lrus ?ml)" by (simp add: mac_learning_create_def)
  moreover have "\<not> arp_locked 100 ?ml ?flow 1 ?b" by (simp add: arp_locked_def)
  ultimately obtain ml' wc' where u: "update_learning_table 100 ?ml 0 ?flow ?flow 1 ?b = Some (ml', wc')"
    and "learned ml' = (if learned ?ml (dl_src ?flow, 1) = None \<and> max_entries ?ml \<le> length (lrus ?ml)
      then (learned ?ml)(entry_key ?ml (hd (lrus ?ml)) := None) else learned ?ml)((dl_src ?flow, 1) \<mapsto> ofbundle ?b)"
    using mac_learning_map [of 100 ?ml 0 ?flow 1 ?b ?flow] by auto
  then have "learned ml' ([2, 0, 0, 0, 0, 7], 1) = Some (Some 3)" by simp
  with u show ?thesis unfolding Let_def by blast
qed

text \<open>
  C25. The periodic run of the table ends and keeps exactly the most recently used entries, at most as
  many as are allowed, that have not expired, each one unchanged; it asks for revalidation exactly when an
  entry was removed or a change was pending. As long as no further packet is learned from, the table
  is next to be run no later than when the next entry expires.
\<close>

theorem mac_ageing:
  assumes "ml_state_ok (t, ml)" and "mac_learning_run t ml = (changed, ml')"
  shows "lrus ml' = filter (\<lambda>e. t < expires (entry ml e)) (drop (length (lrus ml) - max_entries ml) (lrus ml)) \<and>
    (\<forall>e \<in> set (lrus ml'). entries ml' e = entries ml e) \<and> hmap_count (table ml') \<le> max_entries ml' \<and>
    (changed \<longleftrightarrow> need_revalidate ml \<or> lrus ml' \<noteq> lrus ml) \<and> \<not> need_revalidate ml' \<and>
    (case mac_learning_wait ml' of Immediate_wake \<Rightarrow> False | No_wakeup \<Rightarrow> lrus ml' = []
     | Timer_wait_until w \<Rightarrow> t * 1000 < w \<and> (\<forall>e \<in> set (lrus ml'). w \<le> expires (entry ml' e) * 1000))"
proof -
  let ?l = "run_loop t ml" and ?xs = "drop (length (lrus ml) - max_entries ml) (lrus ml)"
  have ok: "ml_inv t ml" using assms(1) by (simp add: ml_state_ok_def)
  note r = run_loop_result [OF ok]
  have ml': "changed = need_revalidate ?l" "ml' = ?l\<lparr>need_revalidate := False\<rparr>"
    using assms(2) by (auto simp: mac_learning_run_def Let_def)
  have inv: "ml_inv t ml'" using r by (simp add: ml'(2))
  have "sorted_wrt (older ml) ?xs" using ml_invD(2) [OF ok] by (rule sorted_wrt_drop)
  then have f: "dropWhile (\<lambda>e. expires (entry ml e) \<le> t) ?xs = filter (\<lambda>e. t < expires (entry ml e)) ?xs"
    by (rule sorted_dropWhile_filter)
  have l: "lrus ml' = filter (\<lambda>e. t < expires (entry ml e)) ?xs" using r by (simp add: ml'(2) f)
  have same: "\<forall>e \<in> set (lrus ml'). entries ml' e = entries ml e" using r by (simp add: ml'(2))
  have "length (lrus ml') \<le> length ?xs" unfolding l by (rule length_filter_le)
  then have c: "hmap_count (table ml') \<le> max_entries ml'" "length (lrus ml') \<le> max_entries ml'"
    using hmap_count_lrus [OF ml_invD(1) [OF inv]] r by (simp_all add: ml'(2))
  have "\<forall>e \<in> set (lrus ml'). t < expires (entry ml' e)" using same l by auto
  then have w: "case mac_learning_wait ml' of Immediate_wake \<Rightarrow> False | No_wakeup \<Rightarrow> lrus ml' = []
     | Timer_wait_until w \<Rightarrow> t * 1000 < w \<and> (\<forall>e \<in> set (lrus ml'). w \<le> expires (entry ml' e) * 1000)"
    using ml_invD(2) [OF inv] c(1) ml'(2) by (cases "lrus ml'") (auto simp: mac_learning_wait_def)
  show ?thesis using l same c w r ml' by simp
qed

definition example_flow :: learn_flow where
  "example_flow = \<lparr>dl_src = [2, 0, 0, 0, 0, 7], dl_dst = [2, 0, 0, 0, 0, 9], dl_type = 0x0800, nw_proto = 6, nw_src = 1, nw_dst = 2\<rparr>"

definition example_table :: "mac_learning" where
  "example_table = fst (the (update_learning_table_locked 100 (mac_learning_create 5 300) 0 example_flow example_flow 1
     \<lparr>is_ofpp_none = False, bond = False, ofbundle = Some 3\<rparr>))"

lemma example_table_entry: "lrus example_table = [0] \<and> expires (entry example_table 0) = 400 \<and> max_entries example_table = 2048"
  by code_simp

lemma example_table_ok: "100 \<le> t \<Longrightarrow> ml_state_ok (t, example_table)"
proof -
  assume t: "100 \<le> t"
  let ?b = "\<lparr>is_ofpp_none = False, bond = False, ofbundle = Some 3\<rparr>"
  let ?u = "update_learning_table_locked 100 (mac_learning_create 5 300) 0 example_flow example_flow 1 ?b"
  have "\<not> Option.is_none ?u" by code_simp
  then obtain wc where u: "?u = Some (example_table, wc)" by (auto simp: example_table_def Option.is_none_def)
  have "ml_step (100, mac_learning_create 5 300) (100, example_table)"
    by (rule step_learn [OF _ _ u]) (simp_all add: mac_learning_create_def)
  moreover have "ml_state_ok (100, mac_learning_create 5 300)" by (rule create_ok) (simp add: TIME_MIN_def)
  ultimately have "ml_state_ok (100, example_table)" by (rule ml_step_ok)
  then show ?thesis by (rule ml_step_ok [OF step_time [OF t]])
qed

theorem mac_ageing_witness:
  "lrus (snd (mac_learning_run 399 example_table)) = [0] \<and> lrus (snd (mac_learning_run 400 example_table)) = [] \<and>
   fst (mac_learning_run 400 example_table)"
proof -
  note r = mac_ageing [OF example_table_ok prod.collapse [symmetric]]
  show ?thesis using r [of 399] r [of 400] example_table_entry by auto
qed

end
