(* ===== verification/Ofproto_Stp.thy ===== *)
theory Ofproto_Stp
  imports Stp_Props Mac_Learning
begin

text \<open>
  The part of \<^verbatim>\<open>ofproto/ofproto-dpif.c\<close> that ties the spanning tree protocol of a bridge to its ports
  and to its MAC learning table. A port of the bridge (\<^verbatim>\<open>struct ofport_dpif\<close>) and a bundle live at addresses;
  the client data of an STP port is the address of the port of the bridge. \<open>port_order\<close> is the order in which
  \<^verbatim>\<open>HMAP_FOR_EACH\<close> visits the ports, \<open>port_status_msgs\<close> collects what \<^verbatim>\<open>connmgr_send_port_status\<close>
  is called with. Following the address of a port that does not exist is \<open>None\<close>.
\<close>

section \<open>State\<close>

definition OFPUTIL_PC_NO_FLOOD :: u32 where "OFPUTIL_PC_NO_FLOOD = 0x10"

definition OFPUTIL_PS_STP_LISTEN :: u32 where "OFPUTIL_PS_STP_LISTEN = 0"

definition OFPUTIL_PS_STP_LEARN :: u32 where "OFPUTIL_PS_STP_LEARN = 0x100"

definition OFPUTIL_PS_STP_FORWARD :: u32 where "OFPUTIL_PS_STP_FORWARD = 0x200"

definition OFPUTIL_PS_STP_BLOCK :: u32 where "OFPUTIL_PS_STP_BLOCK = 0x300"

definition OFPUTIL_PS_STP_MASK :: u32 where "OFPUTIL_PS_STP_MASK = 0x300"

datatype revalidate_reason = REV_NONE | REV_RECONFIGURE | REV_STP | REV_BOND | REV_PORT_TOGGLED | REV_FLOW_TABLE
  | REV_MAC_LEARNING | REV_INCONSISTENCY

text \<open>The members of \<^verbatim>\<open>struct ofport_dpif\<close>, \<^verbatim>\<open>struct ofbundle\<close> and \<^verbatim>\<open>struct ofproto_dpif\<close> that this code uses.\<close>

record ofport_dpif =
  pp_config :: u32
  pp_state :: u32
  op_bundle :: "nat option"
  op_stp_port :: "nat option"
  op_stp_state :: stp_state
  stp_state_entered :: int

record ofbundle =
  bundle_ports :: "nat list"
  floodable :: bool

record ofproto_dpif =
  od_name :: string
  od_stp :: "stp option"
  stp_last_tick :: int
  od_ml :: mac_learning
  ofports :: "nat \<rightharpoonup> ofport_dpif"
  port_order :: "nat list"
  ofbundles :: "nat \<rightharpoonup> ofbundle"
  backer_need_revalidate :: revalidate_reason
  port_status_msgs :: "(nat \<times> u32) list"

record ofproto_stp_settings =
  system_id :: stp_identifier
  bs_priority :: u16
  bs_hello_time :: u16
  bs_max_age :: u16
  bs_fwd_delay :: u16

record ofproto_port_stp_settings =
  ps_enable :: bool
  ps_port_num :: u8
  ps_priority :: u8
  ps_path_cost :: u16

section \<open>Operations\<close>

fun bundle_floodable :: "(nat \<rightharpoonup> ofport_dpif) \<Rightarrow> nat list \<Rightarrow> bool option" where
  "bundle_floodable ops [] = Some True"
| "bundle_floodable ops (a # as) =
     (case ops a of
        None \<Rightarrow> None
      | Some p \<Rightarrow>
          if pp_config p AND OFPUTIL_PC_NO_FLOOD \<noteq> 0 \<or> \<not> stp_forward_in_state (op_stp_state p) then Some False
          else bundle_floodable ops as)"

definition bundle_update :: "ofproto_dpif \<Rightarrow> nat \<Rightarrow> ofproto_dpif option" where
  "bundle_update od b =
     (case ofbundles od b of
        None \<Rightarrow> None
      | Some bd \<Rightarrow>
          map_option (\<lambda>f. od\<lparr>ofbundles := (ofbundles od)(b \<mapsto> bd\<lparr>floodable := f\<rparr>)\<rparr>)
            (bundle_floodable (ofports od) (bundle_ports bd)))"

definition ofproto_port_set_state :: "ofproto_dpif \<Rightarrow> nat \<Rightarrow> u32 \<Rightarrow> ofproto_dpif" where
  "ofproto_port_set_state od a state =
     (let p = the (ofports od a)
      in if pp_state p \<noteq> state
         then od\<lparr>ofports := (ofports od)(a \<mapsto> p\<lparr>pp_state := state\<rparr>),
                 port_status_msgs := port_status_msgs od @ [(a, state)]\<rparr>
         else od)"

text \<open>The STP bits in the OpenFlow description of a port.\<close>

definition of_stp_bits :: "stp_state \<Rightarrow> u32" where
  "of_stp_bits state =
     (if state = STP_LISTENING then OFPUTIL_PS_STP_LISTEN else if state = STP_LEARNING then OFPUTIL_PS_STP_LEARN
      else if state = STP_FORWARDING then OFPUTIL_PS_STP_FORWARD else if state = STP_BLOCKING then OFPUTIL_PS_STP_BLOCK
      else 0)"

definition current_stp_state :: "ofproto_dpif \<Rightarrow> ofport_dpif \<Rightarrow> stp_state" where
  "current_stp_state od p =
     (case op_stp_port p of None \<Rightarrow> STP_DISABLED | Some i \<Rightarrow> port_state (port_at (the (od_stp od)) i))"

definition update_stp_port_state :: "int \<Rightarrow> ofproto_dpif \<Rightarrow> nat \<Rightarrow> ofproto_dpif option" where
  "update_stp_port_state now od a =
     (case ofports od a of
        None \<Rightarrow> None
      | Some p \<Rightarrow>
          let state = current_stp_state od p in
          if op_stp_state p \<noteq> state then
            let od1 = (if stp_learn_in_state (op_stp_state p) \<noteq> stp_learn_in_state state
                       then od\<lparr>od_ml := mac_learning_flush (od_ml od)\<rparr> else od);
                fwd_change = (stp_forward_in_state (op_stp_state p) \<noteq> stp_forward_in_state state);
                od2 = od1\<lparr>backer_need_revalidate := REV_STP,
                          ofports := (ofports od1)(a \<mapsto> p\<lparr>op_stp_state := state, stp_state_entered := now\<rparr>)\<rparr>
            in case (if fwd_change \<and> op_bundle p \<noteq> None then bundle_update od2 (the (op_bundle p)) else Some od2) of
                 None \<Rightarrow> None
               | Some od3 \<Rightarrow>
                   Some (ofproto_port_set_state od3 a
                     ((pp_state (the (ofports od3 a)) AND NOT OFPUTIL_PS_STP_MASK) OR of_stp_bits state))
          else Some od)"

text \<open>The loop over the ports whose state has changed.\<close>

definition first_changed :: "ofproto_dpif \<Rightarrow> nat" where
  "first_changed od = (case od_stp od of None \<Rightarrow> 0 | Some s \<Rightarrow> STP_MAX_PORTS - first_changed_port s)"

lemma changed_port_progress:
  "stp_get_changed_port s = (Some i, s') \<Longrightarrow> STP_MAX_PORTS - first_changed_port s' < STP_MAX_PORTS - first_changed_port s"
proof -
  assume c: "stp_get_changed_port s = (Some i, s')"
  have "p < STP_MAX_PORTS \<and> p < first_changed_port s'" if "changed_port_from s p = (Some i, s')" for p
    using that
  proof (induction s p rule: changed_port_from.induct)
    case (1 s p)
    then show ?case
      by (subst (asm) (2) changed_port_from.simps) (auto split: if_splits)
  qed
  then show ?thesis using c by (force simp: stp_get_changed_port_def)
qed

lemma update_keeps_stp:
  "update_stp_port_state now od a = Some od' \<Longrightarrow> od_stp od' = od_stp od"
  by (auto simp: update_stp_port_state_def Let_def bundle_update_def ofproto_port_set_state_def
      split: option.splits if_splits)

function changed_ports_loop :: "int \<Rightarrow> ofproto_dpif \<Rightarrow> ofproto_dpif option" where
  "changed_ports_loop now od =
     (case od_stp od of
        None \<Rightarrow> Some od
      | Some s \<Rightarrow>
          (case stp_get_changed_port s of
             (None, s') \<Rightarrow> Some (od\<lparr>od_stp := Some s'\<rparr>)
           | (Some i, s') \<Rightarrow>
               (case (case port_aux (port_at s' i) of
                        None \<Rightarrow> Some (od\<lparr>od_stp := Some s'\<rparr>)
                      | Some a \<Rightarrow> update_stp_port_state now (od\<lparr>od_stp := Some s'\<rparr>) a) of
                  None \<Rightarrow> None
                | Some od' \<Rightarrow> changed_ports_loop now od')))"
  by pat_completeness auto
termination
proof (relation "measure (\<lambda>(now, od). first_changed od)")
  fix now od s y s' i od'
  assume "od_stp od = Some s" and "(y, s') = stp_get_changed_port s" and "y = Some i"
    and "(case port_aux (port_at s' i) of None \<Rightarrow> Some (od\<lparr>od_stp := Some s'\<rparr>)
      | Some a \<Rightarrow> update_stp_port_state now (od\<lparr>od_stp := Some s'\<rparr>) a) = Some od'"
  moreover from this have "od_stp od' = Some s'" by (auto split: option.splits dest: update_keeps_stp)
  ultimately show "((now, od'), now, od) \<in> measure (\<lambda>(now, od). first_changed od)"
    using changed_port_progress [of s i s'] by (simp add: first_changed_def)
qed simp

declare changed_ports_loop.simps [simp del]

definition stp_run :: "int \<Rightarrow> ofproto_dpif \<Rightarrow> ofproto_dpif option" where
  "stp_run now od =
     (case od_stp od of
        None \<Rightarrow> Some od
      | Some s \<Rightarrow>
          let elapsed = now - stp_last_tick od;
              od1 = (if elapsed > 0
                     then od\<lparr>od_stp := Some (stp_tick s (min (2 ^ 31 - 1) elapsed)), stp_last_tick := now\<rparr> else od)
          in case changed_ports_loop now od1 of
               None \<Rightarrow> None
             | Some od2 \<Rightarrow>
                 let (flush, s') = stp_check_and_reset_fdb_flush (the (od_stp od2));
                     od3 = od2\<lparr>od_stp := Some s'\<rparr>
                 in Some (if flush then od3\<lparr>od_ml := mac_learning_flush (od_ml od3)\<rparr> else od3))"

text \<open>\<open>None\<close> also stands for the failed assertion that the port number is in range, and for the use of a null bridge.\<close>

definition set_stp_port :: "int \<Rightarrow> ofproto_dpif \<Rightarrow> nat \<Rightarrow> ofproto_port_stp_settings option \<Rightarrow> ofproto_dpif option" where
  "set_stp_port now od a st =
     (case ofports od a of
        None \<Rightarrow> None
      | Some p \<Rightarrow>
          if (case st of None \<Rightarrow> True | Some x \<Rightarrow> \<not> ps_enable x) then
            (case op_stp_port p of
               None \<Rightarrow> Some od
             | Some sp \<Rightarrow>
                 update_stp_port_state now
                   (od\<lparr>ofports := (ofports od)(a \<mapsto> p\<lparr>op_stp_port := None\<rparr>),
                       od_stp := Some (stp_port_disable (the (od_stp od)) sp)\<rparr>) a)
          else
            (case od_stp od of
               None \<Rightarrow> None
             | Some s \<Rightarrow>
                 let x = the st;
                     s1 = (case op_stp_port p of
                             Some sp \<Rightarrow> if sp \<noteq> unat (ps_port_num x) \<and> port_aux (port_at s sp) = Some a
                                        then stp_port_disable s sp else s
                           | None \<Rightarrow> s)
                 in case stp_get_port s1 (uint (ps_port_num x)) of
                      None \<Rightarrow> None
                    | Some sp \<Rightarrow>
                        (case stp_port_enable s1 sp of
                           None \<Rightarrow> None
                         | Some s2 \<Rightarrow>
                             update_stp_port_state now
                               (od\<lparr>ofports := (ofports od)(a \<mapsto> p\<lparr>op_stp_port := Some sp\<rparr>),
                                   od_stp := Some (stp_port_set_path_cost (stp_port_set_priority
                                     (stp_port_set_aux s2 sp (Some a)) sp (ps_priority x)) sp (ps_path_cost x))\<rparr>) a)))"

definition set_stp :: "int \<Rightarrow> ofproto_dpif \<Rightarrow> ofproto_stp_settings option \<Rightarrow> ofproto_dpif option" where
  "set_stp now od st =
     (let od0 = (if (st = None) \<noteq> (od_stp od = None) then od\<lparr>backer_need_revalidate := REV_RECONFIGURE\<rparr> else od)
      in case st of
           Some x \<Rightarrow>
             (case (case od_stp od0 of
                      None \<Rightarrow> map_option (\<lambda>s. (s, od0\<lparr>stp_last_tick := now\<rparr>)) (stp_create (od_name od0) (system_id x))
                    | Some s \<Rightarrow> Some (s, od0)) of
                None \<Rightarrow> None
              | Some (s, od1) \<Rightarrow>
                  Some (od1\<lparr>od_stp := Some (stp_set_forward_delay (stp_set_max_age (stp_set_hello_time
                    (stp_set_bridge_priority (stp_set_bridge_id s (system_id x)) (bs_priority x))
                    (uint (bs_hello_time x))) (uint (bs_max_age x))) (uint (bs_fwd_delay x)))\<rparr>))
         | None \<Rightarrow>
             map_option (\<lambda>od1. od1\<lparr>od_stp := None\<rparr>)
               (foldl (\<lambda>o1 a. case o1 of None \<Rightarrow> None | Some od1 \<Rightarrow> set_stp_port now od1 a None) (Some od0) (port_order od0)))"

text \<open>
  From \<^verbatim>\<open>ofproto/ofproto-dpif-xlate.c\<close>: what the translation of flows asks about the STP port of a port, and
  the way of a packet for the STP address into STP (the packet has a full Ethernet header).
\<close>

definition xport_get_stp_port :: "stp option \<Rightarrow> int \<Rightarrow> nat option" where
  "xport_get_stp_port xstp stp_port_no =
     (case xstp of None \<Rightarrow> None | Some s \<Rightarrow> if stp_port_no \<noteq> -1 then stp_get_port s stp_port_no else None)"

definition xport_stp_learn_state :: "stp option \<Rightarrow> int \<Rightarrow> bool" where
  "xport_stp_learn_state xstp stp_port_no =
     stp_learn_in_state (case xport_get_stp_port xstp stp_port_no of
       Some sp \<Rightarrow> port_state (port_at (the xstp) sp) | None \<Rightarrow> STP_DISABLED)"

definition xport_stp_forward_state :: "stp option \<Rightarrow> int \<Rightarrow> bool" where
  "xport_stp_forward_state xstp stp_port_no =
     stp_forward_in_state (case xport_get_stp_port xstp stp_port_no of
       Some sp \<Rightarrow> port_state (port_at (the xstp) sp) | None \<Rightarrow> STP_DISABLED)"

definition ETH_HEADER_LEN :: nat where "ETH_HEADER_LEN = 14"

definition LLC_HEADER_LEN :: nat where "LLC_HEADER_LEN = 3"

definition stp_process_packet :: "stp \<Rightarrow> int \<Rightarrow> u8 list \<Rightarrow> stp" where
  "stp_process_packet s stp_port_no packet =
     (case xport_get_stp_port (Some s) stp_port_no of
        None \<Rightarrow> s
      | Some sp \<Rightarrow>
          if port_state (port_at s sp) = STP_DISABLED then s
          else
            let eth_type = unat (of_be (take 2 (drop 12 packet)) :: u16);
                payload = (if length packet > eth_type + ETH_HEADER_LEN
                           then take (eth_type + ETH_HEADER_LEN) packet else packet)
            in if length payload \<ge> ETH_HEADER_LEN + LLC_HEADER_LEN
               then stp_received_bpdu s sp (drop (ETH_HEADER_LEN + LLC_HEADER_LEN) payload) else s)"

section \<open>What STP tells about its ports\<close>

text \<open>
  \<open>tracks s s'\<close>: on the way from \<open>s\<close> to \<open>s'\<close> no port has lost its mark, every port whose state has changed
  has a mark, no port was enabled or disabled, and no client data was touched. Rules of the form \<open>tracks s t \<Longrightarrow> tracks s (op t)\<close> build it up along
  the code.
\<close>

definition port_tracks :: "stp_port \<Rightarrow> stp_port \<Rightarrow> bool" where
  "port_tracks p q \<longleftrightarrow> port_aux q = port_aux p \<and> (state_changed p \<longrightarrow> state_changed q) \<and>
     (port_state q = port_state p \<or> state_changed q) \<and> (port_state q = STP_DISABLED \<longleftrightarrow> port_state p = STP_DISABLED)"

definition tracks :: "stp \<Rightarrow> stp \<Rightarrow> bool" where
  "tracks s s' \<longleftrightarrow> list_all2 port_tracks (ports s) (ports s')"

named_theorems track \<open>operations that keep \<open>tracks\<close>\<close>

lemma port_tracks_refl [simp]: "port_tracks p p"
  by (simp add: port_tracks_def)

lemma tracks_refl [simp]: "tracks s s"
  by (simp add: tracks_def list_all2_refl)

lemma tracks_ports: "ports t' = ports t \<Longrightarrow> tracks s t' = tracks s t"
  by (simp add: tracks_def)

lemma tracks_fields [simp]:
  "tracks s (t\<lparr>sent := x\<rparr>) = tracks s t" "tracks s (t\<lparr>hello_timer := x1\<rparr>) = tracks s t" "tracks s (t\<lparr>tcn_timer := x1\<rparr>) = tracks s t"
  "tracks s (t\<lparr>topology_change_timer := x1\<rparr>) = tracks s t" "tracks s (t\<lparr>topology_change := b\<rparr>) = tracks s t"
  "tracks s (t\<lparr>topology_change_detected := b\<rparr>) = tracks s t" "tracks s (t\<lparr>fdb_needs_flush := b\<rparr>) = tracks s t"
  "tracks s (t\<lparr>max_age := n\<rparr>) = tracks s t" "tracks s (t\<lparr>hello_time := n\<rparr>) = tracks s t" "tracks s (t\<lparr>forward_delay := n\<rparr>) = tracks s t"
  "tracks s (t\<lparr>first_changed_port := k\<rparr>) = tracks s t" "tracks s (t\<lparr>elapsed_remainder := n\<rparr>) = tracks s t"
  "tracks s (t\<lparr>root_port := r\<rparr>) = tracks s t" "tracks s (t\<lparr>designated_root := u\<rparr>) = tracks s t"
  "tracks s (t\<lparr>root_path_cost := w\<rparr>) = tracks s t" "tracks s (t\<lparr>bridge_id := u\<rparr>) = tracks s t"
  "tracks s (t\<lparr>bridge_max_age := n\<rparr>) = tracks s t" "tracks s (t\<lparr>bridge_hello_time := n\<rparr>) = tracks s t"
  "tracks s (t\<lparr>bridge_forward_delay := n\<rparr>) = tracks s t" "tracks s (t\<lparr>rq_max_age := n\<rparr>) = tracks s t"
  "tracks s (t\<lparr>rq_hello_time := n\<rparr>) = tracks s t" "tracks s (t\<lparr>rq_forward_delay := n\<rparr>) = tracks s t"
  by (simp_all add: tracks_def)

lemma port_tracks_trans: "port_tracks p q \<Longrightarrow> port_tracks q r \<Longrightarrow> port_tracks p r"
  by (auto simp: port_tracks_def)

lemma tracks_set_port:
  assumes "tracks s t" and "i < length (ports t) \<Longrightarrow> port_tracks (port_at t i) (f (port_at t i))"
  shows "tracks s (set_port t i f)"
proof (cases "i < length (ports t)")
  case True
  then have "port_tracks (ports s ! i) (ports t ! i)" using assms(1) by (simp add: tracks_def list_all2_conv_all_nth)
  then have "port_tracks (ports s ! i) (f (ports t ! i))"
    using assms(2) True port_tracks_trans by (auto simp: port_at_def)
  then show ?thesis using assms(1) True
    by (auto simp: tracks_def set_port_def list_all2_conv_all_nth nth_list_update)
qed (use assms(1) in \<open>simp add: set_port_def tracks_def list_update_beyond\<close>)

lemma tracks_for_each [track]:
  assumes "tracks s t" and "\<And>t i. tracks s t \<Longrightarrow> tracks s (body t i)"
  shows "tracks s (for_each_enabled_port body t)"
  by (rule for_each_induct) (use assms in simp_all)

lemma tracks_nth:
  "tracks s t \<longleftrightarrow> length (ports t) = length (ports s) \<and> (\<forall>j < length (ports s). port_tracks (port_at s j) (port_at t j))"
  by (auto simp: tracks_def list_all2_conv_all_nth port_at_def)

lemma tracks_set_state:
  assumes t: "tracks s t" and st: "port_state (port_at t i) = STP_DISABLED \<longleftrightarrow> st = STP_DISABLED"
  shows "tracks s (stp_set_port_state t i st)"
proof -
  show ?thesis
  proof (cases "i < length (ports t)")
    case True
    have "port_tracks (port_at s j) (port_at (stp_set_port_state t i st) j)" if "port_tracks (port_at s j) (port_at t j)" for j
      using that st unfolding set_state_sel(1) [OF True] by (auto simp: port_tracks_def)
    then show ?thesis using t unfolding tracks_nth set_state_sel(3) [OF True] by blast
  next
    case False
    then have "ports (stp_set_port_state t i st) = ports t"
      by (simp add: stp_set_port_state_def set_port_def Let_def list_update_beyond)
    from tracks_ports [OF this] t show ?thesis by blast
  qed
qed

lemma tracks_port_fields:
  assumes "tracks s t" and "\<And>p. port_aux (f p) = port_aux p" and "\<And>p. state_changed (f p) = state_changed p"
    and "\<And>p. port_state (f p) = port_state p"
  shows "tracks s (set_port t i f)"
  by (rule tracks_set_port [OF assms(1)]) (simp add: port_tracks_def assms(2-4))

lemma tracks_simple_ops [track]:
  assumes "tracks s t"
  shows "tracks s (stp_send_bpdu t i bpdu)" and "tracks s (stp_become_designated_port t i)"
    and "tracks s (stp_record_config_information t i c)" and "tracks s (stp_record_config_timeout_values t c)"
    and "tracks s (stp_topology_change_acknowledged t)" and "tracks s (stp_topology_change_timer_expiry t)"
    and "tracks s (bpdu_error t i)" and "tracks s (bpdu_received t i)" and "tracks s (stp_update_bridge_timers t)"
  using assms
  by (simp_all add: stp_send_bpdu_def stp_become_designated_port_def stp_record_config_information_def
      stp_record_config_timeout_values_def stp_topology_change_acknowledged_def stp_topology_change_timer_expiry_def
      bpdu_error_def bpdu_received_def stp_update_bridge_timers_def Let_def tracks_port_fields)

lemma tracks_transmit [track]:
  assumes "tracks s t"
  shows "tracks s (stp_transmit_config t i)" and "tracks s (stp_transmit_tcn t)"
  using assms by (simp_all add: stp_transmit_config_def stp_transmit_tcn_def Let_def
      tracks_port_fields tracks_simple_ops(1) split: option.split)

lemma tracks_root_selection [track]: "tracks s t \<Longrightarrow> tracks s (stp_root_selection t)"
  by (simp add: stp_root_selection_def Let_def split: option.split)

lemma tracks_selection [track]:
  assumes "tracks s t"
  shows "tracks s (stp_config_bpdu_generation t)" and "tracks s (stp_designated_port_selection t)"
  using assms unfolding stp_config_bpdu_generation_def stp_designated_port_selection_def
  by (rule tracks_for_each; simp add: Let_def track)+

lemma tracks_update [track]: "tracks s t \<Longrightarrow> tracks s (stp_configuration_update t)"
  unfolding stp_configuration_update_def by (intro track)

lemma tracks_detection [track]:
  assumes "tracks s t"
  shows "tracks s (stp_topology_change_detection t)" and "tracks s (stp_acknowledge_topology_change t i)"
  using assms unfolding stp_topology_change_detection_def stp_acknowledge_topology_change_def
  by (simp_all add: Let_def track tracks_port_fields)

lemma state_set_port:
  "(\<And>p. port_state (f p) = port_state p) \<Longrightarrow> port_state (port_at (set_port t k f) i) = port_state (port_at t i)"
  by (cases "k < length (ports t)"; cases "i = k") (simp_all add: port_at_def set_port_def list_update_beyond)

lemma port_at_fields [simp]:
  "port_at (t\<lparr>sent := x\<rparr>) i = port_at t i" "port_at (t\<lparr>tcn_timer := x1\<rparr>) i = port_at t i"
  "port_at (t\<lparr>topology_change_timer := x1\<rparr>) i = port_at t i" "port_at (t\<lparr>topology_change := b\<rparr>) i = port_at t i"
  "port_at (t\<lparr>topology_change_detected := b\<rparr>) i = port_at t i" "port_at (t\<lparr>fdb_needs_flush := b\<rparr>) i = port_at t i"
  by (simp_all add: port_at_def)

lemma detection_status: "port_state (port_at (stp_topology_change_detection t) i) = port_state (port_at t i)"
  by (simp add: stp_topology_change_detection_def stp_transmit_tcn_def stp_send_bpdu_def Let_def state_set_port split: option.split)

lemma tracks_make [track]:
  assumes "tracks s t"
  shows "tracks s (stp_make_forwarding t i)" and "tracks s (stp_make_blocking t i)"
  using assms detection_status [of t i] unfolding stp_make_forwarding_def stp_make_blocking_def
  by (auto simp: Let_def track intro!: tracks_port_fields tracks_set_state)

lemma tracks_state_selection [track]: "tracks s t \<Longrightarrow> tracks s (stp_port_state_selection t)"
  unfolding stp_port_state_selection_def by (rule tracks_for_each) (simp_all add: tracks_make tracks_port_fields)

lemma tracks_root_changes [track]:
  assumes "tracks s t"
  shows "tracks s (stp_become_root_bridge t)" and "tracks s (stp_lost_root t b)" and "tracks s (stp_config_from_root t c)"
    and "tracks s (stp_regained_root t b)"
  using assms
  by (simp_all add: stp_become_root_bridge_def stp_lost_root_def stp_config_from_root_def stp_regained_root_def Let_def track)

lemma tracks_expiry [track]:
  assumes "tracks s t"
  shows "tracks s (stp_hello_timer_expiry t)" and "tracks s (stp_tcn_timer_expiry t)" and "tracks s (stp_hold_timer_expiry t i)"
    and "tracks s (stp_message_age_timer_expiry t i)"
  using assms by (simp_all add: stp_hello_timer_expiry_def stp_tcn_timer_expiry_def stp_hold_timer_expiry_def
      stp_message_age_timer_expiry_def Let_def track)

lemma tracks_forward_delay_expiry [track]: "tracks s t \<Longrightarrow> tracks s (stp_forward_delay_timer_expiry t i)"
  by (simp add: stp_forward_delay_timer_expiry_def Let_def track tracks_set_state tracks_port_fields)

lemma tracks_ticks [track]:
  assumes "tracks s t"
  shows "tracks s (tick_message_age e t i)" and "tracks s (tick_forward_delay e t i)" and "tracks s (tick_hold e t i)"
    and "tracks s (tick_bridge e t)"
  using assms by (simp_all add: tick_message_age_def tick_forward_delay_def tick_hold_def tick_bridge_def Let_def split_beta
      track tracks_port_fields)

lemma tracks_tick: "tracks s t \<Longrightarrow> tracks s (stp_tick t ms)"
  by (simp add: stp_tick_def elapsed_ticks_def Let_def track)

lemma tracks_received [track]:
  assumes "tracks s t"
  shows "tracks s (stp_received_config_bpdu t i c)" and "tracks s (stp_received_tcn_bpdu t i)"
  using assms by (simp_all add: stp_received_config_bpdu_def stp_received_tcn_bpdu_def Let_def track)

lemma tracks_received_bpdu: "tracks s t \<Longrightarrow> tracks s (stp_received_bpdu t i bpdu)"
  by (simp add: stp_received_bpdu_def track)

lemma tracks_set_bridge_id [track]: "tracks s t \<Longrightarrow> tracks s (set_bridge_id t bid)"
proof -
  assume t: "tracks s t"
  then have "tracks s (for_each_enabled_port (\<lambda>s i. if stp_is_designated_port s i
    then set_port s i (\<lambda>p. p\<lparr>port_designated_bridge := bid\<rparr>) else s) t)"
    by (rule tracks_for_each) (simp add: tracks_port_fields)
  then show ?thesis using t by (simp add: set_bridge_id_def Let_def track)
qed

lemma tracks_settings [track]:
  assumes "tracks s t"
  shows "tracks s (stp_set_bridge_id t bid)" and "tracks s (stp_set_bridge_priority t n)" and "tracks s (stp_set_hello_time t ms)"
    and "tracks s (stp_set_max_age t ms)" and "tracks s (stp_set_forward_delay t ms)"
    and "tracks s (stp_port_set_path_cost t i c)" and "tracks s (stp_port_set_priority t i k)"
  using assms by (simp_all add: stp_set_bridge_id_def stp_set_bridge_priority_def stp_set_hello_time_def stp_set_max_age_def
      stp_set_forward_delay_def stp_port_set_path_cost_def stp_port_set_priority_def Let_def track tracks_port_fields)

lemma tracksD:
  assumes "tracks s t"
  shows "length (ports t) = length (ports s)" and "\<And>j. j < length (ports s) \<Longrightarrow> port_tracks (port_at s j) (port_at t j)"
  using assms by (simp_all add: tracks_nth)

lemma set_port_other: "i < length (ports s) \<Longrightarrow> j \<noteq> i \<Longrightarrow> port_at (set_port s i f) j = port_at s j"
  by (simp add: port_at_def set_port_def)

lemma become_designated_other:
  "i < length (ports s) \<Longrightarrow> j \<noteq> i \<Longrightarrow> port_at (stp_become_designated_port s i) j = port_at s j"
  "length (ports (stp_become_designated_port s i)) = length (ports s)"
  by (simp_all add: stp_become_designated_port_def set_port_other set_port_at(3))

text \<open>A state that differs from \<open>s\<close> in port \<open>i\<close> only, followed by operations that keep \<open>tracks\<close>.\<close>

lemma tracks_others:
  assumes "length (ports t) = length (ports s)" and "\<And>j. j \<noteq> i \<Longrightarrow> port_at t j = port_at s j" and "tracks t u"
    and "j < length (ports s)" and "j \<noteq> i"
  shows "port_tracks (port_at s j) (port_at u j)"
  using tracksD(2) [OF assms(3), of j] assms(1,2,4,5) by simp

lemma disable_effect:
  assumes "i < length (ports s)" and "port_state (port_at s i) \<noteq> STP_DISABLED"
  shows "length (ports (stp_port_disable s i)) = length (ports s)" and "port_aux (port_at (stp_port_disable s i) i) = None"
    and "port_state (port_at (stp_port_disable s i) i) = STP_DISABLED"
    and "\<And>j. j < length (ports s) \<Longrightarrow> j \<noteq> i \<Longrightarrow> port_tracks (port_at s j) (port_at (stp_port_disable s i) j)"
proof -
  define s1 where "s1 = stp_set_port_state (stp_become_designated_port s i) i STP_DISABLED"
  define s2 where "s2 = set_port s1 i (\<lambda>p. p\<lparr>topology_change_ack := False, config_pending := False,
    message_age_timer := stp_stop_timer (message_age_timer p), forward_delay_timer := stp_stop_timer (forward_delay_timer p)\<rparr>)"
  define s3 where "s3 = stp_regained_root (stp_port_state_selection (stp_configuration_update s2)) (stp_is_root_bridge s)"
  have s': "stp_port_disable s i = set_port s3 i (\<lambda>p. p\<lparr>port_aux := None\<rparr>)"
    using assms(2) by (simp add: stp_port_disable_def Let_def s1_def s2_def s3_def)
  have bi: "i < length (ports (stp_become_designated_port s i))" using assms(1) by (simp add: become_designated_other)
  have l1: "length (ports s1) = length (ports s)" by (simp add: s1_def set_state_sel(3) [OF bi] become_designated_other)
  have l2: "length (ports s2) = length (ports s)" by (simp add: s2_def set_port_at l1)
  have p1: "port_at s1 j = port_at s j" if "j \<noteq> i" for j
    using that assms(1) by (simp add: s1_def set_state_sel(1) [OF bi] become_designated_other)
  have p2: "port_at s2 j = port_at s j" if "j \<noteq> i" for j
    using that assms(1) p1 by (simp add: s2_def set_port_other l1)
  have i2: "port_state (port_at s2 i) = STP_DISABLED"
    using assms(1) by (simp add: s2_def set_port_at l1) (simp add: s1_def set_state_sel(1) [OF bi])
  have t: "tracks s2 s3" by (simp add: s3_def track)
  have l3: "length (ports s3) = length (ports s)" using tracksD(1) [OF t] l2 by simp
  show "length (ports (stp_port_disable s i)) = length (ports s)" by (simp add: s' set_port_at l3)
  show "port_aux (port_at (stp_port_disable s i) i) = None" using assms(1) l3 by (simp add: s' set_port_at)
  have "port_tracks (port_at s2 i) (port_at s3 i)" using tracksD(2) [OF t] assms(1) l2 by simp
  then show "port_state (port_at (stp_port_disable s i) i) = STP_DISABLED"
    using assms(1) l3 i2 by (simp add: s' set_port_at port_tracks_def)
  fix j assume "j < length (ports s)" "j \<noteq> i"
  then show "port_tracks (port_at s j) (port_at (stp_port_disable s i) j)"
    using tracks_others [OF l2 p2 t] assms(1) l3 by (simp add: s' set_port_other)
qed

lemma enable_effect:
  assumes "i < length (ports s)" and "port_state (port_at s i) = STP_DISABLED"
  obtains s' where "stp_port_enable s i = Some s'" and "length (ports s') = length (ports s)"
    and "port_aux (port_at s' i) = None" and "port_state (port_at s' i) \<noteq> STP_DISABLED" and "state_changed (port_at s' i)"
    and "\<And>j. j < length (ports s) \<Longrightarrow> j \<noteq> i \<Longrightarrow> port_tracks (port_at s j) (port_at s' j)"
proof -
  define s1 where "s1 = stp_set_port_state (stp_become_designated_port s i) i STP_BLOCKING"
  obtain s2 f where s2: "stp_initialize_port s i STP_BLOCKING = Some s2" "s2 = set_port s1 i f"
    and f: "\<And>p. port_state (f p) = port_state p" "\<And>p. state_changed (f p) = state_changed p" "\<And>p. port_aux (f p) = None"
    by (auto simp: stp_initialize_port_def s1_def)
  have bi: "i < length (ports (stp_become_designated_port s i))" using assms(1) by (simp add: become_designated_other)
  have l1: "length (ports s1) = length (ports s)" by (simp add: s1_def set_state_sel(3) [OF bi] become_designated_other)
  have l2: "length (ports s2) = length (ports s)" by (simp add: s2 set_port_at l1)
  have b: "port_state (port_at (stp_become_designated_port s i) i) = STP_DISABLED"
    using assms by (simp add: stp_become_designated_port_def set_port_at)
  have p2: "port_at s2 j = port_at s j" if "j \<noteq> i" for j
    using that assms(1) by (simp add: s2 set_port_other l1) (simp add: s1_def set_state_sel(1) [OF bi] become_designated_other)
  have i2: "port_state (port_at s2 i) = STP_BLOCKING" "state_changed (port_at s2 i)" "port_aux (port_at s2 i) = None"
    using assms(1) f by (simp_all add: s2 set_port_at l1) (simp_all add: s1_def set_state_sel(1) [OF bi] b)
  let ?s' = "stp_port_state_selection s2"
  have t: "tracks s2 ?s'" by (simp add: track)
  have i3: "port_tracks (port_at s2 i) (port_at ?s' i)" using tracksD(2) [OF t] assms(1) l2 by simp
  show ?thesis
  proof (rule that [of ?s'])
    show "stp_port_enable s i = Some ?s'" using assms(2) s2(1) by (simp add: stp_port_enable_def)
    show "length (ports ?s') = length (ports s)" using tracksD(1) [OF t] l2 by simp
    show "port_aux (port_at ?s' i) = None" "port_state (port_at ?s' i) \<noteq> STP_DISABLED" "state_changed (port_at ?s' i)"
      using i2 i3 by (simp_all add: port_tracks_def)
    show "port_tracks (port_at s j) (port_at ?s' j)" if "j < length (ports s)" "j \<noteq> i" for j
      by (rule tracks_others [OF l2 p2 t that])
  qed
qed

section \<open>The invariant of a bridge\<close>

text \<open>
  The ports of the bridge and the STP ports point at each other, and a port of the bridge shows the state
  of its STP port unless that is marked as changed.
\<close>

definition port_linked :: "stp \<Rightarrow> nat \<Rightarrow> ofport_dpif \<Rightarrow> bool" where
  "port_linked s a p \<longleftrightarrow>
     (case op_stp_port p of
        None \<Rightarrow> op_stp_state p = STP_DISABLED
      | Some i \<Rightarrow> i < STP_MAX_PORTS \<and> port_aux (port_at s i) = Some a \<and> port_state (port_at s i) \<noteq> STP_DISABLED \<and>
          (op_stp_state p = port_state (port_at s i) \<or> state_changed (port_at s i)))"

definition linked :: "stp \<Rightarrow> (nat \<rightharpoonup> ofport_dpif) \<Rightarrow> bool" where
  "linked s ops \<longleftrightarrow>
     (\<forall>i < STP_MAX_PORTS. \<forall>a. port_aux (port_at s i) = Some a \<longrightarrow> (\<exists>p. ops a = Some p \<and> op_stp_port p = Some i)) \<and>
     (\<forall>a p. ops a = Some p \<longrightarrow> port_linked s a p)"

text \<open>
  The ports of a bundle know their bundle and the other way round, and \<open>floodable\<close> is up to date, outside the bundles in \<open>X\<close>.
\<close>

definition bundles_ok_except :: "nat set \<Rightarrow> ofproto_dpif \<Rightarrow> bool" where
  "bundles_ok_except X od \<longleftrightarrow>
     (\<forall>a p b. ofports od a = Some p \<longrightarrow> op_bundle p = Some b \<longrightarrow> (\<exists>bd. ofbundles od b = Some bd \<and> a \<in> set (bundle_ports bd))) \<and>
     (\<forall>b bd. ofbundles od b = Some bd \<longrightarrow> distinct (bundle_ports bd) \<and>
        (\<forall>a \<in> set (bundle_ports bd). \<exists>p. ofports od a = Some p \<and> op_bundle p = Some b) \<and>
        (b \<notin> X \<longrightarrow> bundle_floodable (ofports od) (bundle_ports bd) = Some (floodable bd)))"

abbreviation bundles_ok :: "ofproto_dpif \<Rightarrow> bool" where
  "bundles_ok \<equiv> bundles_ok_except {}"

lemma bundlesI:
  assumes "\<And>a p b. ofports od a = Some p \<Longrightarrow> op_bundle p = Some b \<Longrightarrow> \<exists>bd. ofbundles od b = Some bd \<and> a \<in> set (bundle_ports bd)"
    and "\<And>b bd. ofbundles od b = Some bd \<Longrightarrow> distinct (bundle_ports bd)"
    and "\<And>b bd a. ofbundles od b = Some bd \<Longrightarrow> a \<in> set (bundle_ports bd) \<Longrightarrow> \<exists>p. ofports od a = Some p \<and> op_bundle p = Some b"
    and "\<And>b bd. ofbundles od b = Some bd \<Longrightarrow> b \<notin> X \<Longrightarrow> bundle_floodable (ofports od) (bundle_ports bd) = Some (floodable bd)"
  shows "bundles_ok_except X od"
  unfolding bundles_ok_except_def using assms by blast

lemma bundlesD:
  assumes "bundles_ok_except X od"
  shows "\<And>a p b. ofports od a = Some p \<Longrightarrow> op_bundle p = Some b \<Longrightarrow> \<exists>bd. ofbundles od b = Some bd \<and> a \<in> set (bundle_ports bd)"
    and "\<And>b bd. ofbundles od b = Some bd \<Longrightarrow> distinct (bundle_ports bd)"
    and "\<And>b bd a. ofbundles od b = Some bd \<Longrightarrow> a \<in> set (bundle_ports bd) \<Longrightarrow> \<exists>p. ofports od a = Some p \<and> op_bundle p = Some b"
    and "\<And>b bd. ofbundles od b = Some bd \<Longrightarrow> b \<notin> X \<Longrightarrow> bundle_floodable (ofports od) (bundle_ports bd) = Some (floodable bd)"
  using assms by (simp_all add: bundles_ok_except_def)

lemma bundles_ok_fields [simp]:
  "bundles_ok_except X (od\<lparr>od_stp := x\<rparr>) = bundles_ok_except X od" "bundles_ok_except X (od\<lparr>od_ml := m\<rparr>) = bundles_ok_except X od"
  "bundles_ok_except X (od\<lparr>stp_last_tick := n\<rparr>) = bundles_ok_except X od"
  "bundles_ok_except X (od\<lparr>backer_need_revalidate := r\<rparr>) = bundles_ok_except X od"
  "bundles_ok_except X (od\<lparr>port_order := l\<rparr>) = bundles_ok_except X od"
  by (simp_all add: bundles_ok_except_def)

definition od_inv :: "int \<Rightarrow> ofproto_dpif \<Rightarrow> bool" where
  "od_inv t od \<longleftrightarrow> bundles_ok od \<and> (ml_state_ok (t, od_ml od)) \<and> set (port_order od) = dom (ofports od) \<and> distinct (port_order od) \<and>
     (case od_stp od of
        None \<Rightarrow> \<forall>a p. ofports od a = Some p \<longrightarrow> op_stp_port p = None \<and> op_stp_state p = STP_DISABLED
      | Some s \<Rightarrow> stp_inv s \<and> linked s (ofports od))"

lemma od_inv_revalidate [simp]: "od_inv t (od\<lparr>backer_need_revalidate := r\<rparr>) = od_inv t od"
  by (cases "od_stp od") (simp_all add: od_inv_def)

lemma linkedD: "linked s ops \<Longrightarrow> ops a = Some p \<Longrightarrow> port_linked s a p"
  by (simp add: linked_def)

lemma port_linked_tracks:
  assumes "port_linked s a p" and "\<And>i. op_stp_port p = Some i \<Longrightarrow> i < STP_MAX_PORTS \<Longrightarrow> port_tracks (port_at s i) (port_at t i)"
  shows "port_linked t a p"
  using assms by (fastforce simp: port_linked_def port_tracks_def split: option.splits)

lemma linked_tracks:
  assumes "linked s ops" and "tracks s t" and "stp_inv s"
  shows "linked t ops"
proof -
  have l: "length (ports s) = STP_MAX_PORTS" using assms(3) by (simp add: stp_inv_def ports_ok_def)
  have t: "port_tracks (port_at s i) (port_at t i)" if "i < STP_MAX_PORTS" for i
    using tracksD(2) [OF assms(2)] that l by simp
  then have "port_aux (port_at t i) = port_aux (port_at s i)" if "i < STP_MAX_PORTS" for i
    using that by (simp add: port_tracks_def)
  moreover have "port_linked t a p" if "port_linked s a p" for a p by (rule port_linked_tracks [OF that]) (rule t)
  ultimately show ?thesis using assms(1) by (simp add: linked_def)
qed

definition port_floods :: "ofport_dpif \<Rightarrow> bool" where
  "port_floods p \<longleftrightarrow> pp_config p AND OFPUTIL_PC_NO_FLOOD = 0 \<and> stp_forward_in_state (op_stp_state p)"

lemma floodable_total: "set as \<subseteq> dom ops \<Longrightarrow> \<exists>f. bundle_floodable ops as = Some f"
  by (induction "as") auto

lemma floodable_iff:
  assumes "bundle_floodable ops as = Some True" and "a \<in> set as"
  shows "\<exists>p. ops a = Some p \<and> port_floods p"
  using assms by (induction "as") (auto simp: port_floods_def split: option.splits if_splits)

lemma floodable_upd:
  assumes "ops a = Some p" and "a \<in> set as \<Longrightarrow> port_floods p' = port_floods p"
  shows "bundle_floodable (ops(a \<mapsto> p')) as = bundle_floodable ops as"
  using assms(2) by (induction "as") (auto simp: assms(1) port_floods_def split: option.split)

text \<open>What \<^verbatim>\<open>update_stp_port_state\<close> changes.\<close>

definition updates_port :: "int \<Rightarrow> nat \<Rightarrow> ofport_dpif \<Rightarrow> ofproto_dpif \<Rightarrow> ofproto_dpif \<Rightarrow> bool" where
  "updates_port t a p od od' \<longleftrightarrow> od_stp od' = od_stp od \<and> port_order od' = port_order od \<and> stp_last_tick od' = stp_last_tick od \<and>
     (\<exists>p'. ofports od' = (ofports od)(a \<mapsto> p') \<and> op_stp_port p' = op_stp_port p \<and> op_bundle p' = op_bundle p \<and>
        op_stp_state p' = current_stp_state od p) \<and>
     bundles_ok od' \<and> (ml_state_ok (t, od_ml od')) \<and>
     (od_ml od' = od_ml od \<or> lrus (od_ml od') = []) \<and>
     (stp_learn_in_state (op_stp_state p) \<noteq> stp_learn_in_state (current_stp_state od p) \<longrightarrow> lrus (od_ml od') = [])"

lemma bundles_ok_upd:
  assumes "bundles_ok od" and "ofports od a = Some p" and "op_bundle p' = op_bundle p"
    and "\<And>b. port_floods p' \<noteq> port_floods p \<Longrightarrow> op_bundle p = Some b \<Longrightarrow> b \<in> X"
    and "ofports od' = (ofports od)(a \<mapsto> p')" and "ofbundles od' = ofbundles od"
  shows "bundles_ok_except X od'"
proof (rule bundlesI; unfold assms(6))
  fix b bd assume bd: "ofbundles od b = Some bd" and b: "b \<notin> X"
  have "op_bundle p = Some b" if "a \<in> set (bundle_ports bd)" using bundlesD(3) [OF assms(1) bd that] assms(2) by auto
  then have "bundle_floodable (ofports od') (bundle_ports bd) = bundle_floodable (ofports od) (bundle_ports bd)"
    unfolding assms(5) by (intro floodable_upd [where p = p]) (use assms(2,4) b in blast)+
  then show "bundle_floodable (ofports od') (bundle_ports bd) = Some (floodable bd)" using bundlesD(4) [OF assms(1) bd] by simp
next
  fix b bd c assume "ofbundles od b = Some bd" and "c \<in> set (bundle_ports bd)"
  from bundlesD(3) [OF assms(1) this] show "\<exists>q. ofports od' c = Some q \<and> op_bundle q = Some b"
    using assms(2,3) by (auto simp: assms(5))
next
  fix c q b assume "ofports od' c = Some q" and "op_bundle q = Some b"
  then show "\<exists>bd. ofbundles od b = Some bd \<and> c \<in> set (bundle_ports bd)"
    using bundlesD(1) [OF assms(1)] assms(2,3) by (auto simp: assms(5) split: if_splits)
qed (rule bundlesD(2) [OF assms(1)])

lemma bundle_update_ok:
  assumes "bundles_ok_except {b} od" and "ofbundles od b \<noteq> None"
  obtains od' where "bundle_update od b = Some od'" and "bundles_ok od'" and "od_stp od' = od_stp od" and "ofports od' = ofports od"
    and "port_order od' = port_order od" and "od_ml od' = od_ml od" and "stp_last_tick od' = stp_last_tick od"
proof -
  obtain bd where bd: "ofbundles od b = Some bd" using assms(2) by blast
  then have "set (bundle_ports bd) \<subseteq> dom (ofports od)" using bundlesD(3) [OF assms(1)] by blast
  then obtain f where f: "bundle_floodable (ofports od) (bundle_ports bd) = Some f" using floodable_total by blast
  let ?od = "od\<lparr>ofbundles := (ofbundles od)(b \<mapsto> bd\<lparr>floodable := f\<rparr>)\<rparr>"
  have "bundles_ok ?od"
  proof (rule bundlesI)
    show "\<exists>bd'. ofbundles ?od c = Some bd' \<and> a \<in> set (bundle_ports bd')" if "ofports ?od a = Some p" "op_bundle p = Some c" for a p c
      using bundlesD(1) [OF assms(1), of a p c] that bd by auto
    show "\<exists>p. ofports ?od a = Some p \<and> op_bundle p = Some c" if "ofbundles ?od c = Some bd'" "a \<in> set (bundle_ports bd')" for c bd' a
      using bundlesD(3) [OF assms(1)] that bd by (auto split: if_splits)
  qed (use bundlesD(2,4) [OF assms(1)] bd f in \<open>auto split: if_splits\<close>)
  then show ?thesis using that [of ?od] by (simp add: bundle_update_def bd f)
qed

lemma maybe_bundle_update_ok:
  assumes "bundles_ok_except (if c then {b} else {}) od" and "c \<Longrightarrow> ofbundles od b \<noteq> None"
  shows "\<exists>od'. (if c then bundle_update od b else Some od) = Some od' \<and> bundles_ok od' \<and> od_stp od' = od_stp od \<and>
    ofports od' = ofports od \<and> port_order od' = port_order od \<and> od_ml od' = od_ml od \<and> stp_last_tick od' = stp_last_tick od"
proof (cases c)
  case True
  have "bundles_ok_except {b} od" using assms(1) True by simp
  then obtain od' where "bundle_update od b = Some od'" "bundles_ok od'" "od_stp od' = od_stp od" "ofports od' = ofports od"
    "port_order od' = port_order od" "od_ml od' = od_ml od" "stp_last_tick od' = stp_last_tick od"
    by (rule bundle_update_ok [OF _ assms(2) [OF True]])
  then show ?thesis using True by simp
qed (use assms(1) in simp)

lemma set_state_ok:
  assumes "ofports od a = Some p" and "bundles_ok od"
  obtains p' where "ofports (ofproto_port_set_state od a st) = (ofports od)(a \<mapsto> p')" and "op_stp_port p' = op_stp_port p"
    and "op_bundle p' = op_bundle p" and "op_stp_state p' = op_stp_state p" and "bundles_ok (ofproto_port_set_state od a st)"
    and "od_stp (ofproto_port_set_state od a st) = od_stp od" and "port_order (ofproto_port_set_state od a st) = port_order od"
    and "od_ml (ofproto_port_set_state od a st) = od_ml od"
    and "stp_last_tick (ofproto_port_set_state od a st) = stp_last_tick od"
proof -
  let ?od = "ofproto_port_set_state od a st"
  have o: "ofports ?od = (ofports od)(a \<mapsto> p\<lparr>pp_state := st\<rparr>)"
    using assms(1) by (auto simp: ofproto_port_set_state_def Let_def fun_eq_iff)
  have "ofbundles ?od = ofbundles od" by (simp add: ofproto_port_set_state_def Let_def)
  then have "bundles_ok ?od" by (intro bundles_ok_upd [OF assms(2,1) _ _ o]) (simp_all add: port_floods_def)
  then show ?thesis
    by (intro that [of "p\<lparr>pp_state := st\<rparr>"]) (simp_all add: o, simp_all add: ofproto_port_set_state_def Let_def)
qed

lemma update_ok:
  assumes "ofports od a = Some p" and "bundles_ok od" and "ml_state_ok (t, od_ml od)"
  obtains od' where "update_stp_port_state now od a = Some od'" and "updates_port t a p od od'"
proof (cases "op_stp_state p = current_stp_state od p")
  case True
  have "updates_port t a p od od" unfolding updates_port_def
    using assms True by (auto simp: fun_eq_iff intro!: exI [of _ p])
  then show ?thesis using that [of od] assms(1) True by (simp add: update_stp_port_state_def Let_def)
next
  case False
  let ?st = "current_stp_state od p" and ?p = "p\<lparr>op_stp_state := current_stp_state od p, stp_state_entered := now\<rparr>"
  define learn where "learn = (stp_learn_in_state (op_stp_state p) \<noteq> stp_learn_in_state ?st)"
  define od1 where "od1 = (if learn then od\<lparr>od_ml := mac_learning_flush (od_ml od)\<rparr> else od)"
  define od2 where "od2 = od1\<lparr>backer_need_revalidate := REV_STP, ofports := (ofports od1)(a \<mapsto> ?p)\<rparr>"
  have od2: "od_stp od2 = od_stp od" "port_order od2 = port_order od" "stp_last_tick od2 = stp_last_tick od"
    "ofports od2 = (ofports od)(a \<mapsto> ?p)" "ofbundles od2 = ofbundles od" by (simp_all add: od2_def od1_def)
  have t: "ml_inv t (od_ml od)" using assms(3) by (simp add: ml_state_ok_def)
  have m2: "ml_state_ok (t, od_ml od2)" "od_ml od2 = od_ml od \<or> lrus (od_ml od2) = []" "learn \<Longrightarrow> lrus (od_ml od2) = []"
    using assms(3) flush_inv(2) [OF t] ml_step_ok [OF ml_step.step_flush assms(3)] by (auto simp: od2_def od1_def)
  define fwd where "fwd \<longleftrightarrow> stp_forward_in_state (op_stp_state p) \<noteq> stp_forward_in_state ?st \<and> op_bundle p \<noteq> None"
  have b2: "bundles_ok_except (if fwd then {the (op_bundle p)} else {}) od2"
    by (rule bundles_ok_upd [OF assms(2,1) _ _ od2(4,5)]) (auto simp: fwd_def port_floods_def)
  have "ofbundles od2 (the (op_bundle p)) \<noteq> None" if fwd
    using that bundlesD(1) [OF assms(2,1)] by (force simp: fwd_def od2)
  then obtain od3 where od3: "(if fwd then bundle_update od2 (the (op_bundle p)) else Some od2) = Some od3" "bundles_ok od3"
    "od_stp od3 = od_stp od2" "ofports od3 = ofports od2" "port_order od3 = port_order od2" "od_ml od3 = od_ml od2"
    "stp_last_tick od3 = stp_last_tick od2"
    using maybe_bundle_update_ok [OF b2] by blast
  let ?od = "ofproto_port_set_state od3 a ((pp_state (the (ofports od3 a)) AND NOT OFPUTIL_PS_STP_MASK) OR of_stp_bits ?st)"
  have "ofports od3 a = Some ?p" by (simp add: od3(4) od2)
  from set_state_ok [OF this od3(2)] obtain p' where p': "ofports ?od = (ofports od3)(a \<mapsto> p')" "op_stp_port p' = op_stp_port ?p"
    "op_bundle p' = op_bundle ?p" "op_stp_state p' = op_stp_state ?p" "bundles_ok ?od" "od_stp ?od = od_stp od3"
    "port_order ?od = port_order od3" "od_ml ?od = od_ml od3" "stp_last_tick ?od = stp_last_tick od3" by metis
  have "updates_port t a p od ?od" unfolding updates_port_def
    using p' od3 od2 m2 by (auto simp: learn_def)
  moreover have "update_stp_port_state now od a =
    (case (if fwd then bundle_update od2 (the (op_bundle p)) else Some od2) of None \<Rightarrow> None
     | Some od3 \<Rightarrow> Some (ofproto_port_set_state od3 a ((pp_state (the (ofports od3 a)) AND NOT OFPUTIL_PS_STP_MASK) OR of_stp_bits ?st)))"
    using False assms(1) unfolding update_stp_port_state_def Let_def fwd_def od2_def od1_def learn_def by simp
  ultimately show ?thesis using that od3(1) by (simp only: option.case)
qed

lemma changed_step:
  assumes "stp_inv s" and "stp_get_changed_port s = (q, s1)"
  shows "stp_inv s1" and "fdb_needs_flush s1 = fdb_needs_flush s"
    and "case q of None \<Rightarrow> (\<forall>i < STP_MAX_PORTS. \<not> state_changed (port_at s i)) \<and> (\<forall>j. port_at s1 j = port_at s j)
      | Some i \<Rightarrow> i < STP_MAX_PORTS \<and> state_changed (port_at s i) \<and>
          (\<forall>j. port_at s1 j = (if j = i then (port_at s i)\<lparr>state_changed := False\<rparr> else port_at s j))"
proof -
  have l: "length (ports s) = STP_MAX_PORTS" "first_changed_port s \<le> STP_MAX_PORTS"
    and m: "\<And>i. i < STP_MAX_PORTS \<Longrightarrow> state_changed (port_at s i) \<Longrightarrow> first_changed_port s \<le> i"
    using assms(1) by (auto simp: stp_inv_def ports_ok_def port_ok_def)
  have r: "changed_port_from s (first_changed_port s) = (q, s1)" using assms(2) by (simp add: stp_get_changed_port_def)
  have upd: "port_at (x\<lparr>first_changed_port := n\<rparr>) j = port_at x j" for x n j by (simp add: port_at_def)
  show "stp_inv s1" by (rule get_changed_port_inv [OF assms])
  show "fdb_needs_flush s1 = fdb_needs_flush s"
    using changed_port_from_result [OF l(2), of s] by (cases q) (simp_all add: r set_port_def)
  show "case q of None \<Rightarrow> (\<forall>i < STP_MAX_PORTS. \<not> state_changed (port_at s i)) \<and> (\<forall>j. port_at s1 j = port_at s j)
      | Some i \<Rightarrow> i < STP_MAX_PORTS \<and> state_changed (port_at s i) \<and>
          (\<forall>j. port_at s1 j = (if j = i then (port_at s i)\<lparr>state_changed := False\<rparr> else port_at s j))"
  proof (cases q)
    case None
    then show ?thesis using changed_port_from_result [OF l(2), of s] m by (auto simp: r upd)
  next
    case (Some i)
    then show ?thesis using changed_port_from_result [OF l(2), of s] l(1) by (simp add: r upd port_at_set_port)
  qed
qed

text \<open>One round of the loop: the mark of port \<open>i\<close> is gone and its port of the bridge shows its state.\<close>

lemma linked_round:
  assumes "linked s ops" and "i < STP_MAX_PORTS"
    and "\<And>j. port_at s1 j = (if j = i then (port_at s i)\<lparr>state_changed := False\<rparr> else port_at s j)"
    and "case port_aux (port_at s i) of None \<Rightarrow> ops' = ops
      | Some a \<Rightarrow> \<exists>p p'. ops a = Some p \<and> ops' = ops(a \<mapsto> p') \<and> op_stp_port p' = op_stp_port p \<and>
          op_stp_state p' = (case op_stp_port p of None \<Rightarrow> STP_DISABLED | Some k \<Rightarrow> port_state (port_at s1 k))"
  shows "linked s1 ops'"
proof -
  have aux: "port_aux (port_at s1 j) = port_aux (port_at s j)" for j by (simp add: assms(3))
  have bk: "\<exists>p. ops a = Some p \<and> op_stp_port p = Some j" if "j < STP_MAX_PORTS" "port_aux (port_at s j) = Some a" for j a
    using assms(1) that by (simp add: linked_def)
  have lk: "port_linked s a p" if "ops a = Some p" for a p using assms(1) that by (simp add: linked_def)
  have old: "port_linked s1 a p" if "ops a = Some p" "port_aux (port_at s i) \<noteq> Some a" for a p
    using lk [OF that(1)] that(2) by (cases "op_stp_port p") (auto simp: port_linked_def assms(3))
  show ?thesis
  proof (cases "port_aux (port_at s i)")
    case None
    then show ?thesis using assms(4) bk old by (simp add: linked_def aux)
  next
    case (Some a)
    then obtain p p' where p: "ops a = Some p" "ops' = ops(a \<mapsto> p')" "op_stp_port p' = op_stp_port p"
      "op_stp_state p' = (case op_stp_port p of None \<Rightarrow> STP_DISABLED | Some k \<Rightarrow> port_state (port_at s1 k))"
      using assms(4) by auto
    have "op_stp_port p = Some i" using bk [OF assms(2) Some] p(1) by auto
    moreover have "port_linked s a p" by (rule lk [OF p(1)])
    ultimately have "port_linked s1 a p'" using p(3,4) by (simp add: port_linked_def assms(3))
    moreover have "\<exists>p'. ops' b = Some p' \<and> op_stp_port p' = Some j" if "j < STP_MAX_PORTS" "port_aux (port_at s1 j) = Some b" for j b
      using bk [OF that(1), of b] that(2) p(1-3) by (auto simp: aux)
    ultimately show ?thesis using old p(2) Some by (auto simp: linked_def)
  qed
qed

lemma round_ok:
  assumes "od_inv t od" and "od_stp od = Some s" and "stp_get_changed_port s = (Some i, s1)"
  shows "\<exists>od'. (case port_aux (port_at s1 i) of None \<Rightarrow> Some (od\<lparr>od_stp := Some s1\<rparr>)
      | Some a \<Rightarrow> update_stp_port_state now (od\<lparr>od_stp := Some s1\<rparr>) a) = Some od' \<and> od_inv t od' \<and>
    od_stp od' = Some s1 \<and> stp_last_tick od' = stp_last_tick od"
proof -
  let ?od = "od\<lparr>od_stp := Some s1\<rparr>"
  have inv: "stp_inv s" "linked s (ofports od)" "bundles_ok ?od" "ml_state_ok (t, od_ml ?od)"
    using assms(1,2) by (simp_all add: od_inv_def)
  note cs = changed_step [OF inv(1) assms(3)]
  have i: "i < STP_MAX_PORTS" and at: "\<And>j. port_at s1 j = (if j = i then (port_at s i)\<lparr>state_changed := False\<rparr> else port_at s j)"
    using cs(3) by simp_all
  note round = linked_round [OF inv(2) i at]
  show ?thesis
  proof (cases "port_aux (port_at s i)")
    case None
    then have "linked s1 (ofports od)" using round [of "ofports od"] by simp
    then show ?thesis using assms(1) cs(1) None by (simp add: at od_inv_def)
  next
    case (Some a)
    then obtain p where p: "ofports od a = Some p" using inv(2) i unfolding linked_def by blast
    then obtain od' where u: "update_stp_port_state now ?od a = Some od'" "updates_port t a p ?od od'"
      using update_ok [OF _ inv(3,4), of a p] by auto
    then obtain p' where p': "ofports od' = (ofports od)(a \<mapsto> p')" "op_stp_port p' = op_stp_port p"
      "op_stp_state p' = current_stp_state ?od p" by (auto simp: updates_port_def)
    have "op_stp_state p' = (case op_stp_port p of None \<Rightarrow> STP_DISABLED | Some k \<Rightarrow> port_state (port_at s1 k))"
      unfolding p'(3) by (simp add: current_stp_state_def split: option.split)
    then have "linked s1 (ofports od')" by (intro round) (use p p'(1,2) in \<open>simp add: Some, blast\<close>)
    moreover have "dom (ofports od') = dom (ofports od)" using p by (auto simp: p'(1))
    ultimately have "od_inv t od'" using u(2) assms(1) cs(1) by (simp add: updates_port_def od_inv_def)
    then show ?thesis using u Some by (simp add: at updates_port_def)
  qed
qed

lemma loop_ok:
  assumes "od_inv t od" and "od_stp od = Some s"
  shows "\<exists>od' s'. changed_ports_loop now od = Some od' \<and> od_inv t od' \<and> od_stp od' = Some s' \<and> stp_last_tick od' = stp_last_tick od \<and>
    (\<forall>i < STP_MAX_PORTS. \<not> state_changed (port_at s' i) \<and> port_state (port_at s' i) = port_state (port_at s i)) \<and>
    fdb_needs_flush s' = fdb_needs_flush s"
  using assms
proof (induction now od arbitrary: s rule: changed_ports_loop.induct)
  case (1 now od)
  note st = "1.prems"(2)
  have inv: "stp_inv s" "linked s (ofports od)" "bundles_ok od" "ml_state_ok (t, od_ml od)"
    using "1.prems" by (simp_all add: od_inv_def)
  obtain q s1 where c: "stp_get_changed_port s = (q, s1)" by fastforce
  note cs = changed_step [OF inv(1) c]
  show ?case
  proof (cases q)
    case None
    have same: "port_at s1 j = port_at s j" for j using cs(3) None by simp
    have "port_linked s1 a p = port_linked s a p" for a p by (cases "op_stp_port p") (simp_all add: port_linked_def same)
    then have "linked s1 (ofports od)" using inv(2) by (simp add: linked_def same)
    then have "od_inv t (od\<lparr>od_stp := Some s1\<rparr>)" using "1.prems" cs(1) by (simp add: od_inv_def)
    moreover have "changed_ports_loop now od = Some (od\<lparr>od_stp := Some s1\<rparr>)"
      by (subst changed_ports_loop.simps) (simp add: st c None)
    ultimately show ?thesis using cs None by simp
  next
    case (Some i)
    have at: "\<And>j. port_at s1 j = (if j = i then (port_at s i)\<lparr>state_changed := False\<rparr> else port_at s j)"
      using cs(3) Some by simp
    obtain od1 where od1: "(case port_aux (port_at s1 i) of None \<Rightarrow> Some (od\<lparr>od_stp := Some s1\<rparr>)
      | Some a \<Rightarrow> update_stp_port_state now (od\<lparr>od_stp := Some s1\<rparr>) a) = Some od1" "od_inv t od1" "od_stp od1 = Some s1"
      "stp_last_tick od1 = stp_last_tick od"
      using round_ok [OF "1.prems" c [unfolded Some]] by blast
    have "changed_ports_loop now od = changed_ports_loop now od1"
      by (subst changed_ports_loop.simps) (simp add: st c Some od1(1))
    moreover have "port_state (port_at s1 j) = port_state (port_at s j)" for j by (simp add: at)
    ultimately show ?thesis using "1.IH" [OF st c [symmetric] Some od1(1,2,3)] cs(2) od1(4) by simp
  qed
qed

section \<open>Configuration keeps the invariant\<close>

text \<open>The STP ports in \<open>I\<close> are given new roles for the port at \<open>a\<close>.\<close>

lemma linked_set:
  assumes "linked s ops" and "ops a = Some p"
    and keep: "\<And>j. j < STP_MAX_PORTS \<Longrightarrow> j \<notin> I \<Longrightarrow> port_tracks (port_at s j) (port_at t j)"
    and others: "\<And>b q j. b \<noteq> a \<Longrightarrow> ops b = Some q \<Longrightarrow> op_stp_port q = Some j \<Longrightarrow> j \<notin> I"
    and inside: "\<And>j b. j < STP_MAX_PORTS \<Longrightarrow> j \<in> I \<Longrightarrow> port_aux (port_at t j) = Some b \<Longrightarrow> b = a \<and> op_stp_port p' = Some j"
    and outside: "\<And>j. op_stp_port p = Some j \<Longrightarrow> j \<in> I"
    and "port_linked t a p'"
  shows "linked t (ops(a \<mapsto> p'))"
proof -
  have bk: "\<exists>q. ops b = Some q \<and> op_stp_port q = Some j" if "j < STP_MAX_PORTS" "port_aux (port_at s j) = Some b" for j b
    using assms(1) that by (simp add: linked_def)
  have "\<exists>q. (ops(a \<mapsto> p')) b = Some q \<and> op_stp_port q = Some j"
    if j: "j < STP_MAX_PORTS" and "port_aux (port_at t j) = Some b" for j b
  proof (cases "j \<in> I")
    case True
    then show ?thesis using inside that by fastforce
  next
    case False
    then have "port_aux (port_at s j) = Some b" using keep [OF j] that(2) by (simp add: port_tracks_def)
    then obtain q where q: "ops b = Some q" "op_stp_port q = Some j" using bk [OF j] by blast
    then have "b \<noteq> a" using outside False assms(2) by auto
    then show ?thesis using q by simp
  qed
  moreover have "port_linked t b q" if "(ops(a \<mapsto> p')) b = Some q" for b q
  proof (cases "b = a")
    case False
    then have q: "ops b = Some q" using that by simp
    then have "port_linked s b q" using assms(1) by (simp add: linked_def)
    then show ?thesis by (rule port_linked_tracks) (use keep others False q in blast)
  qed (use that assms(7) in simp)
  ultimately show ?thesis unfolding linked_def by blast
qed

text \<open>The end of \<^verbatim>\<open>set_stp_port\<close>: the port has its new STP port, or none, and takes over its state.\<close>

lemma set_port_ok:
  assumes inv: "od_inv t od" and st: "od_stp od = Some s" and p: "ofports od a = Some p" and s': "stp_inv s'"
    and keep: "\<And>j. j < STP_MAX_PORTS \<Longrightarrow> j \<notin> I \<Longrightarrow> port_tracks (port_at s j) (port_at s' j)"
    and others: "\<And>b q j. b \<noteq> a \<Longrightarrow> ofports od b = Some q \<Longrightarrow> op_stp_port q = Some j \<Longrightarrow> j \<notin> I"
    and inside: "\<And>j b. j < STP_MAX_PORTS \<Longrightarrow> j \<in> I \<Longrightarrow> port_aux (port_at s' j) = Some b \<Longrightarrow> b = a \<and> new = Some j"
    and outside: "\<And>j. op_stp_port p = Some j \<Longrightarrow> j \<in> I"
    and new: "\<And>j. new = Some j \<Longrightarrow> j < STP_MAX_PORTS \<and> port_aux (port_at s' j) = Some a \<and> port_state (port_at s' j) \<noteq> STP_DISABLED"
  shows "\<exists>od'. update_stp_port_state now (od\<lparr>ofports := (ofports od)(a \<mapsto> p\<lparr>op_stp_port := new\<rparr>), od_stp := Some s'\<rparr>) a = Some od' \<and>
    od_inv t od' \<and> od_stp od' = Some s' \<and>
    (\<exists>p'. ofports od' = (ofports od)(a \<mapsto> p') \<and> op_stp_port p' = new \<and>
       op_stp_state p' = (case new of None \<Rightarrow> STP_DISABLED | Some j \<Rightarrow> port_state (port_at s' j))) \<and>
    port_order od' = port_order od"
proof -
  let ?p = "p\<lparr>op_stp_port := new\<rparr>"
  let ?od = "od\<lparr>ofports := (ofports od)(a \<mapsto> ?p), od_stp := Some s'\<rparr>"
  have i: "bundles_ok od" "ml_state_ok (t, od_ml ?od)" "linked s (ofports od)"
    "set (port_order od) = dom (ofports od)" "distinct (port_order od)" using inv st by (simp_all add: od_inv_def)
  have b: "bundles_ok ?od" by (rule bundles_ok_upd [OF i(1) p, of ?p]) (simp_all add: port_floods_def)
  have o: "ofports ?od a = Some ?p" by simp
  obtain od' where u: "update_stp_port_state now ?od a = Some od'" "updates_port t a ?p ?od od'"
    by (rule update_ok [OF o b i(2)])
  then obtain p' where p': "ofports od' = (ofports od)(a \<mapsto> p')" "op_stp_port p' = new"
    "op_stp_state p' = current_stp_state ?od ?p" by (auto simp: updates_port_def)
  have c: "op_stp_state p' = (case new of None \<Rightarrow> STP_DISABLED | Some j \<Rightarrow> port_state (port_at s' j))"
    unfolding p'(3) by (simp add: current_stp_state_def split: option.split)
  have "port_linked s' a p'" using c new by (simp add: port_linked_def p'(2) split: option.split)
  then have "linked s' (ofports od')" unfolding p'(1)
    by (intro linked_set [where I = I, OF i(3) p keep others _ outside]) (use inside p'(2) in auto)
  moreover have "dom (ofports od') = dom (ofports od)" using p by (auto simp: p'(1))
  ultimately have "od_inv t od'" using u(2) i s' by (simp add: od_inv_def updates_port_def)
  then show ?thesis using u p' c by (auto simp: updates_port_def)
qed

lemma unset_stp_port_ok:
  assumes inv: "od_inv t od" and p: "ofports od a = Some p" and st: "case x of None \<Rightarrow> True | Some y \<Rightarrow> \<not> ps_enable y"
  shows "\<exists>od'. set_stp_port now od a x = Some od' \<and> od_inv t od' \<and> (od_stp od' = None) = (od_stp od = None) \<and>
    port_order od' = port_order od \<and>
    (\<exists>p'. ofports od' = (ofports od)(a \<mapsto> p') \<and> op_stp_port p' = None \<and> op_stp_state p' = STP_DISABLED)"
proof (cases "op_stp_port p")
  case None
  have "op_stp_state p = STP_DISABLED"
    using inv p None linkedD [of _ "ofports od" a p] by (cases "od_stp od") (auto simp: od_inv_def port_linked_def)
  then show ?thesis using p st None inv by (auto simp: set_stp_port_def fun_eq_iff intro!: exI [of _ p])
next
  case (Some i)
  then obtain s where s: "od_stp od = Some s" "stp_inv s" "linked s (ofports od)"
    using inv p by (auto simp: od_inv_def split: option.splits)
  then have i: "i < STP_MAX_PORTS" "port_aux (port_at s i) = Some a" "port_state (port_at s i) \<noteq> STP_DISABLED"
    using linkedD [OF s(3) p] Some by (simp_all add: port_linked_def)
  have l: "length (ports s) = STP_MAX_PORTS" using s(2) by (simp add: stp_inv_def ports_ok_def)
  note d = disable_effect [of i s, unfolded l, OF i(1,3)]
  have o: "j \<noteq> i" if "b \<noteq> a" "ofports od b = Some q" "op_stp_port q = Some j" for b q j
    using that linkedD [OF s(3) that(2)] i(2) by (auto simp: port_linked_def)
  have "set_stp_port now od a x = update_stp_port_state now
    (od\<lparr>ofports := (ofports od)(a \<mapsto> p\<lparr>op_stp_port := None\<rparr>), od_stp := Some (stp_port_disable s i)\<rparr>) a"
    using p st Some s(1) by (simp add: set_stp_port_def)
  then show ?thesis
    using set_port_ok [where I = "{i}" and new = None and now = now, OF inv s(1) p port_disable_inv [OF s(2) i(1)]] d o Some s(1)
    by fastforce
qed

lemma enable_any:
  assumes "stp_inv s" and "i < STP_MAX_PORTS"
  shows "\<exists>s'. stp_port_enable s i = Some s' \<and> stp_inv s' \<and> port_state (port_at s' i) \<noteq> STP_DISABLED \<and>
    (\<forall>j < STP_MAX_PORTS. j \<noteq> i \<longrightarrow> port_tracks (port_at s j) (port_at s' j)) \<and>
    (port_state (port_at s i) = STP_DISABLED \<longrightarrow> state_changed (port_at s' i))"
proof (cases "port_state (port_at s i) = STP_DISABLED")
  case True
  have l: "length (ports s) = STP_MAX_PORTS" using assms(1) by (simp add: stp_inv_def ports_ok_def)
  obtain s' where "stp_port_enable s i = Some s'" "port_state (port_at s' i) \<noteq> STP_DISABLED" "state_changed (port_at s' i)"
    "\<And>j. j < STP_MAX_PORTS \<Longrightarrow> j \<noteq> i \<Longrightarrow> port_tracks (port_at s j) (port_at s' j)"
    using enable_effect [of i s, unfolded l, OF assms(2) True] by metis
  then show ?thesis using port_enable_inv [OF assms] by auto
qed (use assms(1) in \<open>simp add: stp_port_enable_def\<close>)

text \<open>The first step of \<^verbatim>\<open>set_stp_port\<close>: a port that had another number gives up its STP port.\<close>

lemma give_up_ok:
  assumes "stp_inv s" and "linked s ops" and "ops a = Some p"
    and s1: "s1 = (case op_stp_port p of Some sp \<Rightarrow> if sp \<noteq> n \<and> port_aux (port_at s sp) = Some a then stp_port_disable s sp else s
      | None \<Rightarrow> s)"
  shows "stp_inv s1" and "\<And>j. j < STP_MAX_PORTS \<Longrightarrow> op_stp_port p \<noteq> Some j \<Longrightarrow> port_tracks (port_at s j) (port_at s1 j)"
    and "\<And>j. op_stp_port p = Some j \<Longrightarrow> j \<noteq> n \<Longrightarrow> port_aux (port_at s1 j) = None"
proof -
  have i: "i < STP_MAX_PORTS" "port_aux (port_at s i) = Some a" "port_state (port_at s i) \<noteq> STP_DISABLED" if "op_stp_port p = Some i" for i
    using linkedD [OF assms(2,3)] that by (simp_all add: port_linked_def)
  have l: "length (ports s) = STP_MAX_PORTS" using assms(1) by (simp add: stp_inv_def ports_ok_def)
  note d = disable_effect [of _ s, unfolded l, OF i(1,3)]
  show "stp_inv s1" using assms(1) port_disable_inv [OF assms(1) i(1)] by (simp add: s1 split: option.split)
  show "port_tracks (port_at s j) (port_at s1 j)" if "j < STP_MAX_PORTS" "op_stp_port p \<noteq> Some j" for j
    using d(4) that by (auto simp: s1 split: option.split)
  show "port_aux (port_at s1 j) = None" if "op_stp_port p = Some j" "j \<noteq> n" for j
    using that d(2) i(2) by (simp add: s1)
qed

definition number_free :: "ofproto_dpif \<Rightarrow> nat \<Rightarrow> nat \<Rightarrow> bool" where
  "number_free od a n \<longleftrightarrow> (\<forall>b q. ofports od b = Some q \<longrightarrow> b \<noteq> a \<longrightarrow> op_stp_port q \<noteq> Some n)"

lemma set_stp_port_eq:
  assumes "ofports od a = Some p" and "od_stp od = Some s" and "ps_enable x"
    and "s1 = (case op_stp_port p of Some sp \<Rightarrow> if sp \<noteq> unat (ps_port_num x) \<and> port_aux (port_at s sp) = Some a
      then stp_port_disable s sp else s | None \<Rightarrow> s)"
    and "stp_get_port s1 (uint (ps_port_num x)) = Some n" and "stp_port_enable s1 n = Some s2"
  shows "set_stp_port now od a (Some x) = update_stp_port_state now
    (od\<lparr>ofports := (ofports od)(a \<mapsto> p\<lparr>op_stp_port := Some n\<rparr>),
      od_stp := Some (stp_port_set_path_cost (stp_port_set_priority (stp_port_set_aux s2 n (Some a)) n (ps_priority x)) n
        (ps_path_cost x))\<rparr>) a"
  using assms(1-3,5,6) unfolding set_stp_port_def Let_def option.sel by (simp add: assms(4) [symmetric])

lemma set_stp_port_ok:
  assumes inv: "od_inv t od" and st: "od_stp od = Some s" and p: "ofports od a = Some p" and x: "ps_enable x"
    and n: "unat (ps_port_num x) < STP_MAX_PORTS" and free: "number_free od a (unat (ps_port_num x))"
  shows "\<exists>od' s'. set_stp_port now od a (Some x) = Some od' \<and> od_inv t od' \<and> od_stp od' = Some s' \<and>
    (port_state (port_at s (unat (ps_port_num x))) = STP_DISABLED \<longrightarrow> state_changed (port_at s' (unat (ps_port_num x)))) \<and>
    (\<exists>p'. ofports od' = (ofports od)(a \<mapsto> p') \<and> op_stp_port p' = Some (unat (ps_port_num x)))"
proof -
  define n where "n = unat (ps_port_num x)"
  note n = n [folded n_def] and free = free [folded n_def]
  define s1 where "s1 = (case op_stp_port p of Some sp \<Rightarrow> if sp \<noteq> n \<and> port_aux (port_at s sp) = Some a then stp_port_disable s sp else s
    | None \<Rightarrow> s)"
  have s: "stp_inv s" "linked s (ofports od)" using inv st by (simp_all add: od_inv_def)
  note g = give_up_ok [OF s p s1_def]
  obtain s2 where s2: "stp_port_enable s1 n = Some s2" "stp_inv s2" "port_state (port_at s2 n) \<noteq> STP_DISABLED"
    "\<And>j. j < STP_MAX_PORTS \<Longrightarrow> j \<noteq> n \<Longrightarrow> port_tracks (port_at s1 j) (port_at s2 j)"
    "port_state (port_at s1 n) = STP_DISABLED \<Longrightarrow> state_changed (port_at s2 n)"
    using enable_any [OF g(1) n] by blast
  define s3 where "s3 = stp_port_set_aux s2 n (Some a)"
  define s5 where "s5 = stp_port_set_path_cost (stp_port_set_priority s3 n (ps_priority x)) n (ps_path_cost x)"
  have l: "length (ports s2) = STP_MAX_PORTS" using s2(2) by (simp add: stp_inv_def ports_ok_def)
  have at3: "port_at s3 j = (if j = n then (port_at s2 n)\<lparr>port_aux := Some a\<rparr> else port_at s2 j)" for j
    using n l by (simp add: s3_def stp_port_set_aux_def port_at_set_port)
  have inv3: "stp_inv s3" unfolding s3_def by (rule stp_inv_core [OF timer_setters_core(5) s2(2)])
  have inv5: "stp_inv s5" unfolding s5_def using inv3 n by (simp add: set_priority_inv set_path_cost_inv)
  have "tracks s3 s5" unfolding s5_def by (intro tracks_settings tracks_refl)
  then have t5: "port_tracks (port_at s3 j) (port_at s5 j)" if "j < STP_MAX_PORTS" for j
    using tracksD(2) that inv3 by (simp add: stp_inv_def ports_ok_def)
  have n5: "port_aux (port_at s5 n) = Some a" "port_state (port_at s5 n) \<noteq> STP_DISABLED"
    using t5 [OF n] s2(3) by (simp_all add: port_tracks_def at3)
  let ?I = "insert n (set_option (op_stp_port p))"
  have keep: "port_tracks (port_at s j) (port_at s5 j)" if "j < STP_MAX_PORTS" "j \<notin> ?I" for j
  proof -
    have j: "op_stp_port p \<noteq> Some j" "j \<noteq> n" using that(2) by auto
    have "port_tracks (port_at s2 j) (port_at s5 j)" using t5 [OF that(1)] j(2) by (simp add: at3)
    with port_tracks_trans [OF g(2) [OF that(1) j(1)] s2(4) [OF that(1) j(2)]] show ?thesis by (rule port_tracks_trans)
  qed
  have others: "j \<notin> ?I" if "b \<noteq> a" "ofports od b = Some q" "op_stp_port q = Some j" for b q j
    using that free linkedD [OF s(2) that(2)] linkedD [OF s(2) p] by (auto simp: number_free_def port_linked_def)
  have inside: "b = a \<and> Some n = Some j" if "j < STP_MAX_PORTS" "j \<in> ?I" "port_aux (port_at s5 j) = Some b" for j b
    using that n5(1) g(3) [of j] s2(4) [OF that(1)] t5 [OF that(1)] by (cases "j = n") (auto simp: port_tracks_def at3)
  have "uint (ps_port_num x) = int n" by (simp add: n_def)
  then have g1: "stp_get_port s1 (uint (ps_port_num x)) = Some n" using n by (simp add: stp_get_port_def)
  have eq: "set_stp_port now od a (Some x) = update_stp_port_state now
    (od\<lparr>ofports := (ofports od)(a \<mapsto> p\<lparr>op_stp_port := Some n\<rparr>), od_stp := Some s5\<rparr>) a"
    unfolding s5_def s3_def by (rule set_stp_port_eq [OF p st x s1_def [unfolded n_def] g1 s2(1)])
  have outside: "j \<in> ?I" if "op_stp_port p = Some j" for j using that by simp
  have new: "j < STP_MAX_PORTS \<and> port_aux (port_at s5 j) = Some a \<and> port_state (port_at s5 j) \<noteq> STP_DISABLED" if "Some n = Some j" for j
    using that n n5 by simp
  let ?od = "od\<lparr>ofports := (ofports od)(a \<mapsto> p\<lparr>op_stp_port := Some n\<rparr>), od_stp := Some s5\<rparr>"
  have "\<exists>od'. update_stp_port_state now ?od a = Some od' \<and> od_inv t od' \<and> od_stp od' = Some s5 \<and>
    (\<exists>p'. ofports od' = (ofports od)(a \<mapsto> p') \<and> op_stp_port p' = Some n \<and>
       op_stp_state p' = (case Some n of None \<Rightarrow> STP_DISABLED | Some j \<Rightarrow> port_state (port_at s5 j))) \<and>
    port_order od' = port_order od"
    by (rule set_port_ok [OF inv st p inv5]; (erule (1) keep | erule (2) others | erule (2) inside | erule outside | erule new))
  then obtain od' p' where "set_stp_port now od a (Some x) = Some od'" "od_inv t od'" "od_stp od' = Some s5"
    "ofports od' = (ofports od)(a \<mapsto> p')" "op_stp_port p' = Some n" unfolding eq by blast
  moreover have "state_changed (port_at s5 n)" if "port_state (port_at s n) = STP_DISABLED"
  proof -
    have "op_stp_port p \<noteq> Some n" using linkedD [OF s(2) p] that by (auto simp: port_linked_def)
    then have "port_state (port_at s1 n) = STP_DISABLED" using g(2) [OF n] that by (simp add: port_tracks_def)
    then show ?thesis using s2(5) t5 [OF n] by (simp add: port_tracks_def at3)
  qed
  ultimately show ?thesis unfolding n_def by blast
qed

end
