(* ===== verification/Ofproto_Bridge.thy ===== *)
theory Ofproto_Bridge
  imports Ofproto_Stp
begin

text \<open>
  A bridge as a system: the operations of \<^verbatim>\<open>ofproto/ofproto-dpif.c\<close> and \<^verbatim>\<open>ofproto/ofproto.c\<close> on bundles and
  port configuration, the steps of a bridge with STP and MAC learning, and what holds in every state it
  reaches. LACP and bonds of a bundle, mirrors, and the other bridges of the datapath are left out.
\<close>

section \<open>Bundles and port configuration\<close>

definition OFPUTIL_PC_PORT_DOWN :: u32 where "OFPUTIL_PC_PORT_DOWN = 0x01"

definition OFPUTIL_PC_NO_RECV :: u32 where "OFPUTIL_PC_NO_RECV = 0x04"

definition OFPUTIL_PC_NO_RECV_STP :: u32 where "OFPUTIL_PC_NO_RECV_STP = 0x08"

definition OFPUTIL_PC_NO_FWD :: u32 where "OFPUTIL_PC_NO_FWD = 0x20"

definition OFPUTIL_PC_NO_PACKET_IN :: u32 where "OFPUTIL_PC_NO_PACKET_IN = 0x40"

definition bundle_flush_macs :: "ofproto_dpif \<Rightarrow> nat \<Rightarrow> ofproto_dpif" where
  "bundle_flush_macs od b =
     od\<lparr>backer_need_revalidate := REV_RECONFIGURE,
        od_ml := foldl (\<lambda>ml e. if port (entry ml e) = Some b then mac_learning_expire ml e else ml) (od_ml od) (lrus (od_ml od))\<rparr>"

definition bundle_del_port :: "ofproto_dpif \<Rightarrow> nat \<Rightarrow> ofproto_dpif option" where
  "bundle_del_port od a =
     (case ofports od a of
        None \<Rightarrow> None
      | Some p \<Rightarrow>
          (case op_bundle p of
             None \<Rightarrow> None
           | Some b \<Rightarrow>
               (case ofbundles od b of
                  None \<Rightarrow> None
                | Some bd \<Rightarrow>
                    bundle_update
                      (od\<lparr>backer_need_revalidate := REV_RECONFIGURE,
                          ofports := (ofports od)(a \<mapsto> p\<lparr>op_bundle := None\<rparr>),
                          ofbundles := (ofbundles od)(b \<mapsto> bd\<lparr>bundle_ports := remove1 a (bundle_ports bd)\<rparr>)\<rparr>) b)))"

definition bundle_destroy :: "ofproto_dpif \<Rightarrow> nat \<Rightarrow> ofproto_dpif option" where
  "bundle_destroy od b =
     (case ofbundles od b of
        None \<Rightarrow> None
      | Some bd \<Rightarrow>
          map_option (\<lambda>od1. let od2 = bundle_flush_macs od1 b in od2\<lparr>ofbundles := (ofbundles od2)(b := None)\<rparr>)
            (foldl (\<lambda>o1 a. case o1 of None \<Rightarrow> None | Some od1 \<Rightarrow> bundle_del_port od1 a) (Some od) (bundle_ports bd)))"

definition bundle_remove :: "ofproto_dpif \<Rightarrow> nat \<Rightarrow> ofproto_dpif option" where
  "bundle_remove od a =
     (case ofports od a of
        None \<Rightarrow> None
      | Some p \<Rightarrow>
          (case op_bundle p of
             None \<Rightarrow> Some od
           | Some b \<Rightarrow>
               (case bundle_del_port od a of
                  None \<Rightarrow> None
                | Some od1 \<Rightarrow>
                    (case ofbundles od1 b of
                       None \<Rightarrow> None
                     | Some bd \<Rightarrow> if bundle_ports bd = [] then bundle_destroy od1 b else Some od1))))"

text \<open>The port is given by its address, or \<open>None\<close> when no port has the OpenFlow port number.\<close>

definition bundle_add_port :: "ofproto_dpif \<Rightarrow> nat \<Rightarrow> nat option \<Rightarrow> (bool \<times> ofproto_dpif) option" where
  "bundle_add_port od b ofport =
     (case ofport of
        None \<Rightarrow> Some (False, od)
      | Some a \<Rightarrow>
          (case ofports od a of
             None \<Rightarrow> None
           | Some p \<Rightarrow>
               if op_bundle p \<noteq> Some b then
                 (case (if op_bundle p \<noteq> None then bundle_remove (od\<lparr>backer_need_revalidate := REV_RECONFIGURE\<rparr>) a
                        else Some (od\<lparr>backer_need_revalidate := REV_RECONFIGURE\<rparr>)) of
                    None \<Rightarrow> None
                  | Some od1 \<Rightarrow>
                      (case (ofports od1 a, ofbundles od1 b) of
                         (Some p1, Some bd) \<Rightarrow>
                           Some (True, od1\<lparr>ofports := (ofports od1)(a \<mapsto> p1\<lparr>op_bundle := Some b\<rparr>),
                             ofbundles := (ofbundles od1)(b \<mapsto> bd\<lparr>bundle_ports := bundle_ports bd @ [a],
                               floodable := (if pp_config p1 AND OFPUTIL_PC_NO_FLOOD \<noteq> 0 \<or>
                                 \<not> stp_forward_in_state (op_stp_state p1) then False else floodable bd)\<rparr>)\<rparr>)
                       | _ \<Rightarrow> None))
               else Some (True, od)))"

definition port_reconfigured :: "ofproto_dpif \<Rightarrow> nat \<Rightarrow> u32 \<Rightarrow> ofproto_dpif option" where
  "port_reconfigured od a old_config =
     (case ofports od a of
        None \<Rightarrow> None
      | Some p \<Rightarrow>
          let changed = old_config XOR pp_config p in
          if changed AND (OFPUTIL_PC_NO_RECV OR OFPUTIL_PC_NO_RECV_STP OR OFPUTIL_PC_NO_FWD OR OFPUTIL_PC_NO_FLOOD OR
               OFPUTIL_PC_NO_PACKET_IN) \<noteq> 0
          then
            let od1 = od\<lparr>backer_need_revalidate := REV_RECONFIGURE\<rparr>
            in if changed AND OFPUTIL_PC_NO_FLOOD \<noteq> 0 \<and> op_bundle p \<noteq> None then bundle_update od1 (the (op_bundle p)) else Some od1
          else Some od)"

text \<open>Turning the network device on and off is left out; the bit for it never changes here.\<close>

definition update_port_config :: "ofproto_dpif \<Rightarrow> nat \<Rightarrow> u32 \<Rightarrow> u32 \<Rightarrow> ofproto_dpif option" where
  "update_port_config od a config cmask =
     (case ofports od a of
        None \<Rightarrow> None
      | Some p \<Rightarrow>
          let old_config = pp_config p;
              toggle = (config XOR old_config) AND cmask;
              toggle1 = (if toggle AND OFPUTIL_PC_PORT_DOWN \<noteq> 0 then toggle AND NOT OFPUTIL_PC_PORT_DOWN else toggle);
              new_config = old_config XOR toggle1;
              od1 = od\<lparr>ofports := (ofports od)(a \<mapsto> p\<lparr>pp_config := new_config\<rparr>)\<rparr>
          in if new_config \<noteq> old_config then port_reconfigured od1 a old_config else Some od1)"

text \<open>
  \<^verbatim>\<open>ofproto_port_unregister\<close> for a port that exists, and \<^verbatim>\<open>ofport_destroy\<close>: \<^verbatim>\<open>port_destruct\<close> removes the
  port from its bundle but does not tell STP.
\<close>

definition ofproto_port_unregister :: "int \<Rightarrow> ofproto_dpif \<Rightarrow> nat \<Rightarrow> ofproto_dpif option" where
  "ofproto_port_unregister now od a =
     (case set_stp_port now od a None of None \<Rightarrow> None | Some od1 \<Rightarrow> bundle_remove od1 a)"

definition port_destruct :: "ofproto_dpif \<Rightarrow> nat \<Rightarrow> ofproto_dpif option" where
  "port_destruct od a = bundle_remove (od\<lparr>backer_need_revalidate := REV_RECONFIGURE\<rparr>) a"

definition ofport_destroy :: "ofproto_dpif \<Rightarrow> nat \<Rightarrow> ofproto_dpif option" where
  "ofport_destroy od a =
     map_option (\<lambda>od1. od1\<lparr>ofports := (ofports od1)(a := None), port_order := remove1 a (port_order od1)\<rparr>) (port_destruct od a)"

text \<open>
  A new port gets \<open>pp\<close> from its network device; \<open>order\<close> is the order of the ports after \<^verbatim>\<open>hmap_insert\<close>, and \<open>error\<close> is what
  asking the datapath about the port gives. A new bundle has no ports yet and is flooded to.
\<close>

definition port_construct :: "int \<Rightarrow> ofproto_dpif \<Rightarrow> nat \<Rightarrow> (int \<times> ofproto_dpif) option" where
  "port_construct error od a =
     map_option (\<lambda>p. (error, od\<lparr>backer_need_revalidate := REV_RECONFIGURE,
         ofports := (ofports od)(a \<mapsto> p\<lparr>op_bundle := None, op_stp_port := None, op_stp_state := STP_DISABLED\<rparr>)\<rparr>))
       (ofports od a)"

definition ofport_install :: "int \<Rightarrow> ofproto_dpif \<Rightarrow> nat \<Rightarrow> ofport_dpif \<Rightarrow> nat list \<Rightarrow> ofproto_dpif option" where
  "ofport_install error od a pp order =
     map_option (\<lambda>(error, od1).
         if error \<noteq> 0 then od1\<lparr>ofports := (ofports od1)(a := None), port_order := remove1 a (port_order od1)\<rparr>
         else od1\<lparr>port_status_msgs := port_status_msgs od1 @ [(a, pp_state pp)]\<rparr>)
       (port_construct error (od\<lparr>ofports := (ofports od)(a \<mapsto> pp), port_order := order\<rparr>) a)"

definition bundle_create :: "ofproto_dpif \<Rightarrow> nat \<Rightarrow> ofproto_dpif" where
  "bundle_create od b =
     (if ofbundles od b = None then od\<lparr>ofbundles := (ofbundles od)(b \<mapsto> \<lparr>bundle_ports = [], floodable = True\<rparr>)\<rparr> else od)"

definition xport_stp_port_no :: "ofport_dpif \<Rightarrow> int" where
  "xport_stp_port_no p = (case op_stp_port p of Some i \<Rightarrow> int i | None \<Rightarrow> -1)"

section \<open>Every operation keeps the invariant\<close>

lemma expire_all_ok:
  assumes "ml_state_ok (t, ml)" and "set es \<subseteq> set (lrus ml)" and "distinct es"
  shows "ml_state_ok (t, foldl (\<lambda>ml e. if c ml e then mac_learning_expire ml e else ml) ml es)"
  using assms
proof (induction es arbitrary: ml)
  case (Cons e es)
  have "set es \<subseteq> set (lrus (mac_learning_expire ml e))" using Cons.prems(2,3)
    by (auto simp: mac_learning_expire_def) (metis in_set_remove1 subsetD)
  moreover have "ml_state_ok (t, mac_learning_expire ml e)"
    by (rule ml_step_ok [OF ml_step.step_expire Cons.prems(1)]) (use Cons.prems(2) in simp)
  ultimately show ?case using Cons by auto
qed simp

lemma flush_macs_ok: "ml_state_ok (t, od_ml od) \<Longrightarrow> ml_state_ok (t, od_ml (bundle_flush_macs od b))"
proof -
  assume ok: "ml_state_ok (t, od_ml od)"
  then have "ml_inv t (od_ml od)" by (simp add: ml_state_ok_def)
  from ml_wfD(2) [OF ml_invD(1) [OF this]] show ?thesis
    using expire_all_ok [OF ok order.refl] by (simp add: bundle_flush_macs_def)
qed

lemma linked_upd:
  assumes "linked s ops" and "ops a = Some p" and "op_stp_port p' = op_stp_port p" and "op_stp_state p' = op_stp_state p"
  shows "linked s (ops(a \<mapsto> p'))"
proof -
  have "port_linked s b q = port_linked s b q'" if "op_stp_port q = op_stp_port q'" "op_stp_state q = op_stp_state q'" for b q q'
    using that by (cases "op_stp_port q'") (simp_all add: port_linked_def)
  from this [OF assms(3,4)] show ?thesis using assms(1-3) by (fastforce simp: linked_def)
qed

lemma od_inv_upd:
  assumes "od_inv t od" and "ofports od a = Some p" and "op_stp_port p' = op_stp_port p" and "op_stp_state p' = op_stp_state p"
    and "ofports od' = (ofports od)(a \<mapsto> p')" and "od_stp od' = od_stp od" and "port_order od' = port_order od"
    and "ml_state_ok (t, od_ml od')" and "bundles_ok od'"
  shows "od_inv t od'"
proof -
  have "dom (ofports od') = dom (ofports od)" using assms(2) by (auto simp: assms(5))
  then show ?thesis using assms linked_upd [of _ "ofports od" a p p'] by (auto simp: od_inv_def split: option.splits)
qed

lemma bundle_update_shape:
  assumes "bundle_update od b = Some od'"
  obtains bd f where "ofbundles od b = Some bd" and "od' = od\<lparr>ofbundles := (ofbundles od)(b \<mapsto> bd\<lparr>floodable := f\<rparr>)\<rparr>"
  using assms by (auto simp: bundle_update_def split: option.splits)

text \<open>Taking a port out of its bundle.\<close>

lemma del_port_bundles:
  assumes "bundles_ok od" and p: "ofports od a = Some p" "op_bundle p = Some b" and bd: "ofbundles od b = Some bd"
    and od': "ofports od' = (ofports od)(a \<mapsto> p\<lparr>op_bundle := None\<rparr>)"
      "ofbundles od' = (ofbundles od)(b \<mapsto> bd\<lparr>bundle_ports := remove1 a (bundle_ports bd)\<rparr>)"
  shows "bundles_ok_except {b} od'"
proof (rule bundlesI; unfold od')
  note B = bundlesD [OF assms(1)]
  have mem: "c \<in> set (remove1 a (bundle_ports bd)) \<longleftrightarrow> c \<in> set (bundle_ports bd) \<and> c \<noteq> a" for c using B(2) [OF bd] by simp
  show "\<exists>bd'. ((ofbundles od)(b \<mapsto> bd\<lparr>bundle_ports := remove1 a (bundle_ports bd)\<rparr>)) e = Some bd' \<and> c \<in> set (bundle_ports bd')"
    if "((ofports od)(a \<mapsto> p\<lparr>op_bundle := None\<rparr>)) c = Some q" "op_bundle q = Some e" for c q e
    using that B(1) [of c q e] bd by (auto simp: mem split: if_splits)
  show "distinct (bundle_ports bd')"
    if "((ofbundles od)(b \<mapsto> bd\<lparr>bundle_ports := remove1 a (bundle_ports bd)\<rparr>)) e = Some bd'" for e bd'
    using that B(2) bd by (auto split: if_splits)
  show "\<exists>q. ((ofports od)(a \<mapsto> p\<lparr>op_bundle := None\<rparr>)) c = Some q \<and> op_bundle q = Some e"
    if "((ofbundles od)(b \<mapsto> bd\<lparr>bundle_ports := remove1 a (bundle_ports bd)\<rparr>)) e = Some bd'" "c \<in> set (bundle_ports bd')" for e bd' c
  proof (cases "e = b")
    case True
    then show ?thesis using that B(3) [OF bd, of c] by (auto simp: mem)
  next
    case False
    then have "\<exists>q. ofports od c = Some q \<and> op_bundle q = Some e" using that B(3) by simp
    then show ?thesis using p False by auto
  qed
  show "bundle_floodable ((ofports od)(a \<mapsto> p\<lparr>op_bundle := None\<rparr>)) (bundle_ports bd') = Some (floodable bd')"
    if "((ofbundles od)(b \<mapsto> bd\<lparr>bundle_ports := remove1 a (bundle_ports bd)\<rparr>)) e = Some bd'" "e \<notin> {b}" for e bd'
    using that B(4) [of e bd'] floodable_upd [of "ofports od" a p "bundle_ports bd'" "p\<lparr>op_bundle := None\<rparr>"] p(1) by (simp add: port_floods_def)
qed

lemma del_port_ok:
  assumes inv: "od_inv t od" and p: "ofports od a = Some p" "op_bundle p = Some b"
  obtains od' bd f where "bundle_del_port od a = Some od'" and "od_inv t od'" and "ofports od' = (ofports od)(a \<mapsto> p\<lparr>op_bundle := None\<rparr>)"
    and "ofbundles od b = Some bd" and "a \<in> set (bundle_ports bd)"
    and "ofbundles od' = (ofbundles od)(b \<mapsto> bd\<lparr>bundle_ports := remove1 a (bundle_ports bd), floodable := f\<rparr>)"
    and "od_stp od' = od_stp od"
proof -
  have i: "bundles_ok od" "ml_state_ok (t, od_ml od)" using inv by (simp_all add: od_inv_def)
  obtain bd where bd: "ofbundles od b = Some bd" "a \<in> set (bundle_ports bd)" using bundlesD(1) [OF i(1) p] by blast
  define od1 where "od1 = od\<lparr>backer_need_revalidate := REV_RECONFIGURE, ofports := (ofports od)(a \<mapsto> p\<lparr>op_bundle := None\<rparr>),
    ofbundles := (ofbundles od)(b \<mapsto> bd\<lparr>bundle_ports := remove1 a (bundle_ports bd)\<rparr>)\<rparr>"
  have eq: "bundle_del_port od a = bundle_update od1 b" using p bd by (simp add: bundle_del_port_def od1_def)
  have "bundles_ok_except {b} od1" by (rule del_port_bundles [OF i(1) p bd(1)]) (simp_all add: od1_def)
  then obtain od' where od': "bundle_update od1 b = Some od'" "bundles_ok od'"
    by (rule bundle_update_ok) (simp add: od1_def)
  obtain f where f: "od' = od1\<lparr>ofbundles := (ofbundles od1)(b \<mapsto> bd\<lparr>bundle_ports := remove1 a (bundle_ports bd), floodable := f\<rparr>)\<rparr>"
    by (rule bundle_update_shape [OF od'(1)]) (auto simp: od1_def)
  have "od_inv t od'" by (rule od_inv_upd [OF inv p(1), of "p\<lparr>op_bundle := None\<rparr>"]) (use i od' in \<open>simp_all add: f od1_def\<close>)
  then show ?thesis by (rule that [OF eq [unfolded od'(1)] _ _ bd, of f]) (simp_all add: f od1_def)
qed

lemma drop_bundle_ok:
  assumes "od_inv t od" and "ofbundles od b = Some bd" and "bundle_ports bd = []"
  shows "od_inv t (let od2 = bundle_flush_macs od b in od2\<lparr>ofbundles := (ofbundles od2)(b := None)\<rparr>)"
proof -
  have i: "bundles_ok od" "ml_state_ok (t, od_ml od)" using assms(1) by (simp_all add: od_inv_def)
  note B = bundlesD [OF i(1)]
  define od' where "od' = (let od2 = bundle_flush_macs od b in od2\<lparr>ofbundles := (ofbundles od2)(b := None)\<rparr>)"
  have od': "ofports od' = ofports od" "ofbundles od' = (ofbundles od)(b := None)" "od_stp od' = od_stp od" "port_order od' = port_order od"
    by (simp_all add: od'_def bundle_flush_macs_def)
  have m: "ml_state_ok (t, od_ml od')" using flush_macs_ok [OF i(2), of b] by (simp add: od'_def Let_def)
  have "bundles_ok od'"
  proof (rule bundlesI; unfold od')
    show "\<exists>bd'. ((ofbundles od)(b := None)) e = Some bd' \<and> c \<in> set (bundle_ports bd')" if "ofports od c = Some q" "op_bundle q = Some e" for c q e
      using B(1) [OF that] assms(2,3) by auto
  qed (use B(2-4) in \<open>auto split: if_splits\<close>)
  then have "od_inv t od'" using assms(1) m unfolding od_inv_def od' by blast
  then show ?thesis by (simp add: od'_def)
qed

lemma bundle_remove_ok:
  assumes inv: "od_inv t od" and p: "ofports od a = Some p"
  shows "\<exists>od'. bundle_remove od a = Some od' \<and> od_inv t od' \<and> ofports od' = (ofports od)(a \<mapsto> p\<lparr>op_bundle := None\<rparr>) \<and>
    od_stp od' = od_stp od \<and> (\<forall>c. op_bundle p \<noteq> Some c \<longrightarrow> ofbundles od' c = ofbundles od c)"
proof (cases "op_bundle p")
  case None
  then have "p\<lparr>op_bundle := None\<rparr> = p" by simp
  then show ?thesis using inv p None by (auto simp: bundle_remove_def)
next
  case (Some b)
  from del_port_ok [OF inv p Some] obtain od1 bd f where od1: "bundle_del_port od a = Some od1" "od_inv t od1"
    "ofports od1 = (ofports od)(a \<mapsto> p\<lparr>op_bundle := None\<rparr>)"
    "ofbundles od1 = (ofbundles od)(b \<mapsto> bd\<lparr>bundle_ports := remove1 a (bundle_ports bd), floodable := f\<rparr>)" "od_stp od1 = od_stp od"
    by metis
  show ?thesis
  proof (cases "remove1 a (bundle_ports bd) = []")
    case True
    let ?bd = "bd\<lparr>bundle_ports := remove1 a (bundle_ports bd), floodable := f\<rparr>"
    have b: "ofbundles od1 b = Some ?bd" "bundle_ports ?bd = []" using True by (simp_all add: od1(4))
    define od2 where "od2 = (let od2 = bundle_flush_macs od1 b in od2\<lparr>ofbundles := (ofbundles od2)(b := None)\<rparr>)"
    have "bundle_remove od a = Some od2" using p Some od1(1) b by (simp add: bundle_remove_def bundle_destroy_def od2_def)
    moreover have "od_inv t od2" unfolding od2_def by (rule drop_bundle_ok [OF od1(2) b])
    moreover have "ofports od2 = ofports od1" "od_stp od2 = od_stp od1" "ofbundles od2 = (ofbundles od1)(b := None)"
      by (simp_all add: od2_def bundle_flush_macs_def)
    ultimately show ?thesis using od1(3-5) Some by simp
  next
    case False
    then show ?thesis using p Some od1 by (simp add: bundle_remove_def)
  qed
qed

lemma destroy_fold:
  assumes "od_inv t od" and "ofbundles od b = Some bd"
  shows "\<exists>od' bd'. foldl (\<lambda>o1 a. case o1 of None \<Rightarrow> None | Some od1 \<Rightarrow> bundle_del_port od1 a) (Some od) (bundle_ports bd) = Some od' \<and>
    od_inv t od' \<and> ofbundles od' b = Some bd' \<and> bundle_ports bd' = []"
  using assms
proof (induction "bundle_ports bd" arbitrary: od bd)
  case Nil
  then show ?case by (simp add: Nil.hyps [symmetric])
next
  case (Cons a "as")
  have "bundles_ok od" using Cons.prems(1) by (simp add: od_inv_def)
  then obtain p where p: "ofports od a = Some p" "op_bundle p = Some b"
    using bundlesD(3) [OF _ Cons.prems(2), of _ a] Cons.hyps(2) [symmetric] by auto
  obtain od1 f where od1: "bundle_del_port od a = Some od1" "od_inv t od1"
    "ofbundles od1 b = Some (bd\<lparr>bundle_ports := remove1 a (bundle_ports bd), floodable := f\<rparr>)"
    by (rule del_port_ok [OF Cons.prems(1) p]) (use Cons.prems(2) in simp)
  have "as = bundle_ports (bd\<lparr>bundle_ports := remove1 a (bundle_ports bd), floodable := f\<rparr>)" using Cons.hyps(2) [symmetric] by simp
  from Cons.hyps(1) [OF this od1(2,3)] show ?case using od1(1) by (simp add: Cons.hyps(2) [symmetric])
qed

lemma bundle_destroy_ok:
  assumes "od_inv t od" and "ofbundles od b = Some bd"
  shows "\<exists>od'. bundle_destroy od b = Some od' \<and> od_inv t od'"
proof -
  obtain od1 bd1 where od1: "foldl (\<lambda>o1 a. case o1 of None \<Rightarrow> None | Some od1 \<Rightarrow> bundle_del_port od1 a) (Some od) (bundle_ports bd) = Some od1"
    "od_inv t od1" "ofbundles od1 b = Some bd1" "bundle_ports bd1 = []" using destroy_fold [OF assms] by blast
  then show ?thesis using drop_bundle_ok [OF od1(2-4)] assms(2) by (simp add: bundle_destroy_def)
qed

text \<open>Putting a port into a bundle.\<close>

lemma floodable_append:
  assumes "bundle_floodable ops as = Some f" and "ops a = Some p"
  shows "bundle_floodable ops (as @ [a]) =
    Some (f \<and> \<not> (pp_config p AND OFPUTIL_PC_NO_FLOOD \<noteq> 0 \<or> \<not> stp_forward_in_state (op_stp_state p)))"
  using assms by (induction "as") (auto split: option.splits if_splits)

lemma add_port_bundles:
  assumes "bundles_ok od" and p: "ofports od a = Some p" "op_bundle p = None" and bd: "ofbundles od b = Some bd"
    and od': "ofports od' = (ofports od)(a \<mapsto> p\<lparr>op_bundle := Some b\<rparr>)"
      "ofbundles od' = (ofbundles od)(b \<mapsto> bd\<lparr>bundle_ports := bundle_ports bd @ [a],
         floodable := (if pp_config p AND OFPUTIL_PC_NO_FLOOD \<noteq> 0 \<or> \<not> stp_forward_in_state (op_stp_state p) then False else floodable bd)\<rparr>)"
  shows "bundles_ok od'"
proof (rule bundlesI)
  note B = bundlesD [OF assms(1)]
  have fresh: "a \<notin> set (bundle_ports bd')" if "ofbundles od e = Some bd'" for e bd' using B(3) [OF that, of a] p by auto
  have flood: "bundle_floodable (ofports od') as = bundle_floodable (ofports od) as" for as
    unfolding od' by (rule floodable_upd [of _ _ p]) (simp_all add: p port_floods_def)
  show "\<exists>bd'. ofbundles od' e = Some bd' \<and> c \<in> set (bundle_ports bd')" if "ofports od' c = Some q" "op_bundle q = Some e" for c q e
    using that B(1) [of c q e] bd by (auto simp: od' split: if_splits)
  show "distinct (bundle_ports bd')" if "ofbundles od' e = Some bd'" for e bd'
    using that B(2) bd fresh by (auto simp: od' split: if_splits)
  show "\<exists>q. ofports od' c = Some q \<and> op_bundle q = Some e" if "ofbundles od' e = Some bd'" "c \<in> set (bundle_ports bd')" for e bd' c
    using that B(3) [OF bd, of c] B(3) [of e bd' c] p by (auto simp: od' split: if_splits)
  show "bundle_floodable (ofports od') (bundle_ports bd') = Some (floodable bd')" if "ofbundles od' e = Some bd'" for e bd'
  proof (cases "e = b")
    case True
    then show ?thesis using that floodable_append [OF B(4) [OF bd] p(1)] unfolding flood by (auto simp: od'(2))
  next
    case False
    then show ?thesis using that B(4) [of e bd'] unfolding flood by (simp add: od'(2))
  qed
qed

lemma bundle_add_port_ok:
  assumes inv: "od_inv t od" and p: "ofports od a = Some p" and b: "ofbundles od b \<noteq> None"
  shows "\<exists>od'. bundle_add_port od b (Some a) = Some (True, od') \<and> od_inv t od'"
proof (cases "op_bundle p = Some b")
  case False
  let ?od = "od\<lparr>backer_need_revalidate := REV_RECONFIGURE\<rparr>"
  let ?p = "p\<lparr>op_bundle := None\<rparr>"
  have "od_inv t ?od" using inv by simp
  from bundle_remove_ok [OF this, of a p] p
  obtain od1 where od1: "bundle_remove ?od a = Some od1" "od_inv t od1" "ofports od1 = (ofports od)(a \<mapsto> ?p)"
    "od_stp od1 = od_stp od" "\<forall>c. op_bundle p \<noteq> Some c \<longrightarrow> ofbundles od1 c = ofbundles od c" by auto
  obtain bd where bd: "ofbundles od1 b = Some bd" using b od1(5) False by auto
  have r: "(if op_bundle p \<noteq> None then bundle_remove ?od a else Some ?od) = Some od1"
    using od1(1) p by (auto simp: bundle_remove_def)
  define od2 where "od2 = od1\<lparr>ofports := (ofports od1)(a \<mapsto> ?p\<lparr>op_bundle := Some b\<rparr>), ofbundles := (ofbundles od1)(b \<mapsto>
    bd\<lparr>bundle_ports := bundle_ports bd @ [a], floodable := (if pp_config ?p AND OFPUTIL_PC_NO_FLOOD \<noteq> 0 \<or>
      \<not> stp_forward_in_state (op_stp_state ?p) then False else floodable bd)\<rparr>)\<rparr>"
  have p1: "ofports od1 a = Some ?p" by (simp add: od1(3))
  have i: "bundles_ok od1" "ml_state_ok (t, od_ml od1)" using od1(2) by (simp_all add: od_inv_def)
  have "bundles_ok od2" by (rule add_port_bundles [OF i(1) p1 _ bd]) (simp_all add: od2_def)
  then have "od_inv t od2"
    by (intro od_inv_upd [OF od1(2) p1, of "?p\<lparr>op_bundle := Some b\<rparr>"]) (use i(2) in \<open>simp_all add: od2_def\<close>)
  moreover have "bundle_add_port od b (Some a) = Some (True, od2)"
    using False p unfolding bundle_add_port_def option.case p r by (simp add: p1 bd) (simp add: od2_def)
  ultimately show ?thesis by blast
qed (use inv p in \<open>simp add: bundle_add_port_def\<close>)

lemma and_or_zero_iff: "(x :: 'a::len word) AND (a OR b) = 0 \<longleftrightarrow> x AND a = 0 \<and> x AND b = 0"
  by (auto simp: bit_eq_iff bit_simps)

lemma port_reconfigured_ok:
  assumes inv: "od_inv t od" and p: "ofports od a = Some p"
  shows "\<exists>od'. port_reconfigured (od\<lparr>ofports := (ofports od)(a \<mapsto> p\<lparr>pp_config := c\<rparr>)\<rparr>) a (pp_config p) = Some od' \<and> od_inv t od'"
proof -
  let ?p = "p\<lparr>pp_config := c\<rparr>" and ?changed = "pp_config p XOR c"
  let ?od = "od\<lparr>ofports := (ofports od)(a \<mapsto> ?p)\<rparr>"
  define any where "any \<longleftrightarrow> ?changed AND (OFPUTIL_PC_NO_RECV OR OFPUTIL_PC_NO_RECV_STP OR OFPUTIL_PC_NO_FWD OR
    OFPUTIL_PC_NO_FLOOD OR OFPUTIL_PC_NO_PACKET_IN) \<noteq> 0"
  define od1 where "od1 = (if any then ?od\<lparr>backer_need_revalidate := REV_RECONFIGURE\<rparr> else ?od)"
  define fl where "fl \<longleftrightarrow> ?changed AND OFPUTIL_PC_NO_FLOOD \<noteq> 0 \<and> op_bundle p \<noteq> None"
  have any: "fl \<Longrightarrow> any" by (auto simp: any_def fl_def and_or_zero_iff)
  have od1: "ofports od1 = (ofports od)(a \<mapsto> ?p)" "ofbundles od1 = ofbundles od" "od_stp od1 = od_stp od" "port_order od1 = port_order od"
    "od_ml od1 = od_ml od" by (simp_all add: od1_def)
  have i: "bundles_ok od" "ml_state_ok (t, od_ml od)" using inv by (simp_all add: od_inv_def)
  have "port_floods ?p = port_floods p" if "?changed AND OFPUTIL_PC_NO_FLOOD = 0"
    using that by (simp add: port_floods_def and_xor_zero_iff)
  then have "bundles_ok_except (if fl then {the (op_bundle p)} else {}) od1"
    by (intro bundles_ok_upd [OF i(1) p _ _ od1(1,2)]) (auto simp: fl_def)
  moreover have "ofbundles od1 (the (op_bundle p)) \<noteq> None" if fl
    using that bundlesD(1) [OF i(1) p] by (auto simp: fl_def od1)
  ultimately obtain od2 where od2: "(if fl then bundle_update od1 (the (op_bundle p)) else Some od1) = Some od2" "bundles_ok od2"
    "od_stp od2 = od_stp od1" "ofports od2 = ofports od1" "port_order od2 = port_order od1" "od_ml od2 = od_ml od1"
    using maybe_bundle_update_ok by blast
  have "od_inv t od2" by (rule od_inv_upd [OF inv p, of ?p]) (use od1 od2 i(2) in simp_all)
  moreover have "port_reconfigured ?od a (pp_config p) = (if fl then bundle_update od1 (the (op_bundle p)) else Some od1)"
    using any by (simp add: port_reconfigured_def any_def [symmetric] od1_def Let_def) (auto simp: fl_def)
  ultimately show ?thesis using od2(1) by simp
qed

lemma update_port_config_ok:
  assumes inv: "od_inv t od" and p: "ofports od a = Some p"
  shows "\<exists>od'. update_port_config od a c m = Some od' \<and> od_inv t od'"
proof -
  have "(ofports od)(a \<mapsto> p\<lparr>pp_config := pp_config p\<rparr>) = ofports od" using p by (simp add: fun_upd_idem)
  then show ?thesis using port_reconfigured_ok [OF inv p] inv p unfolding update_port_config_def Let_def option.case by simp
qed

text \<open>Ports that go away.\<close>

lemma unregister_ok:
  assumes "od_inv t od" and "ofports od a = Some p"
  shows "\<exists>od' p'. ofproto_port_unregister now od a = Some od' \<and> od_inv t od' \<and> ofports od' a = Some p' \<and>
    op_stp_port p' = None \<and> op_bundle p' = None"
proof -
  obtain od1 p1 where od1: "set_stp_port now od a None = Some od1" "od_inv t od1" "ofports od1 a = Some p1" "op_stp_port p1 = None"
    using unset_stp_port_ok [OF assms, of None now] by auto
  from bundle_remove_ok [OF od1(2,3)] show ?thesis using od1(1,4) by (auto simp: ofproto_port_unregister_def)
qed

lemma ofport_destroy_ok:
  assumes inv: "od_inv t od" and p: "ofports od a = Some p" "op_stp_port p = None"
  shows "\<exists>od'. ofport_destroy od a = Some od' \<and> od_inv t od'"
proof -
  have "od_inv t (od\<lparr>backer_need_revalidate := REV_RECONFIGURE\<rparr>)" using inv by simp
  from bundle_remove_ok [OF this, of a p] p(1)
  obtain od1 where od1: "port_destruct od a = Some od1" "od_inv t od1" "ofports od1 a = Some (p\<lparr>op_bundle := None\<rparr>)"
    by (auto simp: port_destruct_def)
  define od2 where "od2 = od1\<lparr>ofports := (ofports od1)(a := None), port_order := remove1 a (port_order od1)\<rparr>"
  have i: "bundles_ok od1" "set (port_order od1) = dom (ofports od1)" "distinct (port_order od1)" using od1(2) by (simp_all add: od_inv_def)
  note B = bundlesD [OF i(1)]
  have na: "a \<notin> set (bundle_ports bd)" if "ofbundles od1 b = Some bd" for b bd using B(3) [OF that, of a] od1(3) by auto
  have flood: "bundle_floodable ((ofports od1)(a := None)) as = bundle_floodable (ofports od1) as" if "a \<notin> set as" for as
    using that by (induction "as") (auto split: option.split)
  have "bundles_ok od2"
  proof (rule bundlesI)
    show "\<exists>q. ofports od2 c = Some q \<and> op_bundle q = Some e" if "ofbundles od2 e = Some bd" "c \<in> set (bundle_ports bd)" for e bd c
      using that B(3) [of e bd c] na [of e bd] by (auto simp: od2_def)
  qed (use B(1,2,4) na flood in \<open>auto simp: od2_def split: if_splits\<close>)
  moreover have "linked s (ofports od2)" if "linked s (ofports od1)" for s
    using that od1(3) p(2) by (auto simp: linked_def od2_def)
  ultimately have "od_inv t od2" using od1(2) i(2,3) by (auto simp: od_inv_def od2_def split: option.splits if_splits)
  then show ?thesis using od1(1) by (simp add: ofport_destroy_def od2_def)
qed

section \<open>Bridge settings and the clock\<close>

definition cleared :: "ofport_dpif \<Rightarrow> bool" where
  "cleared p \<longleftrightarrow> op_stp_port p = None \<and> op_stp_state p = STP_DISABLED"

lemma unset_all_ok:
  assumes "od_inv t od" and "set as \<subseteq> dom (ofports od)"
  shows "\<exists>od'. foldl (\<lambda>o1 a. case o1 of None \<Rightarrow> None | Some od1 \<Rightarrow> set_stp_port now od1 a None) (Some od) as = Some od' \<and>
    od_inv t od' \<and> dom (ofports od') = dom (ofports od) \<and>
    (\<forall>a p. ofports od' a = Some p \<longrightarrow> a \<in> set as \<or> (\<exists>q. ofports od a = Some q \<and> cleared q) \<longrightarrow> cleared p)"
  using assms
proof (induction "as" arbitrary: od)
  case (Cons a "as")
  then obtain p where p: "ofports od a = Some p" by auto
  from unset_stp_port_ok [OF Cons.prems(1) p, of None now] obtain od1 p1 where od1: "set_stp_port now od a None = Some od1" "od_inv t od1"
    "ofports od1 = (ofports od)(a \<mapsto> p1)" "cleared p1" by (auto simp: cleared_def)
  have d: "dom (ofports od1) = dom (ofports od)" using p by (auto simp: od1(3))
  then have "set as \<subseteq> dom (ofports od1)" using Cons.prems(2) by simp
  from Cons.IH [OF od1(2) this] obtain od' where od': "foldl (\<lambda>o1 a. case o1 of None \<Rightarrow> None | Some od1 \<Rightarrow> set_stp_port now od1 a None) (Some od1) as = Some od'"
    "od_inv t od'" "dom (ofports od') = dom (ofports od1)"
    "\<And>a p. ofports od' a = Some p \<Longrightarrow> a \<in> set as \<or> (\<exists>q. ofports od1 a = Some q \<and> cleared q) \<Longrightarrow> cleared p" by blast
  have "cleared q" if "ofports od' c = Some q" "c \<in> set (a # as) \<or> (\<exists>q. ofports od c = Some q \<and> cleared q)" for c q
    using od'(4) [OF that(1)] that(2) od1(3,4) by auto
  then show ?case using od1(1) od'(1-3) d by auto
qed auto

lemma linked_fresh:
  assumes "\<And>i. i < STP_MAX_PORTS \<Longrightarrow> port_aux (port_at s i) = None" and "\<And>a p. ops a = Some p \<Longrightarrow> cleared p"
  shows "linked s ops"
  using assms by (auto simp: linked_def port_linked_def cleared_def)

lemma unset_stp_ok:
  assumes "od_inv t od"
  shows "\<exists>od'. set_stp now od None = Some od' \<and> od_inv t od' \<and> od_stp od' = None"
proof -
  define od0 where "od0 = (if od_stp od \<noteq> None then od\<lparr>backer_need_revalidate := REV_RECONFIGURE\<rparr> else od)"
  have inv0: "od_inv t od0" using assms by (simp add: od0_def)
  have order: "set (port_order od0) = dom (ofports od0)" using inv0 by (simp add: od_inv_def)
  from unset_all_ok [OF inv0 equalityD1 [OF this], of now] obtain od1 where od1:
    "foldl (\<lambda>o1 a. case o1 of None \<Rightarrow> None | Some od1 \<Rightarrow> set_stp_port now od1 a None) (Some od0) (port_order od0) = Some od1"
    "od_inv t od1" "dom (ofports od1) = dom (ofports od0)"
    "\<And>a p. ofports od1 a = Some p \<Longrightarrow> a \<in> set (port_order od0) \<Longrightarrow> cleared p" by blast
  have "cleared p" if "ofports od1 a = Some p" for a p using od1(4) [OF that] domI [of "ofports od1", OF that] od1(3) order by blast
  then have "od_inv t (od1\<lparr>od_stp := None\<rparr>)" using od1(2) by (simp add: od_inv_def cleared_def)
  moreover have "set_stp now od None = Some (od1\<lparr>od_stp := None\<rparr>)"
    using od1(1) by (simp add: set_stp_def od0_def Let_def split: if_splits)
  ultimately show ?thesis by simp
qed

definition stp_settings :: "ofproto_stp_settings \<Rightarrow> stp \<Rightarrow> stp" where
  "stp_settings x s = stp_set_forward_delay (stp_set_max_age (stp_set_hello_time
     (stp_set_bridge_priority (stp_set_bridge_id s (system_id x)) (bs_priority x))
     (uint (bs_hello_time x))) (uint (bs_max_age x))) (uint (bs_fwd_delay x))"

lemma stp_settings_ok:
  assumes "stp_inv s"
  shows "stp_inv (stp_settings x s)" and "tracks s (stp_settings x s)"
proof -
  note set = stp_step_inv [OF stp_step.step_forward_delay] stp_step_inv [OF stp_step.step_max_age]
    stp_step_inv [OF stp_step.step_hello_time] stp_step_inv [OF stp_step.step_bridge_priority] stp_step_inv [OF stp_step.step_bridge_id]
  show "stp_inv (stp_settings x s)" unfolding stp_settings_def by (intro set assms)
  show "tracks s (stp_settings x s)" unfolding stp_settings_def by (intro tracks_settings tracks_refl)
qed

lemma set_stp_ok:
  assumes "od_inv t od"
  shows "\<exists>od'. set_stp now od (Some x) = Some od' \<and> od_inv t od' \<and> od_stp od' \<noteq> None"
proof -
  define od0 where "od0 = (if od_stp od = None then od\<lparr>backer_need_revalidate := REV_RECONFIGURE\<rparr> else od)"
  have inv0: "od_inv t od0" using assms by (simp add: od0_def)
  obtain s od1 where s: "(case od_stp od0 of
      None \<Rightarrow> map_option (\<lambda>s. (s, od0\<lparr>stp_last_tick := now\<rparr>)) (stp_create (od_name od0) (system_id x))
    | Some s \<Rightarrow> Some (s, od0)) = Some (s, od1)" and s': "stp_inv s" "linked s (ofports od0)"
    and od1: "ofports od1 = ofports od0" "ofbundles od1 = ofbundles od0" "od_ml od1 = od_ml od0" "port_order od1 = port_order od0"
  proof (cases "od_stp od0")
    case None
    obtain s where "stp_create (od_name od0) (system_id x) = Some s" "stp_inv s"
      "\<And>i. i < STP_MAX_PORTS \<Longrightarrow> port_aux (port_at s i) = None" using stp_create_fresh by blast
    moreover have "\<And>a p. ofports od0 a = Some p \<Longrightarrow> cleared p" using inv0 None by (simp add: od_inv_def cleared_def)
    ultimately show ?thesis using that [of s "od0\<lparr>stp_last_tick := now\<rparr>"] linked_fresh [of s "ofports od0"] None by simp
  next
    case (Some s)
    then show ?thesis using that [of s od0] inv0 by (simp add: od_inv_def)
  qed
  have "set_stp now od (Some x) = Some (od1\<lparr>od_stp := Some (stp_settings x s)\<rparr>)"
    using s by (simp add: set_stp_def od0_def [symmetric] stp_settings_def Let_def)
  moreover have "bundles_ok od1" using inv0 by (simp add: od_inv_def bundles_ok_except_def od1)
  then have "od_inv t (od1\<lparr>od_stp := Some (stp_settings x s)\<rparr>)"
    using inv0 stp_settings_ok [OF s'(1)] linked_tracks [OF s'(2) _ s'(1)] by (simp add: od_inv_def od1)
  ultimately show ?thesis by simp
qed

text \<open>The STP state after the clock part of \<^verbatim>\<open>stp_run\<close>.\<close>

definition ticked :: "int \<Rightarrow> ofproto_dpif \<Rightarrow> stp \<Rightarrow> stp" where
  "ticked now od s = (if now - stp_last_tick od > 0 then stp_tick s (min (2 ^ 31 - 1) (now - stp_last_tick od)) else s)"

lemma ticked_ok:
  assumes "stp_inv s"
  shows "stp_inv (ticked now od s)" and "tracks s (ticked now od s)"
  using assms by (simp_all add: ticked_def tick_inv tracks_tick)

lemma stp_run_ok:
  assumes inv: "od_inv t od" and st: "od_stp od = Some s"
  obtains od' s' where "stp_run now od = Some od'" and "od_inv t od'" and "od_stp od' = Some s'"
    and "\<And>i. i < STP_MAX_PORTS \<Longrightarrow> \<not> state_changed (port_at s' i) \<and> port_state (port_at s' i) = port_state (port_at (ticked now od s) i)"
    and "\<not> fdb_needs_flush s'" and "fdb_needs_flush (ticked now od s) \<Longrightarrow> lrus (od_ml od') = []"
proof -
  let ?s = "ticked now od s"
  have s: "stp_inv s" "linked s (ofports od)" using inv st by (simp_all add: od_inv_def)
  define od1 where "od1 = (if now - stp_last_tick od > 0
    then od\<lparr>od_stp := Some (stp_tick s (min (2 ^ 31 - 1) (now - stp_last_tick od))), stp_last_tick := now\<rparr> else od)"
  have st1: "od_stp od1 = Some ?s" using st by (simp add: od1_def ticked_def)
  have "ofports od1 = ofports od" "port_order od1 = port_order od" "od_ml od1 = od_ml od" "bundles_ok od1 = bundles_ok od"
    by (simp_all add: od1_def)
  then have "od_inv t od1" using inv st ticked_ok(1) [OF s(1)] linked_tracks [OF s(2) ticked_ok(2) [OF s(1)] s(1)]
    by (simp add: od_inv_def st1)
  from loop_ok [OF this st1] obtain od2 s2 where od2: "changed_ports_loop now od1 = Some od2" "od_inv t od2" "od_stp od2 = Some s2"
    "\<And>i. i < STP_MAX_PORTS \<Longrightarrow> \<not> state_changed (port_at s2 i) \<and> port_state (port_at s2 i) = port_state (port_at ?s i)"
    "fdb_needs_flush s2 = fdb_needs_flush ?s" by blast
  define s' where "s' = s2\<lparr>fdb_needs_flush := False\<rparr>"
  define od' where "od' = (let od3 = od2\<lparr>od_stp := Some s'\<rparr> in
    if fdb_needs_flush s2 then od3\<lparr>od_ml := mac_learning_flush (od_ml od3)\<rparr> else od3)"
  have run: "stp_run now od = Some od'"
    unfolding stp_run_def st option.case Let_def od1_def [symmetric] od2(1)
    using od2(3) by (simp add: stp_check_and_reset_fdb_flush_def od'_def s'_def Let_def)
  have at: "port_at s' i = port_at s2 i" for i by (simp add: s'_def port_at_def)
  have "tracks s2 s'" by (simp add: s'_def)
  moreover have "stp_inv s'" using stp_step_inv [OF stp_step.step_flush, of s2] od2(2,3)
    by (simp add: s'_def stp_check_and_reset_fdb_flush_def od_inv_def)
  moreover have ml: "ml_state_ok (t, od_ml od2)" using od2(2) by (simp add: od_inv_def)
  moreover note ml_step_ok [OF ml_step.step_flush ml]
  ultimately have "od_inv t od'"
    using od2(2,3) linked_tracks [of s2 "ofports od2" s'] by (simp add: od_inv_def od'_def Let_def)
  moreover have "lrus (od_ml od') = []" if "fdb_needs_flush ?s"
    using that od2(5) ml flush_inv(2) [of t "od_ml od2"] by (simp add: od'_def ml_state_ok_def)
  moreover have "od_stp od' = Some s'" by (simp add: od'_def Let_def)
  ultimately show ?thesis using that [OF run] od2(4) by (simp add: at) (simp add: s'_def)
qed

lemma process_packet_ok:
  assumes "stp_inv s"
  shows "stp_inv (stp_process_packet s n packet)" and "tracks s (stp_process_packet s n packet)"
  using assms by (simp_all add: stp_process_packet_def Let_def received_bpdu_inv tracks_received_bpdu split: option.split)

section \<open>The bridge as a system\<close>

text \<open>
  Creating a port: its address is new, so no STP port and no bundle refers to it.
\<close>

lemma new_port_ok:
  assumes inv: "od_inv t od" and new: "ofports od a = None" and order: "mset order = add_mset a (mset (port_order od))" and p: "op_bundle p = None" "cleared p"
  shows "od_inv t (od\<lparr>ofports := (ofports od)(a \<mapsto> p), port_order := order\<rparr>)"
proof -
  define od' where "od' = od\<lparr>ofports := (ofports od)(a \<mapsto> p), port_order := order\<rparr>"
  have i: "bundles_ok od" "set (port_order od) = dom (ofports od)" "distinct (port_order od)" using inv by (simp_all add: od_inv_def)
  note B = bundlesD [OF i(1)]
  have fl: "bundle_floodable (ofports od') as = bundle_floodable (ofports od) as" if "a \<notin> set as" for as
    using that by (induction "as") (simp_all add: od'_def split: option.split)
  have "a \<notin> set (bundle_ports bd)" if "ofbundles od b = Some bd" for b bd using B(3) [OF that, of a] new by auto
  then have "bundles_ok od'" using B fl p by (intro bundlesI) (auto simp: od'_def split: if_splits)
  moreover have "set order = insert a (set (port_order od))" using arg_cong [OF order, of set_mset] by simp
  moreover have "distinct order"
    using order i(2,3) new by (metis distinct.simps(2) domIff mset.simps(2) mset_eq_imp_distinct_iff)
  moreover have "linked s (ofports od')" if "linked s (ofports od)" for s
    using that new p(2) by (auto simp: linked_def od'_def port_linked_def cleared_def split: if_splits)
  ultimately have "od_inv t od'" using inv i(2) p(2)
    by (cases "od_stp od") (auto simp: od_inv_def od'_def cleared_def split: if_splits)
  then show ?thesis by (simp add: od'_def)
qed

lemma ofport_install_ok:
  assumes inv: "od_inv t od" and new: "ofports od a = None" and order: "mset order = add_mset a (mset (port_order od))"
  shows "\<exists>od'. ofport_install error od a pp order = Some od' \<and> od_inv t od'"
proof (cases "error = 0")
  case True
  let ?p = "pp\<lparr>op_bundle := None, op_stp_port := None, op_stp_state := STP_DISABLED\<rparr>"
  have "od_inv t (od\<lparr>ofports := (ofports od)(a \<mapsto> ?p), port_order := order\<rparr>)" by (rule new_port_ok [OF assms]) (simp_all add: cleared_def)
  then show ?thesis using True
    by (cases "od_stp od") (simp_all add: ofport_install_def port_construct_def od_inv_def bundles_ok_except_def)
next
  case False
  have "mset (remove1 a order) = mset (port_order od)" using order by simp
  then have "set (remove1 a order) = set (port_order od)" "distinct (remove1 a order) = distinct (port_order od)"
    by (metis set_mset_mset, metis mset_eq_imp_distinct_iff)
  then show ?thesis using False inv new
    by (cases "od_stp od") (simp_all add: ofport_install_def port_construct_def od_inv_def bundles_ok_except_def fun_upd_idem)
qed

lemma bundle_create_ok: "od_inv t od \<Longrightarrow> od_inv t (bundle_create od b)"
proof -
  assume inv: "od_inv t od"
  then have i: "bundles_ok od" by (simp add: od_inv_def)
  note B = bundlesD [OF i]
  have "bundles_ok (bundle_create od b)"
  proof (cases "ofbundles od b")
    case None
    then have "op_bundle p \<noteq> Some b" if "ofports od a = Some p" for a p using B(1) [OF that] by auto
    then show ?thesis using B None by (intro bundlesI) (auto simp: bundle_create_def split: if_splits)
  qed (use i in \<open>simp add: bundle_create_def\<close>)
  then show ?thesis using inv by (cases "od_stp od") (auto simp: od_inv_def bundle_create_def)
qed

text \<open>
  The state is the time in seconds, for MAC learning, and the bridge; the time in milliseconds that STP reads is
  free. Two of the steps carry the event they are: STP settings for a port, and the destruction of a port.
\<close>

datatype od_event = Set_Port nat ofproto_port_stp_settings | Destroy_Port nat | Other

inductive od_step :: "int \<times> ofproto_dpif \<Rightarrow> od_event \<Rightarrow> int \<times> ofproto_dpif \<Rightarrow> bool" where
  od_run: "stp_run now od = Some od' \<Longrightarrow> od_step (t, od) Other (t, od')"
| od_set_stp: "set_stp now od st = Some od' \<Longrightarrow> od_step (t, od) Other (t, od')"
| od_set_port: "set_stp_port now od a (Some x) = Some od' \<Longrightarrow> od_step (t, od) (Set_Port a x) (t, od')"
| od_unset_port: "set_stp_port now od a None = Some od' \<Longrightarrow> od_step (t, od) Other (t, od')"
| od_packet: "od_stp od = Some s \<Longrightarrow> od_step (t, od) Other (t, od\<lparr>od_stp := Some (stp_process_packet s n packet)\<rparr>)"
| od_learning: "ml_step (t, od_ml od) (t', ml) \<Longrightarrow> od_step (t, od) Other (t', od\<lparr>od_ml := ml\<rparr>)"
| od_create: "od_step (t, od) Other (t, bundle_create od b)"
| od_add_port: "ofbundles od b \<noteq> None \<Longrightarrow> bundle_add_port od b (Some a) = Some (r, od') \<Longrightarrow> od_step (t, od) Other (t, od')"
| od_del_port: "bundle_del_port od a = Some od' \<Longrightarrow> od_step (t, od) Other (t, od')"
| od_bundle_remove: "bundle_remove od a = Some od' \<Longrightarrow> od_step (t, od) Other (t, od')"
| od_bundle_destroy: "bundle_destroy od b = Some od' \<Longrightarrow> od_step (t, od) Other (t, od')"
| od_flush_macs: "od_step (t, od) Other (t, bundle_flush_macs od b)"
| od_config: "update_port_config od a c m = Some od' \<Longrightarrow> od_step (t, od) Other (t, od')"
| od_install: "ofports od a = None \<Longrightarrow> mset order = add_mset a (mset (port_order od)) \<Longrightarrow> ofport_install error od a pp order = Some od' \<Longrightarrow>
    od_step (t, od) Other (t, od')"
| od_unregister: "ofproto_port_unregister now od a = Some od' \<Longrightarrow> od_step (t, od) Other (t, od')"
| od_destroy: "ofport_destroy od a = Some od' \<Longrightarrow> od_step (t, od) (Destroy_Port a) (t, od')"

text \<open>
  What the bridge relies on: an STP port number is given to a port only while no other port has it, and no port
  is destroyed while it takes part in STP.
\<close>

fun orderly :: "ofproto_dpif \<Rightarrow> od_event \<Rightarrow> bool" where
  "orderly od (Set_Port a x) \<longleftrightarrow> (ps_enable x \<longrightarrow> number_free od a (unat (ps_port_num x)))"
| "orderly od (Destroy_Port a) \<longleftrightarrow> (\<forall>p. ofports od a = Some p \<longrightarrow> op_stp_port p = None)"
| "orderly od Other \<longleftrightarrow> True"

definition orderly_step :: "int \<times> ofproto_dpif \<Rightarrow> int \<times> ofproto_dpif \<Rightarrow> bool" where
  "orderly_step x y \<longleftrightarrow> (\<exists>e. orderly (snd x) e \<and> od_step x e y)"

definition od_state_ok :: "int \<times> ofproto_dpif \<Rightarrow> bool" where
  "od_state_ok = (\<lambda>(t, od). od_inv t od)"

lemma set_port_step_ok:
  assumes "od_inv t od" and "orderly od (Set_Port a x)" and "set_stp_port now od a (Some x) = Some od'"
  shows "od_inv t od'"
proof -
  obtain p where p: "ofports od a = Some p" using assms(3) by (auto simp: set_stp_port_def split: option.splits)
  show ?thesis
  proof (cases "ps_enable x")
    case False
    then show ?thesis using unset_stp_port_ok [OF assms(1) p, of "Some x" now] assms(3) by auto
  next
    case True
    then obtain s where s: "od_stp od = Some s" using assms(3) p by (auto simp: set_stp_port_def split: option.splits)
    have "\<exists>s1 sp. stp_get_port s1 (uint (ps_port_num x)) = Some sp"
      using assms(3) p True s unfolding set_stp_port_def Let_def by (fastforce split: option.splits)
    then have "uint (ps_port_num x) < int STP_MAX_PORTS" by (auto simp: stp_get_port_def split: if_splits)
    then have "unat (ps_port_num x) < STP_MAX_PORTS" by (simp flip: nat_uint_eq add: nat_less_iff)
    moreover have "number_free od a (unat (ps_port_num x))" using assms(2) True by simp
    ultimately show ?thesis using set_stp_port_ok [OF assms(1) s p True, of now] assms(3) by auto
  qed
qed

lemma od_step_ok:
  assumes "od_step x e y" and "od_state_ok x" and "orderly (snd x) e"
  shows "od_state_ok y"
  using assms(1)
proof cases
  case (od_run now od od' t)
  then have inv: "od_inv t od" using assms(2) by (simp add: od_state_ok_def)
  have "od_inv t od'"
  proof (cases "od_stp od")
    case None
    then show ?thesis using inv od_run by (simp add: stp_run_def)
  next
    case (Some s)
    from stp_run_ok [OF inv Some, of now] show ?thesis using od_run by (metis option.inject)
  qed
  then show ?thesis using od_run by (simp add: od_state_ok_def)
next
  case (od_set_stp now od st od' t)
  then have inv: "od_inv t od" using assms(2) by (simp add: od_state_ok_def)
  have "od_inv t od'"
  proof (cases st)
    case None
    then show ?thesis using unset_stp_ok [OF inv, of now] od_set_stp by auto
  next
    case (Some x)
    then show ?thesis using set_stp_ok [OF inv, of now x] od_set_stp by auto
  qed
  then show ?thesis using od_set_stp by (simp add: od_state_ok_def)
next
  case (od_unset_port now od a od' t)
  then obtain p where "ofports od a = Some p" by (auto simp: set_stp_port_def split: option.splits)
  then show ?thesis using unset_stp_port_ok [of t od a p None now] od_unset_port assms(2) by (auto simp: od_state_ok_def)
next
  case (od_packet od s t n packet)
  then have "stp_inv s" "linked s (ofports od)" "od_inv t od" using assms(2) by (simp_all add: od_state_ok_def od_inv_def)
  then show ?thesis using process_packet_ok [of s n packet] linked_tracks [of s "ofports od"] od_packet by (simp add: od_state_ok_def od_inv_def)
next
  case (od_learning t od t' ml)
  then have "ml_state_ok (t', ml)" using ml_step_ok assms(2) by (simp add: od_state_ok_def od_inv_def)
  then show ?thesis using od_learning assms(2) by (simp add: od_state_ok_def od_inv_def cong: option.case_cong)
next
  case (od_add_port od b a r od' t)
  then obtain p where "ofports od a = Some p" by (auto simp: bundle_add_port_def split: option.splits)
  then show ?thesis using bundle_add_port_ok [of t od a p b] od_add_port assms(2) by (auto simp: od_state_ok_def)
next
  case (od_bundle_remove od a od' t)
  then obtain p where "ofports od a = Some p" by (auto simp: bundle_remove_def split: option.splits)
  then show ?thesis using bundle_remove_ok [of t od a p] od_bundle_remove assms(2) by (auto simp: od_state_ok_def)
next
  case (od_bundle_destroy od b od' t)
  then obtain bd where "ofbundles od b = Some bd" by (auto simp: bundle_destroy_def split: option.splits)
  then show ?thesis using bundle_destroy_ok [of t od b bd] od_bundle_destroy assms(2) by (auto simp: od_state_ok_def)
next
  case (od_config od a c m od' t)
  then obtain p where "ofports od a = Some p" by (auto simp: update_port_config_def split: option.splits)
  then show ?thesis using update_port_config_ok [of t od a p c m] od_config assms(2) by (auto simp: od_state_ok_def)
next
  case (od_unregister now od a od' t)
  then obtain p where "ofports od a = Some p" by (auto simp: ofproto_port_unregister_def set_stp_port_def split: option.splits)
  then show ?thesis using unregister_ok [of t od a p now] od_unregister assms(2) by (auto simp: od_state_ok_def)
next
  case (od_set_port now od a sx od' t)
  then show ?thesis using set_port_step_ok [of t od a sx now od'] assms(2,3) by (simp add: od_state_ok_def)
next
  case (od_create t od b)
  then show ?thesis using bundle_create_ok [of t od b] assms(2) by (simp add: od_state_ok_def)
next
  case (od_del_port od a od' t)
  then obtain p b where "ofports od a = Some p" "op_bundle p = Some b" by (auto simp: bundle_del_port_def split: option.splits)
  then show ?thesis using del_port_ok [of t od a p b] od_del_port assms(2) by (auto simp: od_state_ok_def)
next
  case (od_flush_macs t od b)
  then show ?thesis using flush_macs_ok [of t od b] assms(2)
    by (simp add: od_state_ok_def od_inv_def bundle_flush_macs_def bundles_ok_except_def cong: option.case_cong)
next
  case (od_install od a order error pp od' t)
  then show ?thesis using ofport_install_ok [of t od a order error pp] assms(2) by (auto simp: od_state_ok_def)
next
  case (od_destroy od a od' t)
  then obtain p where p: "ofports od a = Some p" by (auto simp: ofport_destroy_def port_destruct_def bundle_remove_def split: option.splits)
  then have "op_stp_port p = None" using od_destroy(1,2) assms(3) by simp
  then show ?thesis using ofport_destroy_ok [of t od a p] p od_destroy assms(2) by (auto simp: od_state_ok_def)
qed

definition od_init :: "int \<Rightarrow> ofproto_dpif \<Rightarrow> bool" where
  "od_init t od \<longleftrightarrow> TIME_MIN \<le> t \<and> od_stp od = None \<and> bundles_ok od \<and> (\<forall>a p. ofports od a = Some p \<longrightarrow> cleared p) \<and>
     set (port_order od) = dom (ofports od) \<and> distinct (port_order od) \<and> (\<exists>random idle. od_ml od = mac_learning_create random idle)"

interpretation od_system: transition_system "\<lambda>(t, od). od_init t od" orderly_step od_state_ok
proof
  fix x :: "int \<times> ofproto_dpif"
  assume "case x of (t, od) \<Rightarrow> od_init t od"
  then show "od_state_ok x" using create_ok by (auto simp: od_init_def od_state_ok_def od_inv_def cleared_def)
qed (auto simp: orderly_step_def intro: od_step_ok)

lemma linked_shows:
  assumes "linked s ops" and "\<And>i. i < STP_MAX_PORTS \<Longrightarrow> \<not> state_changed (port_at s i)" and "ops a = Some p"
  shows "op_stp_state p = (case op_stp_port p of None \<Rightarrow> STP_DISABLED | Some i \<Rightarrow> port_state (port_at s i))"
    and "xport_stp_forward_state (Some s) (xport_stp_port_no p) = stp_forward_in_state (op_stp_state p)"
proof -
  have l: "port_linked s a p" by (rule linkedD [OF assms(1,3)])
  then show st: "op_stp_state p = (case op_stp_port p of None \<Rightarrow> STP_DISABLED | Some i \<Rightarrow> port_state (port_at s i))"
    using assms(2) by (cases "op_stp_port p") (auto simp: port_linked_def)
  show "xport_stp_forward_state (Some s) (xport_stp_port_no p) = stp_forward_in_state (op_stp_state p)"
    using l by (cases "op_stp_port p")
      (auto simp: st xport_stp_forward_state_def xport_get_stp_port_def xport_stp_port_no_def stp_get_port_def port_linked_def)
qed

section \<open>A bridge with two ports\<close>

definition example_port :: ofport_dpif where
  "example_port = \<lparr>pp_config = 0, pp_state = 0, op_bundle = Some 7, op_stp_port = None, op_stp_state = STP_DISABLED, stp_state_entered = 0\<rparr>"

definition example_bridge :: ofproto_dpif where
  "example_bridge = \<lparr>od_name = ''br0'', od_stp = None, stp_last_tick = 0, od_ml = mac_learning_create 5 300,
     ofports = [0 \<mapsto> example_port, 1 \<mapsto> example_port], port_order = [0, 1], ofbundles = [7 \<mapsto> \<lparr>bundle_ports = [0, 1], floodable = True\<rparr>],
     backer_need_revalidate = REV_NONE, port_status_msgs = []\<rparr>"

definition example_settings :: ofproto_stp_settings where
  "example_settings = \<lparr>system_id = 1, bs_priority = 0x8000, bs_hello_time = 2000, bs_max_age = 20000, bs_fwd_delay = 15000\<rparr>"

definition example_port_settings :: ofproto_port_stp_settings where
  "example_port_settings = \<lparr>ps_enable = True, ps_port_num = 0, ps_priority = 0x80, ps_path_cost = 19\<rparr>"

lemma example_init: "od_init 0 example_bridge"
proof -
  have "bundles_ok example_bridge"
    by (rule bundlesI) (auto simp: example_bridge_def example_port_def stp_forward_in_state_def split: if_splits)
  then show ?thesis by (auto simp: od_init_def example_bridge_def example_port_def cleared_def TIME_MIN_def)
qed

lemma example_inv: "od_inv 0 example_bridge"
  using od_system.inv_init [of "(0, example_bridge)"] example_init by (simp add: od_state_ok_def)

lemma update_tick: "update_stp_port_state now od a = Some od' \<Longrightarrow> stp_last_tick od' = stp_last_tick od"
  by (auto simp: update_stp_port_state_def Let_def bundle_update_def ofproto_port_set_state_def split: option.splits if_splits)

lemma set_stp_port_tick: "set_stp_port now od a x = Some od' \<Longrightarrow> stp_last_tick od' = stp_last_tick od"
  by (auto simp: set_stp_port_def Let_def dest!: update_tick split: option.splits if_splits)

text \<open>With STP on, and on port 0.\<close>

lemma example_stp:
  "\<exists>od s p. orderly_step\<^sup>*\<^sup>* (0, example_bridge) (0, od) \<and> od_inv 0 od \<and> od_stp od = Some s \<and> ofports od 0 = Some p \<and>
    op_stp_port p = Some 0 \<and> state_changed (port_at s 0) \<and> ofports od 1 = Some example_port \<and> stp_last_tick od = 0"
proof -
  obtain s0 where s0: "stp_create ''br0'' 1 = Some s0" "stp_inv s0" "\<not> enabled s0 0"
    using stp_create_fresh [of "''br0''" 1] by (auto simp: STP_MAX_PORTS_def)
  define s1 where "s1 = stp_settings example_settings s0"
  define od1 where "od1 = example_bridge\<lparr>backer_need_revalidate := REV_RECONFIGURE, stp_last_tick := 0, od_stp := Some s1\<rparr>"
  have set: "set_stp 0 example_bridge (Some example_settings) = Some od1"
    using s0(1) by (simp add: set_stp_def example_bridge_def od1_def s1_def stp_settings_def) (simp add: example_settings_def)
  then have inv: "od_inv 0 od1" using set_stp_ok [OF example_inv, of 0 example_settings] by simp
  have st: "od_stp od1 = Some s1" by (simp add: od1_def)
  have "port_tracks (port_at s0 0) (port_at s1 0)"
    using tracksD(2) [OF stp_settings_ok(2) [OF s0(2)]] s0(2) by (simp add: s1_def stp_inv_def ports_ok_def STP_MAX_PORTS_def)
  then have dis: "port_state (port_at s1 0) = STP_DISABLED" using s0(3) by (simp add: port_tracks_def enabled_def)
  have p: "ofports od1 0 = Some example_port" by (simp add: od1_def example_bridge_def)
  have free: "number_free od1 0 (unat (ps_port_num example_port_settings))"
    by (auto simp: number_free_def od1_def example_bridge_def example_port_def split: if_splits)
  have "ps_enable example_port_settings" "unat (ps_port_num example_port_settings) = 0" by (simp_all add: example_port_settings_def)
  from set_stp_port_ok [OF inv st p this(1) _ free, of 0] this(2) dis obtain od2 s2 p2 where od2:
    "set_stp_port 0 od1 0 (Some example_port_settings) = Some od2" "od_inv 0 od2" "od_stp od2 = Some s2"
    "ofports od2 = (ofports od1)(0 \<mapsto> p2)" "op_stp_port p2 = Some 0" "state_changed (port_at s2 0)" by (auto simp: STP_MAX_PORTS_def)
  have "stp_last_tick od2 = stp_last_tick od1" by (rule set_stp_port_tick [OF od2(1)])
  moreover have "orderly_step (0, example_bridge) (0, od1)" "orderly_step (0, od1) (0, od2)"
    using od_step.od_set_stp [OF set, of 0] od_step.od_set_port [OF od2(1), of 0] free
    unfolding orderly_step_def snd_conv by (meson orderly.simps)+
  then have "orderly_step\<^sup>*\<^sup>* (0, example_bridge) (0, od2)" by (meson rtranclp.simps r_into_rtranclp)
  ultimately show ?thesis using od2(2-6) by (auto simp: od1_def example_bridge_def)
qed

section \<open>Properties\<close>

text \<open>
  C9. Take a bridge that starts without STP, and any sequence of its operations in which an STP port number is given
  to a port only while no other port has it, and no port is destroyed while it takes part in STP (\<open>orderly_step\<close>; the code does
  not enforce either, and without the second \<^verbatim>\<open>stp_run\<close> can follow the address of a destroyed port). In the state reached, if STP is on,
  \<^verbatim>\<open>stp_run\<close> returns. Afterwards no STP port is
  marked as changed and all have the state the clock gave them; every port of the bridge shows the state of its STP port;
  a bundle to which broadcasts are flooded has only ports that STP lets forward; and the MAC table is empty when STP
  has asked for a flush.
\<close>

theorem bridge_follows_stp:
  assumes "od_init t0 od0" and "orderly_step\<^sup>*\<^sup>* (t0, od0) (t, od)" and "od_stp od = Some s"
  shows "\<exists>od' s'. stp_run now od = Some od' \<and> od_stp od' = Some s' \<and>
    (\<forall>i < STP_MAX_PORTS. \<not> state_changed (port_at s' i) \<and> port_state (port_at s' i) = port_state (port_at (ticked now od s) i)) \<and>
    (\<forall>a p. ofports od' a = Some p \<longrightarrow> op_stp_state p = current_stp_state od' p) \<and>
    (\<forall>b bd a. ofbundles od' b = Some bd \<longrightarrow> floodable bd \<longrightarrow> a \<in> set (bundle_ports bd) \<longrightarrow>
       (\<exists>p. ofports od' a = Some p \<and> xport_stp_forward_state (od_stp od') (xport_stp_port_no p))) \<and>
    (fdb_needs_flush (ticked now od s) \<longrightarrow> lrus (od_ml od') = [])"
proof -
  have "od_inv t od" using od_system.inv_reachable [of "(t0, od0)" "(t, od)"] assms(1,2) by (simp add: od_state_ok_def)
  from stp_run_ok [OF this assms(3), of now] obtain od' s' where r: "stp_run now od = Some od'" "od_inv t od'" "od_stp od' = Some s'"
    "\<forall>i < STP_MAX_PORTS. \<not> state_changed (port_at s' i) \<and> port_state (port_at s' i) = port_state (port_at (ticked now od s) i)"
    "fdb_needs_flush (ticked now od s) \<longrightarrow> lrus (od_ml od') = []" by (metis (no_types, lifting))
  have l: "linked s' (ofports od')" "bundles_ok od'" using r(2,3) by (simp_all add: od_inv_def)
  note sh = linked_shows [OF l(1)]
  have "op_stp_state p = current_stp_state od' p" if "ofports od' a = Some p" for a p
    using sh(1) [OF _ that] r(3,4) by (simp add: current_stp_state_def split: option.split)
  moreover have "\<exists>p. ofports od' a = Some p \<and> xport_stp_forward_state (od_stp od') (xport_stp_port_no p)"
    if "ofbundles od' b = Some bd" "floodable bd" "a \<in> set (bundle_ports bd)" for b bd a
  proof -
    have "bundle_floodable (ofports od') (bundle_ports bd) = Some True" using bundlesD(4) [OF l(2) that(1)] that(2) by simp
    from floodable_iff [OF this that(3)] show ?thesis using sh(2) r(3,4) by (auto simp: port_floods_def)
  qed
  ultimately show ?thesis using r(1,3-5) by blast
qed

theorem bridge_follows_stp_witness:
  "\<exists>od od'. od_stp od \<noteq> None \<and> stp_run 5000 od = Some od' \<and> (\<exists>p. ofports od 0 = Some p \<and> op_stp_port p = Some 0) \<and>
     (\<forall>a p. ofports od' a = Some p \<longrightarrow> op_stp_state p = current_stp_state od' p)"
proof -
  obtain od s p where od: "orderly_step\<^sup>*\<^sup>* (0, example_bridge) (0, od)" "od_stp od = Some s" "ofports od 0 = Some p" "op_stp_port p = Some 0"
    using example_stp by blast
  from bridge_follows_stp [OF example_init od(1,2), of 5000] od(2-4) show ?thesis by blast
qed

lemma update_keeps_none:
  "update_stp_port_state now od b = Some od' \<Longrightarrow> ofports od a = None \<Longrightarrow> ofports od' a = None"
  by (auto simp: update_stp_port_state_def Let_def bundle_update_def ofproto_port_set_state_def split: option.splits if_splits)

lemma loop_stale:
  assumes "od_stp od = Some s" and "stp_inv s" and "i < STP_MAX_PORTS" and "port_aux (port_at s i) = Some a"
    and "state_changed (port_at s i)" and "ofports od a = None"
  shows "changed_ports_loop now od = None"
  using assms
proof (induction now od arbitrary: s rule: changed_ports_loop.induct)
  case (1 now od)
  obtain q s1 where c: "stp_get_changed_port s = (q, s1)" by fastforce
  note cs = changed_step [OF "1.prems"(2) c]
  obtain j where q: "q = Some j" using cs(3) "1.prems"(3,5) by (cases q) auto
  have at: "\<And>k. port_at s1 k = (if k = j then (port_at s j)\<lparr>state_changed := False\<rparr> else port_at s k)"
    using cs(3) q by simp
  let ?od = "od\<lparr>od_stp := Some s1\<rparr>"
  let ?step = "case port_aux (port_at s1 j) of None \<Rightarrow> Some ?od | Some b \<Rightarrow> update_stp_port_state now ?od b"
  have eq: "changed_ports_loop now od = (case ?step of None \<Rightarrow> None | Some od1 \<Rightarrow> changed_ports_loop now od1)"
    by (subst changed_ports_loop.simps) (simp add: "1.prems"(1) c q)
  show ?case
  proof (cases ?step)
    case None
    then show ?thesis unfolding eq by simp
  next
    case (Some od1)
    have "j \<noteq> i" using Some "1.prems"(4,6) by (auto simp: at update_stp_port_state_def)
    moreover have "od_stp od1 = Some s1 \<and> ofports od1 a = None"
      using Some "1.prems"(6) update_keeps_stp [of now ?od _ od1] update_keeps_none [of now ?od _ od1 a]
      by (cases "port_aux (port_at s1 j)") auto
    ultimately have "changed_ports_loop now od1 = None"
      using "1.IH" [OF "1.prems"(1) c [symmetric] q Some _ cs(1) "1.prems"(3)] "1.prems"(4,5) by (simp add: at)
    then show ?thesis unfolding eq Some by simp
  qed
qed

lemma run_stale:
  assumes "stp_inv s" and "od_stp od = Some s" and "i < STP_MAX_PORTS" and "port_aux (port_at s i) = Some a"
    and "state_changed (port_at (ticked now od s) i)" and "ofports od a = None"
  shows "stp_run now od = None"
proof -
  let ?s = "ticked now od s"
  define od1 where "od1 = (if now - stp_last_tick od > 0
    then od\<lparr>od_stp := Some (stp_tick s (min (2 ^ 31 - 1) (now - stp_last_tick od))), stp_last_tick := now\<rparr> else od)"
  have od1: "od_stp od1 = Some ?s" "ofports od1 a = None" using assms(2,6) by (simp_all add: od1_def ticked_def)
  have "port_tracks (port_at s i) (port_at ?s i)"
    using tracksD(2) [OF ticked_ok(2) [OF assms(1)]] assms(1,3) by (simp add: stp_inv_def ports_ok_def)
  then have "port_aux (port_at ?s i) = Some a" using assms(4) by (simp add: port_tracks_def)
  from loop_stale [OF od1(1) ticked_ok(1) [OF assms(1)] assms(3) this assms(5) od1(2), of now]
  show ?thesis unfolding stp_run_def assms(2) option.case Let_def od1_def [symmetric] by simp
qed

text \<open>
  C37. Destroying a port that takes part in STP, without unregistering it first, leaves its STP port
  with the address of the destroyed port; when that STP port is marked as changed, \<^verbatim>\<open>stp_run\<close> follows the address.
\<close>

theorem destroyed_port_dangles:
  assumes "od_inv t od" and "od_stp od = Some s" and "ofports od a = Some p" and "op_stp_port p = Some i"
  shows "\<exists>od1. ofport_destroy od a = Some od1 \<and> od_stp od1 = Some s \<and> ofports od1 a = None \<and> port_aux (port_at s i) = Some a \<and>
    (\<forall>now. state_changed (port_at (ticked now od1 s) i) \<longrightarrow> stp_run now od1 = None)"
proof -
  have s: "stp_inv s" "linked s (ofports od)" using assms(1,2) by (simp_all add: od_inv_def)
  have l: "i < STP_MAX_PORTS" "port_aux (port_at s i) = Some a" using linkedD [OF s(2) assms(3)] assms(4) by (simp_all add: port_linked_def)
  have "od_inv t (od\<lparr>backer_need_revalidate := REV_RECONFIGURE\<rparr>)" using assms(1) by simp
  from bundle_remove_ok [OF this, of a p] assms(2,3) obtain od0 where od0: "port_destruct od a = Some od0" "od_stp od0 = Some s"
    by (auto simp: port_destruct_def)
  define od1 where "od1 = od0\<lparr>ofports := (ofports od0)(a := None), port_order := remove1 a (port_order od0)\<rparr>"
  have od1: "ofport_destroy od a = Some od1" "od_stp od1 = Some s" "ofports od1 a = None" using od0 by (simp_all add: ofport_destroy_def od1_def)
  show ?thesis using od1 l(2) run_stale [OF s(1) od1(2) l _ od1(3)] by blast
qed

theorem destroyed_port_dangles_witness:
  "\<exists>od od1 s. od_stp od = Some s \<and> state_changed (port_at s 0) \<and> ofport_destroy od 0 = Some od1 \<and> ofports od1 0 = None \<and>
     port_aux (port_at s 0) = Some 0 \<and> (\<forall>now \<le> stp_last_tick od1. stp_run now od1 = None)"
proof -
  obtain od s p where od: "od_inv 0 od" "od_stp od = Some s" "ofports od 0 = Some p" "op_stp_port p = Some 0" "state_changed (port_at s 0)"
    using example_stp by blast
  from destroyed_port_dangles [OF od(1-4)] obtain od1 where "ofport_destroy od 0 = Some od1" "ofports od1 0 = None"
    "port_aux (port_at s 0) = Some 0" "\<forall>now. state_changed (port_at (ticked now od1 s) 0) \<longrightarrow> stp_run now od1 = None" by blast
  moreover have "ticked now od1 s = s" if "now \<le> stp_last_tick od1" for now using that by (simp add: ticked_def)
  ultimately show ?thesis using od(2,5) by metis
qed

text \<open>
  C38. The port \<open>a\<close> has an STP port number that is then given to \<open>b\<close>. Turning STP off
  on \<open>a\<close> afterwards disables the STP port of \<open>b\<close>: STP is configured on \<open>b\<close>, but \<open>b\<close> forwards at once and STP never
  hears of it again.
\<close>

theorem disabling_takes_stp_from_another:
  assumes inv: "od_inv t od" and st: "od_stp od = Some s" and a: "ofports od a = Some p" "op_stp_port p = Some (unat (ps_port_num x))"
    and b: "ofports od b = Some q" "op_stp_port q = None" and x: "ps_enable x"
  shows "\<exists>od1 od2 s2 q'. set_stp_port now od b (Some x) = Some od1 \<and> set_stp_port now od1 a None = Some od2 \<and>
    od_stp od2 = Some s2 \<and> ofports od2 b = Some q' \<and> op_stp_port q' = Some (unat (ps_port_num x)) \<and>
    port_state (port_at s2 (unat (ps_port_num x))) = STP_DISABLED \<and> port_aux (port_at s2 (unat (ps_port_num x))) = None \<and>
    xport_stp_forward_state (od_stp od2) (xport_stp_port_no q')"
proof -
  define i where "i = unat (ps_port_num x)"
  note a = a [folded i_def]
  have ab: "a \<noteq> b" using a b by auto
  have s: "stp_inv s" "linked s (ofports od)" "bundles_ok od" "ml_state_ok (t, od_ml od)" using inv st by (simp_all add: od_inv_def)
  have i: "i < STP_MAX_PORTS" "port_state (port_at s i) \<noteq> STP_DISABLED"
    using linkedD [OF s(2) a(1)] a(2) by (simp_all add: port_linked_def)
  have l: "length (ports s) = STP_MAX_PORTS" using s(1) by (simp add: stp_inv_def ports_ok_def)
  define s3 where "s3 = stp_port_set_aux s i (Some b)"
  define s5 where "s5 = stp_port_set_path_cost (stp_port_set_priority s3 i (ps_priority x)) i (ps_path_cost x)"
  have t: "tracks s3 s5" unfolding s5_def by (intro tracks_settings tracks_refl)
  have l3: "length (ports s3) = STP_MAX_PORTS" "port_state (port_at s3 i) \<noteq> STP_DISABLED"
    using i l by (simp_all add: s3_def stp_port_set_aux_def set_port_at port_at_set_port)
  have l5: "i < length (ports s5)" "port_state (port_at s5 i) \<noteq> STP_DISABLED"
    using tracksD(1) [OF t] tracksD(2) [OF t, of i] l3 i(1) by (simp_all add: port_tracks_def)
  let ?q = "q\<lparr>op_stp_port := Some i\<rparr>" and ?p = "p\<lparr>op_stp_port := None\<rparr>"
  let ?o1 = "od\<lparr>ofports := (ofports od)(b \<mapsto> ?q), od_stp := Some s5\<rparr>"
  have "uint (ps_port_num x) = int i" by (simp add: i_def)
  then have g: "stp_get_port s (uint (ps_port_num x)) = Some i" using i by (simp add: stp_get_port_def)
  have e: "stp_port_enable s i = Some s" using i(2) by (simp add: stp_port_enable_def)
  have e1: "set_stp_port now od b (Some x) = update_stp_port_state now ?o1 b"
    unfolding s5_def s3_def by (rule set_stp_port_eq [OF b(1) st x _ g e]) (simp add: b(2))
  have "bundles_ok ?o1" by (rule bundles_ok_upd [OF s(3) b(1), of ?q]) (simp_all add: port_floods_def)
  then obtain od1 where od1: "update_stp_port_state now ?o1 b = Some od1" "updates_port t b ?q ?o1 od1"
    using update_ok [of ?o1 b ?q t now] s(4) by auto
  then obtain q' where q': "ofports od1 = (ofports od)(b \<mapsto> q')" "op_stp_port q' = Some i" "od_stp od1 = Some s5"
    "bundles_ok od1" "ml_state_ok (t, od_ml od1)" by (auto simp: updates_port_def)
  have p1: "ofports od1 a = Some p" using q'(1) a(1) ab by simp
  let ?o2 = "od1\<lparr>ofports := (ofports od1)(a \<mapsto> ?p), od_stp := Some (stp_port_disable s5 i)\<rparr>"
  have e2: "set_stp_port now od1 a None = update_stp_port_state now ?o2 a"
    using p1 a(2) q'(3) by (simp add: set_stp_port_def)
  have "bundles_ok ?o2" by (rule bundles_ok_upd [OF q'(4) p1, of ?p]) (simp_all add: port_floods_def)
  then obtain od2 where od2: "update_stp_port_state now ?o2 a = Some od2" "updates_port t a ?p ?o2 od2"
    using update_ok [of ?o2 a ?p t now] q'(5) by auto
  have o2: "od_stp od2 = Some (stp_port_disable s5 i)" "ofports od2 b = Some q'"
    using od2(2) q'(1) ab by (auto simp: updates_port_def)
  note d = disable_effect [OF l5]
  have "xport_stp_forward_state (od_stp od2) (xport_stp_port_no q')"
    using i(1) d(3) by (simp add: o2 q'(2) xport_stp_forward_state_def xport_get_stp_port_def xport_stp_port_no_def stp_get_port_def
        stp_forward_in_state_def)
  then show ?thesis using e1 e2 od1(1) od2(1) o2 q'(2) d(2,3) unfolding i_def [symmetric] by auto
qed

theorem disabling_takes_stp_from_another_witness:
  "\<exists>od od1 od2 q'. set_stp_port 0 od 1 (Some example_port_settings) = Some od1 \<and> set_stp_port 0 od1 0 None = Some od2 \<and>
     ofports od2 1 = Some q' \<and> op_stp_port q' = Some 0 \<and> xport_stp_forward_state (od_stp od2) (xport_stp_port_no q')"
proof -
  have n: "unat (ps_port_num example_port_settings) = 0" "ps_enable example_port_settings" by (simp_all add: example_port_settings_def)
  obtain od s p where od: "od_inv 0 od" "od_stp od = Some s" "ofports od 0 = Some p" "op_stp_port p = Some 0"
    "ofports od 1 = Some example_port" using example_stp by blast
  have "op_stp_port example_port = None" by (simp add: example_port_def)
  from disabling_takes_stp_from_another [where x = example_port_settings and now = 0, OF od(1-3) _ od(5) this n(2)] od(4)
  show ?thesis unfolding n(1) by blast
qed

end
