(* ===== verification/Spec2Isabelle.thy ===== *)
theory Spec2Isabelle
  imports Csum Pinsched Classifier_Lookup Reconnect Ofproto_Bridge
begin

text \<open>
  A model of the core data structures and protocol state machines of Open vSwitch, a multilayer virtual switch
  written in C, and theorems about them. Paths below are relative to \<^verbatim>\<open>src/\<close>.

  \<^bold>\<open>The parts and how they interact.\<close> A packet is reduced to a flow (\<^verbatim>\<open>lib/flow.c\<close>), an array of 32-bit words, and the
  classifier (\<^verbatim>\<open>lib/classifier.c\<close>) finds the rule of the highest priority that matches it, together with the
  bits the answer depends on. The classifier keeps compressed flows and masks (miniflows and minimasks) in the
  hash map of \<^verbatim>\<open>lib/hmap.c\<close>, hashed by \<^verbatim>\<open>lib/hash.h\<close>. A bridge (\<^verbatim>\<open>ofproto/ofproto-dpif.c\<close>) learns which port leads to
  which Ethernet address (\<^verbatim>\<open>lib/mac-learning.c\<close>), in another hash map, and runs the spanning tree protocol
  (\<^verbatim>\<open>lib/stp.c\<close>), whose port states decide which bundles of ports are flooded and when addresses are forgotten.
  Packets for a controller pass the scheduler of \<^verbatim>\<open>ofproto/pinsched.c\<close>, which limits their rate with a token bucket
  (\<^verbatim>\<open>lib/token-bucket.c\<close>). Connections to controllers and databases follow the state machine of
  \<^verbatim>\<open>lib/reconnect.c\<close>. The bit utilities, bitmaps and the Internet checksum serve all of these.

  \<^bold>\<open>The theories.\<close>
  \<^item> \<open>Prelude\<close>: names of C's integer types, lemmas on words, lists and folds, and the locale \<open>transition_system\<close> that
    carries an invariant from the steps of a component to all its reachable states. It is interpreted for the
    classifier, MAC learning, the reconnection machine, the spanning tree protocol and the bridge.
  \<^item> \<open>Packets\<close> (\<^verbatim>\<open>lib/packets.h\<close>): Ethernet addresses and numbers in network byte order.
  \<^item> \<open>Util\<close> (\<^verbatim>\<open>lib/util.c\<close>, \<^verbatim>\<open>lib/util.h\<close>): bit scans and the \<^verbatim>\<open>bitwise_*\<close> routines on byte arrays; they change and read
    exactly the bits they name.
  \<^item> \<open>Hash\<close>, \<open>Hmap\<close> (\<^verbatim>\<open>lib/hash.[ch]\<close>, \<^verbatim>\<open>lib/hmap.[ch]\<close>): every operation of the hash map implements the operation on a bag
    of nodes; iteration and search find what is there. The locales \<open>hash_bag\<close> and \<open>keyed_hash_bag\<close> are the
    interface that the classifier, MAC learning and the packet scheduler use.
  \<^item> \<open>Bitmap\<close> (\<^verbatim>\<open>lib/bitmap.[ch]\<close>, \<^verbatim>\<open>lib/vlan-bitmap.c\<close>): bitmaps are finite sets.
  \<^item> \<open>Csum\<close> (\<^verbatim>\<open>lib/csum.c\<close>): the incremental update of a checksum agrees with the checksum of the changed packet.
  \<^item> \<open>Token_Bucket\<close>, \<open>Pinsched\<close> (\<^verbatim>\<open>lib/sat-math.h\<close>, \<^verbatim>\<open>lib/token-bucket.c\<close>, \<^verbatim>\<open>ofproto/pinsched.c\<close>): how much a bucket gives in a
    period; the scheduler as one queue per port, its rate, and a use of freed memory.
  \<^item> \<open>Flow\<close> (\<^verbatim>\<open>lib/flow.[ch]\<close>, \<^verbatim>\<open>lib/match.c\<close>): compressing loses nothing, and operations on the compressed form
    compute what the operations on the whole array do. The locale \<open>flow_rep\<close> is what both forms have in common.
  \<^item> \<open>Classifier\<close>, \<open>Classifier_Inv\<close>, \<open>Classifier_Lookup\<close> (\<^verbatim>\<open>lib/classifier.[ch]\<close>): the operations; the invariant of tables and
    chains, and that insertion, replacement and removal are the operations on a set of rules; the results of lookup,
    exact search and the overlap check, in every reachable state.
  \<^item> \<open>Reconnect\<close> (\<^verbatim>\<open>lib/reconnect.[ch]\<close>): the invariant, the backoff, keepalive probes and wakeup times.
  \<^item> \<open>Mac_Learning\<close> (\<^verbatim>\<open>lib/mac-learning.[ch]\<close>, learning in \<^verbatim>\<open>ofproto/ofproto-dpif-xlate.c\<close>): memory safety, the table as a map,
    ageing.
  \<^item> \<open>Stp\<close>, \<open>Stp_Inv\<close>, \<open>Stp_Props\<close> (\<^verbatim>\<open>lib/stp.[ch]\<close>): the operations; the invariant, which each of them keeps; which ports
    forward, the choice of the root port, delays, BPDUs, timers.
  \<^item> \<open>Ofproto_Stp\<close>, \<open>Ofproto_Bridge\<close> (\<^verbatim>\<open>ofproto/ofproto-dpif.c\<close>, \<^verbatim>\<open>ofproto/ofproto-dpif-xlate.c\<close>, \<^verbatim>\<open>ofproto/ofproto.c\<close>): the bridge
    that composes the spanning tree protocol, ports, bundles and MAC learning; what holds in all its states. \<open>od_step\<close> has
    the operations as the code has them; \<open>orderly_step\<close> adds the two conditions on their use that the code relies on and does
    not enforce, and other theorems show what happens without them.

  \<^bold>\<open>How the code is represented.\<close> A \<^verbatim>\<open>struct\<close> is a record with its members, an \<^verbatim>\<open>enum\<close> a datatype. Unsigned integers are words
  of their width and wrap around; an \<^verbatim>\<open>int\<close> is an integer, with the conversion written out where the code relies
  on the width. Objects whose sharing or lifetime matters (tables of the classifier, entries of the MAC table, ports,
  bundles, queues) live at addresses in a map; \<^verbatim>\<open>xmalloc\<close> returns an address that is an argument, and a freed address has
  no object. A failed assertion, a null pointer or a freed object that is followed is \<open>None\<close>. The time and random
  numbers are arguments; what goes out (packets, BPDUs, port status messages, wakeups) is part of the result.
  Loops are recursive functions whose termination is proved. The loop of \<^verbatim>\<open>HMAP_FOR_EACH\<close> has nothing that bounds it: it is
  a partial function with result \<open>None\<close> when it does not end, and \<open>for_each_eq\<close> shows that it ends on every well-formed map. No
  loop of the code has fuel; only the number of calls of \<^verbatim>\<open>hmap_at_position\<close> by a caller is bounded, by the number of nodes and one.

  \<^bold>\<open>Errors in the code.\<close> Some theorems show that the code does not do what it should: left-over milliseconds that are counted
  twice and path costs compared as signed integers in \<open>Stp_Props\<close>; the backoff set to zero in \<open>Reconnect\<close>; ports and
  STP ports that outlive each other in \<open>Ofproto_Bridge\<close>; the bucket that gives too much in \<open>Token_Bucket\<close>; the freed
  queue in \<open>Pinsched\<close>.

  \<^bold>\<open>Not modelled.\<close> Threads and locks: every operation runs alone, as under the lock its annotation asks for. Memory
  management, logging and statistics counters that nothing reads. Parsing packets into flows, OpenFlow messages and
  actions, JSON and the database, which are formats rather than algorithms; network devices, sockets, Netlink and the
  kernel datapath, whose other side is not in the sources; the translation of flows to datapath actions, which depends
  on these; and the state machines of BFD, CFM, LACP and bonding.
\<close>

end
